(* ===== verification/Prelude.thy ===== *)
theory Prelude
  imports Main "HOL-Library.Word"
begin

text \<open>
  Shared vocabulary of the development: Python's errors as values, results, generators,
  sequence access, little-endian decoding, and the facts about bit operations on Python
  integers (type \<open>int\<close>) that every component uses.

  A Python call that may raise returns a \<open>py_error + 'a\<close> (\<open>Inl\<close> is the exception);
  a Python generator is a value of \<open>'a gen\<close>: the items in the order in which they are
  produced, ended by a return or by an exception, so that the point at which a consumer
  sees an exception is part of the model.
\<close>

unbundle bit_operations_syntax

named_theorems xor_rules \<open>associativity, commutativity and cancellation of exclusive or\<close>
named_theorems range_rules \<open>closure of the machine-word range under the operations used\<close>

subsection \<open>Errors, results and generators\<close>

datatype py_error = AssertionError | IndexError | StructError | ValueError
  | KeyError | OverflowError | ZeroDivisionError | AttributeError | TypeError
  | ConfigError  \<comment> \<open>of \<open>configparser\<close>\<close>
  | PlainException  \<comment> \<open>\<open>raise Exception(...)\<close>\<close>

type_synonym 'a result = "py_error + 'a"

definition bind_result :: "'a result \<Rightarrow> ('a \<Rightarrow> 'b result) \<Rightarrow> 'b result" where
  "bind_result r f = (case r of Inl e \<Rightarrow> Inl e | Inr x \<Rightarrow> f x)"

lemma bind_result_simps [simp]:
  "bind_result (Inl e) f = Inl e"
  "bind_result (Inr x) f = f x"
  by (simp_all add: bind_result_def)

lemma bind_result_eq_Inr_iff:
  "bind_result r f = Inr y \<longleftrightarrow> (\<exists>x. r = Inr x \<and> f x = Inr y)"
  by (cases r) auto

definition py_assert :: "bool \<Rightarrow> 'a result \<Rightarrow> 'a result" where
  "py_assert b r = (if b then r else Inl AssertionError)"

lemma py_assert_simps [simp]:
  "py_assert True r = r"
  "py_assert False r = Inl AssertionError"
  by (simp_all add: py_assert_def)

datatype 'a gen = Done | Raise py_error | Yield 'a "'a gen"

text \<open>Draining a generator: every item, or the exception it ends with.\<close>

fun drain :: "'a gen \<Rightarrow> 'a list result" where
  "drain Done = Inr []"
| "drain (Raise e) = Inl e"
| "drain (Yield x g) = bind_result (drain g) (\<lambda>xs. Inr (x # xs))"

fun gen_of_list :: "'a list \<Rightarrow> 'a gen" where
  "gen_of_list [] = Done"
| "gen_of_list (x # xs) = Yield x (gen_of_list xs)"

lemma drain_gen_of_list [simp]: "drain (gen_of_list xs) = Inr xs"
  by (induction xs) auto

lemma drain_Inr_iff: "drain g = Inr xs \<longleftrightarrow> g = gen_of_list xs"
proof (induction g arbitrary: xs)
  case (Yield x g)
  then show ?case
    by (cases xs) (auto simp: bind_result_eq_Inr_iff)
next
  case Done
  then show ?case by (cases xs) auto
next
  case (Raise e)
  then show ?case by (cases xs) auto
qed

subsection \<open>Sequences\<close>

type_synonym bytes = "8 word list"

text \<open>Indexing, with negative indices counting from the end.\<close>

definition py_get :: "'a list \<Rightarrow> int \<Rightarrow> 'a result" where
  "py_get seq k =
     (if k < 0
      then (if nat (- k) \<le> length seq then Inr (seq ! (length seq - nat (- k))) else Inl IndexError)
      else (if nat k < length seq then Inr (seq ! nat k) else Inl IndexError))"

lemma py_get_nonneg [simp]:
  "py_get seq (int i) = (if i < length seq then Inr (seq ! i) else Inl IndexError)"
  by (simp add: py_get_def)

lemma py_get_numeral:
  "py_get seq (numeral k) =
     (if numeral k < length seq then Inr (seq ! numeral k) else Inl IndexError)"
  by (simp add: py_get_def)

text \<open>The slice \<open>xs[-k:]\<close>: the last \<open>k\<close> items, or all of them when there are fewer.\<close>

definition last_items :: "nat \<Rightarrow> 'a list \<Rightarrow> 'a list" where
  "last_items k xs = drop (length xs - k) xs"

lemma length_last_items [simp]: "length (last_items k xs) = min k (length xs)"
  by (simp add: last_items_def)

text \<open>Little-endian decoding, as \<open>struct.unpack\<close> does for \<open><H\<close>, \<open><I\<close>, \<open><Q\<close>.\<close>

fun le_int :: "bytes \<Rightarrow> int" where
  "le_int [] = 0"
| "le_int (b # bs) = uint b + 256 * le_int bs"

definition unpack_le :: "nat \<Rightarrow> bytes \<Rightarrow> int result" where
  "unpack_le n bs = (if length bs = n then Inr (le_int bs) else Inl StructError)"

lemma le_int_nonneg [simp]: "0 \<le> le_int bs"
  by (induction bs) auto

lemma le_int_less: "le_int bs < 256 ^ length bs"
proof (induction bs)
  case Nil
  then show ?case by simp
next
  case (Cons b bs)
  have "uint b < 256"
    using uint_lt2p [of b] by simp
  with Cons show ?case by simp
qed

lemma le_int_inj: "length xs = length ys \<Longrightarrow> le_int xs = le_int ys \<Longrightarrow> xs = ys"
proof (induction xs ys rule: list_induct2)
  case Nil
  then show ?case by simp
next
  case (Cons x xs y ys)
  have b: "uint x < 256" "uint y < 256"
    using uint_lt2p [of x] uint_lt2p [of y] by simp_all
  have "uint x mod 256 = uint y mod 256"
    using Cons.prems by (metis le_int.simps(2) mod_mult_self2)
  then have "uint x = uint y"
    using b by simp
  with Cons show ?case by (simp add: word_uint_eq_iff)
qed

lemma le_int_append: "le_int (xs @ ys) = le_int xs + 256 ^ length xs * le_int ys"
  by (induction xs) (auto simp: algebra_simps)

subsection \<open>Bit operations on Python integers\<close>

text \<open>The word size of the reference, \<open>W = 2 ** 64\<close>.\<close>

definition W :: int where
  "W = 2 ^ 64"

definition u64 :: "int \<Rightarrow> bool" where
  "u64 x \<longleftrightarrow> 0 \<le> x \<and> x < W"

lemma W_pos [simp]: "0 < W" "W \<noteq> 0"
  by (simp_all add: W_def)

lemma xor_self_cancel_left [xor_rules]: "(a::int) XOR (a XOR b) = b"
  by (simp flip: xor.assoc)

lemmas xor_ac [xor_rules] = xor.assoc xor.commute xor.left_commute

lemma xor_eq_swap: "(a::int) XOR b = c \<longleftrightarrow> b = a XOR c"
  by (auto simp: xor_rules)

lemma xor_eq_0_iff [simp]: "(a::int) XOR b = 0 \<longleftrightarrow> a = b"
  by (metis xor_self_cancel_left xor.right_neutral xor_self_eq)

lemma xor_left_cancel [simp]: "(a::int) XOR b = a XOR c \<longleftrightarrow> b = c"
  by (metis xor_self_cancel_left)

lemma xor_right_cancel [simp]: "(b::int) XOR a = c XOR a \<longleftrightarrow> b = c"
  by (metis xor.commute xor_left_cancel)

lemma less_exp_iff_bits:
  "0 \<le> (x::int) \<Longrightarrow> x < 2 ^ n \<longleftrightarrow> (\<forall>i \<ge> n. \<not> bit x i)"
  by (metis bit_take_bit_iff linorder_not_less take_bit_int_eq_self bit_eqI take_bit_int_less_exp)

lemma xor_less_exp [range_rules]:
  "\<lbrakk>0 \<le> (x::int); x < 2 ^ n; 0 \<le> y; y < 2 ^ n\<rbrakk> \<Longrightarrow> x XOR y < 2 ^ n"
  by (simp add: less_exp_iff_bits bit_xor_iff)

lemma xor_nonneg [range_rules]: "\<lbrakk>0 \<le> (x::int); 0 \<le> y\<rbrakk> \<Longrightarrow> 0 \<le> x XOR y"
  by simp

lemma and_single_bit: "((x::int) AND push_bit i 1 \<noteq> 0) \<longleftrightarrow> bit x i"
  by (simp add: bit_iff_and_push_bit_not_eq_0)

lemma u64_xor [range_rules]: "u64 x \<Longrightarrow> u64 y \<Longrightarrow> u64 (x XOR y)"
  unfolding u64_def W_def by (blast intro: range_rules)

lemma u64_mod [simp]: "u64 (x mod W)"
  by (simp add: u64_def)

lemma u64_mod_id: "u64 x \<Longrightarrow> x mod W = x"
  by (simp add: u64_def)

lemma u64_le_int: "length bs \<le> 8 \<Longrightarrow> u64 (le_int bs)"
proof -
  assume "length bs \<le> 8"
  then have "(256::int) ^ length bs \<le> 256 ^ 8"
    by (intro power_increasing) auto
  then show ?thesis
    using le_int_less [of bs] by (simp add: u64_def W_def)
qed

end
