(* ===== verification/Counting.thy ===== *)
theory Counting
  imports Prelude
begin

text \<open>
  Counting keys. A key is a list of 64-bit words, used two at a time; a property of keys is
  \<open>rare n e\<close> when it holds for at most a \<open>2 ** - e\<close> fraction of the keys of \<open>n\<close> words. The main
  tool is the fibre bound: if for every setting of the other words few values of one pair of
  words have a property, then few keys have it, and the bound multiplies with that of a
  property which does not depend on the pair.
\<close>

subsection \<open>Words and pairs of words\<close>

definition words :: "int set" where
  "words = {x. u64 x}"

lemma words_interval: "words = {0..<W}"
  by (auto simp: words_def u64_def)

lemma finite_words [simp]: "finite words"
  by (simp add: words_interval)

lemma card_words: "card words = 2 ^ 64"
  by (simp add: words_interval W_def)

definition pairs :: "(int \<Rightarrow> int \<Rightarrow> bool) \<Rightarrow> (int \<times> int) set" where
  "pairs P = {(a, b). u64 a \<and> u64 b \<and> P a b}"

lemma pairs_Sigma: "pairs P = Sigma words (\<lambda>a. {b \<in> words. P a b})"
  by (auto simp: pairs_def words_def)

lemma finite_pairs [simp]: "finite (pairs P)"
  unfolding pairs_Sigma by (rule finite_SigmaI) auto

lemma card_pairs_True: "card (pairs (\<lambda>a b. True)) = 2 ^ 128"
  unfolding pairs_Sigma by (simp add: card_cartesian_product card_words)

lemma card_pairs_mono: "(\<And>a b. \<lbrakk>u64 a; u64 b; P a b\<rbrakk> \<Longrightarrow> Q a b) \<Longrightarrow> card (pairs P) \<le> card (pairs Q)"
  by (rule card_mono [OF finite_pairs]) (auto simp: pairs_def)

lemma card_at_most_one:
  assumes "\<And>x y. \<lbrakk>x \<in> A; y \<in> A\<rbrakk> \<Longrightarrow> x = y"
  shows "card A \<le> 1"
proof (cases "A = {}")
  case False
  then obtain x where "x \<in> A" by blast
  then have "A = {x}" using assms by blast
  then show ?thesis by simp
qed simp

lemma card_pairs_rows:
  assumes "\<And>a. u64 a \<Longrightarrow> card {b \<in> words. P a b} \<le> c"
  shows "card (pairs P) \<le> 2 ^ 64 * c"
proof -
  have "card (pairs P) = (\<Sum>a \<in> words. card {b \<in> words. P a b})"
    unfolding pairs_Sigma by (rule card_SigmaI) auto
  also have "\<dots> \<le> (\<Sum>a \<in> words. c)"
    using assms by (intro sum_mono) (simp add: words_def)
  finally show ?thesis
    by (simp add: card_words)
qed

lemma card_pairs_swap: "card (pairs P) = card (pairs (\<lambda>a b. P b a))"
  by (rule bij_betw_same_card [of prod.swap])
    (auto simp: pairs_def bij_betw_def inj_on_def image_def)

text \<open>At most one partner for each word.\<close>

lemma card_pairs_partner:
  assumes "\<And>a b b'. \<lbrakk>u64 a; u64 b; u64 b'; P a b; P a b'\<rbrakk> \<Longrightarrow> b = b'"
  shows "card (pairs P) \<le> 2 ^ 64"
proof -
  have "card {b \<in> words. P a b} \<le> 1" if "u64 a" for a
    using that assms by (intro card_at_most_one) (auto simp: words_def)
  then show ?thesis
    using card_pairs_rows [of P 1] by simp
qed

lemma card_pairs_partner':
  assumes "\<And>a a' b. \<lbrakk>u64 a; u64 a'; u64 b; P a b; P a' b\<rbrakk> \<Longrightarrow> a = a'"
  shows "card (pairs P) \<le> 2 ^ 64"
  using card_pairs_partner [of "\<lambda>a b. P b a"] assms card_pairs_swap [of P] by metis

text \<open>Union bound over the values of a function.\<close>

lemma card_pairs_values:
  assumes "finite S" and "\<And>v. card (pairs (\<lambda>a b. f a b = v)) \<le> c"
  shows "card (pairs (\<lambda>a b. f a b \<in> S)) \<le> card S * c"
proof -
  have "pairs (\<lambda>a b. f a b \<in> S) = (\<Union>v \<in> S. pairs (\<lambda>a b. f a b = v))"
    by (auto simp: pairs_def)
  then have "card (pairs (\<lambda>a b. f a b \<in> S)) \<le> (\<Sum>v \<in> S. card (pairs (\<lambda>a b. f a b = v)))"
    using card_UN_le [OF assms(1)] by simp
  also have "\<dots> \<le> (\<Sum>v \<in> S. c)"
    using assms(2) by (intro sum_mono) simp
  finally show ?thesis by simp
qed

subsection \<open>Keys\<close>

definition keys :: "nat \<Rightarrow> int list set" where
  "keys n = {ks. length ks = n \<and> (\<forall>w \<in> set ks. u64 w)}"

lemma keys_lists: "keys n = {ks. set ks \<subseteq> words \<and> length ks = n}"
  by (auto simp: keys_def words_def)

lemma finite_keys [simp]: "finite (keys n)"
  unfolding keys_lists by (rule finite_lists_length_eq) simp

lemma card_keys: "card (keys n) = 2 ^ (64 * n)"
  unfolding keys_lists by (simp add: card_lists_length_eq card_words power_mult)

definition set_pair :: "nat \<Rightarrow> int \<Rightarrow> int \<Rightarrow> int list \<Rightarrow> int list" where
  "set_pair q a b ks = ks[2 * q := a, 2 * q + 1 := b]"

lemma length_set_pair [simp]: "length (set_pair q a b ks) = length ks"
  by (simp add: set_pair_def)

lemma set_pair_keys: "\<lbrakk>ks \<in> keys n; u64 a; u64 b\<rbrakk> \<Longrightarrow> set_pair q a b ks \<in> keys n"
  by (auto simp: keys_def set_pair_def dest!: set_update_subset_insert [THEN subsetD])

lemma set_pair_nth:
  "2 * q + 1 < length ks \<Longrightarrow> set_pair q a b ks ! (2 * q) = a"
  "2 * q + 1 < length ks \<Longrightarrow> set_pair q a b ks ! (2 * q + 1) = b"
  "p \<noteq> q \<Longrightarrow> set_pair q a b ks ! (2 * p) = ks ! (2 * p)"
  "p \<noteq> q \<Longrightarrow> set_pair q a b ks ! (2 * p + 1) = ks ! (2 * p + 1)"
proof -
  have "2 * p \<noteq> 2 * q + 1" "2 * p + 1 \<noteq> 2 * q" for p q :: nat
    by presburger+
  then show "2 * q + 1 < length ks \<Longrightarrow> set_pair q a b ks ! (2 * q) = a"
    "2 * q + 1 < length ks \<Longrightarrow> set_pair q a b ks ! (2 * q + 1) = b"
    "p \<noteq> q \<Longrightarrow> set_pair q a b ks ! (2 * p) = ks ! (2 * p)"
    "p \<noteq> q \<Longrightarrow> set_pair q a b ks ! (2 * p + 1) = ks ! (2 * p + 1)"
    by (simp_all add: set_pair_def)
qed

lemmas set_pair_nth_Suc = set_pair_nth(2,4) [unfolded Suc_eq_plus1 [symmetric]]

lemma set_pair_twice [simp]: "set_pair q a b (set_pair q c d ks) = set_pair q a b ks"
proof -
  have "ks[2 * q := c, 2 * q + 1 := d, 2 * q := a] = ks[2 * q := c, 2 * q := a, 2 * q + 1 := d]"
    by (rule list_update_swap) simp
  then show ?thesis
    by (simp add: set_pair_def)
qed

lemma set_pair_same: "set_pair q (ks ! (2 * q)) (ks ! (2 * q + 1)) ks = ks"
  by (simp add: set_pair_def)

definition rare :: "nat \<Rightarrow> nat \<Rightarrow> (int list \<Rightarrow> bool) \<Rightarrow> bool" where
  "rare n e P \<longleftrightarrow> card {ks \<in> keys n. P ks} * 2 ^ e \<le> 2 ^ (64 * n)"

text \<open>A property that does not depend on the pair \<open>q\<close>.\<close>

definition ignores :: "nat \<Rightarrow> (int list \<Rightarrow> 'a) \<Rightarrow> bool" where
  "ignores q f \<longleftrightarrow> (\<forall>ks a b. f (set_pair q a b ks) = f ks)"

lemma ignoresD: "ignores q f \<Longrightarrow> f (set_pair q a b ks) = f ks"
  by (simp add: ignores_def)

lemma keys_by_pair:
  assumes q: "2 * q + 1 < n" and ign: "ignores q Q"
  defines "base \<equiv> {ks \<in> keys n. Q ks \<and> ks ! (2 * q) = 0 \<and> ks ! (2 * q + 1) = 0}"
  shows "bij_betw (\<lambda>(ks, a, b). set_pair q a b ks)
    (Sigma base (\<lambda>ks. pairs (\<lambda>a b. R (set_pair q a b ks)))) {ks \<in> keys n. Q ks \<and> R ks}"
proof (rule bij_betw_byWitness
    [where f' = "\<lambda>ks. (set_pair q 0 0 ks, ks ! (2 * q), ks ! (2 * q + 1))"])
  have z: "set_pair q 0 0 ks = ks" if "ks \<in> base" for ks
    using that set_pair_same [of q ks] by (simp add: base_def)
  have len: "2 * q + 1 < length ks" if "ks \<in> keys n" for ks
    using that q by (simp add: keys_def)
  have "(set_pair q 0 0 (set_pair q a b ks), set_pair q a b ks ! (2 * q), set_pair q a b ks ! (2 * q + 1))
      = (ks, a, b)" if "ks \<in> base" for ks a b
  proof -
    have "2 * q + 1 < length ks"
      using len that by (simp add: base_def)
    then show ?thesis
      using z [OF that] by (simp only: set_pair_nth set_pair_twice)
  qed
  then show "\<forall>x \<in> Sigma base (\<lambda>ks. pairs (\<lambda>a b. R (set_pair q a b ks))).
      (set_pair q 0 0 ((\<lambda>(ks, a, b). set_pair q a b ks) x), (\<lambda>(ks, a, b). set_pair q a b ks) x ! (2 * q),
       (\<lambda>(ks, a, b). set_pair q a b ks) x ! (2 * q + 1)) = x"
    by (simp only: Ball_def split_paired_All mem_Sigma_iff prod.case) simp
  show "\<forall>ks \<in> {ks \<in> keys n. Q ks \<and> R ks}.
      (\<lambda>(ks, a, b). set_pair q a b ks) (set_pair q 0 0 ks, ks ! (2 * q), ks ! (2 * q + 1)) = ks"
    using set_pair_same [of q] by simp
  show "(\<lambda>(ks, a, b). set_pair q a b ks) ` Sigma base (\<lambda>ks. pairs (\<lambda>a b. R (set_pair q a b ks)))
      \<subseteq> {ks \<in> keys n. Q ks \<and> R ks}"
  proof (clarify, intro CollectI conjI)
    fix ks a b assume "ks \<in> base" and ab: "(a, b) \<in> pairs (\<lambda>a b. R (set_pair q a b ks))"
    then show "set_pair q a b ks \<in> keys n" "Q (set_pair q a b ks)" "R (set_pair q a b ks)"
      using set_pair_keys [of ks n a b q] by (simp_all add: base_def pairs_def ignoresD [OF ign])
  qed
  have "(set_pair q 0 0 ks, ks ! (2 * q), ks ! (2 * q + 1)) \<in>
      Sigma base (\<lambda>ks. pairs (\<lambda>a b. R (set_pair q a b ks)))"
    if ks: "ks \<in> keys n" "Q ks" "R ks" for ks
  proof -
    have "set_pair q 0 0 ks \<in> base"
      using ks set_pair_keys [OF ks(1), of 0 0 q] ignoresD [OF ign] set_pair_nth(1,2) [OF len [OF ks(1)]]
      by (simp add: base_def u64_def)
    moreover have "u64 (ks ! (2 * q))" "u64 (ks ! (2 * q + 1))"
      using ks(1) len [OF ks(1)] by (simp_all add: keys_def)
    ultimately show ?thesis
      using ks(3) set_pair_same [of q ks] by (simp add: pairs_def)
  qed
  then show "(\<lambda>ks. (set_pair q 0 0 ks, ks ! (2 * q), ks ! (2 * q + 1))) ` {ks \<in> keys n. Q ks \<and> R ks}
      \<subseteq> Sigma base (\<lambda>ks. pairs (\<lambda>a b. R (set_pair q a b ks)))"
    by blast
qed

lemma fibre_bound:
  assumes q: "2 * q + 1 < n" and ign: "ignores q Q" and e: "e \<le> 128"
    and few: "\<And>ks. \<lbrakk>ks \<in> keys n; Q ks\<rbrakk> \<Longrightarrow> card (pairs (\<lambda>a b. R (set_pair q a b ks))) \<le> 2 ^ (128 - e)"
  shows "card {ks \<in> keys n. Q ks \<and> R ks} * 2 ^ e \<le> card {ks \<in> keys n. Q ks}"
proof -
  let ?base = "{ks \<in> keys n. Q ks \<and> ks ! (2 * q) = 0 \<and> ks ! (2 * q + 1) = 0}"
  have fin: "finite ?base" by simp
  have "card {ks \<in> keys n. Q ks \<and> True} = card (Sigma ?base (\<lambda>ks. pairs (\<lambda>a b. True)))"
    using bij_betw_same_card [OF keys_by_pair [OF q ign, of "\<lambda>ks. True"]] by simp
  then have all: "card {ks \<in> keys n. Q ks} = card ?base * 2 ^ 128"
    by (simp add: card_cartesian_product card_pairs_True)
  have "card {ks \<in> keys n. Q ks \<and> R ks} = (\<Sum>ks \<in> ?base. card (pairs (\<lambda>a b. R (set_pair q a b ks))))"
    using bij_betw_same_card [OF keys_by_pair [OF q ign, of R]] fin by (simp add: card_SigmaI)
  also have "\<dots> \<le> (\<Sum>ks \<in> ?base. 2 ^ (128 - e))"
    using few by (intro sum_mono) simp
  finally have "card {ks \<in> keys n. Q ks \<and> R ks} * 2 ^ e \<le> card ?base * (2 ^ (128 - e) * 2 ^ e)"
    by simp
  also have "(2::nat) ^ (128 - e) * 2 ^ e = 2 ^ 128"
    using e by (simp flip: power_add)
  finally show ?thesis
    unfolding all .
qed

lemma rare_fibre:
  assumes "2 * q + 1 < n" "e \<le> 128"
    and "\<And>ks. ks \<in> keys n \<Longrightarrow> card (pairs (\<lambda>a b. R (set_pair q a b ks))) \<le> 2 ^ (128 - e)"
  shows "rare n e R"
  using fibre_bound [of q n "\<lambda>ks. True" e R] assms
  by (simp add: rare_def ignores_def card_keys)

lemma rare_conj_fibre:
  assumes "rare n d Q" "2 * q + 1 < n" "ignores q Q" "e \<le> 128"
    and "\<And>ks. \<lbrakk>ks \<in> keys n; Q ks\<rbrakk> \<Longrightarrow> card (pairs (\<lambda>a b. R (set_pair q a b ks))) \<le> 2 ^ (128 - e)"
  shows "rare n (d + e) (\<lambda>ks. Q ks \<and> R ks)"
proof -
  have "card {ks \<in> keys n. Q ks \<and> R ks} * 2 ^ (d + e) \<le> card {ks \<in> keys n. Q ks} * 2 ^ d"
    using fibre_bound [of q n Q e R] assms(2-5) by (simp add: power_add)
  then show ?thesis
    using assms(1) by (simp add: rare_def)
qed

lemma rare_mono:
  assumes "rare n e Q" "\<And>ks. \<lbrakk>ks \<in> keys n; P ks\<rbrakk> \<Longrightarrow> Q ks" "d \<le> e"
  shows "rare n d P"
proof -
  have "{ks \<in> keys n. P ks} \<subseteq> {ks \<in> keys n. Q ks}"
    using assms(2) by blast
  then have le: "card {ks \<in> keys n. P ks} \<le> card {ks \<in> keys n. Q ks}"
    by (rule card_mono [rotated]) simp
  have "(2::nat) ^ d \<le> 2 ^ e"
    using assms(3) by (rule power_increasing) simp
  from le_trans [OF mult_le_mono [OF le this]] assms(1) show ?thesis
    unfolding rare_def .
qed

lemma rare_disj:
  assumes "rare n (Suc e) P" "rare n (Suc e) Q"
  shows "rare n e (\<lambda>ks. P ks \<or> Q ks)"
proof -
  have eq: "{ks \<in> keys n. P ks \<or> Q ks} = {ks \<in> keys n. P ks} \<union> {ks \<in> keys n. Q ks}"
    by blast
  have halve: "c * 2 ^ e \<le> N" if "c \<le> a + b" "a * 2 ^ Suc e \<le> N" "b * 2 ^ Suc e \<le> N"
    for a b c N :: nat
  proof -
    have "c * 2 ^ e \<le> a * 2 ^ e + b * 2 ^ e"
      using mult_le_mono1 [OF that(1), of "2 ^ e"] by (simp only: distrib_right)
    then show ?thesis
      using that(2,3) unfolding power_Suc by linarith
  qed
  show ?thesis
    unfolding rare_def eq
    by (rule halve [OF card_Un_le]) (use assms in \<open>simp_all only: rare_def\<close>)
qed

lemma rare_False: "rare n e (\<lambda>ks. False)"
  by (simp add: rare_def)

lemma rare_never: "(\<And>ks. \<not> P ks) \<Longrightarrow> rare n e P"
  by (simp add: rare_def)

lemma rare_count:
  assumes "rare n e P" "e \<le> 64 * n"
  shows "card {ks \<in> keys n. P ks} \<le> 2 ^ (64 * n - e)"
proof -
  have "(2::nat) ^ (64 * n) = 2 ^ (64 * n - e) * 2 ^ e"
    using assms(2) by (metis le_add_diff_inverse2 power_add)
  then have "card {ks \<in> keys n. P ks} * 2 ^ e \<le> 2 ^ (64 * n - e) * 2 ^ e"
    using assms(1) unfolding rare_def by metis
  then show ?thesis
    by simp
qed

text \<open>A property that leaves at most one value to one word.\<close>

lemma pairs_one_word:
  assumes w: "w < n" "even n" and ks: "ks \<in> keys n"
    and one: "\<And>ks a a'. \<lbrakk>ks \<in> keys n; u64 a; u64 a'; P (ks[w := a]); P (ks[w := a'])\<rbrakk> \<Longrightarrow> a = a'"
  shows "card (pairs (\<lambda>a b. P (set_pair (w div 2) a b ks))) \<le> 2 ^ (128 - 64)"
proof -
  have upd: "ks[v := c] \<in> keys n" if "u64 c" for v c
    using ks that by (auto simp: keys_def dest!: set_update_subset_insert [THEN subsetD])
  show ?thesis
  proof (cases "even w")
    case True
    then have "set_pair (w div 2) a b ks = (ks[w + 1 := b])[w := a]" for a b
      by (simp add: set_pair_def list_update_swap [of w "Suc w"])
    then have "card (pairs (\<lambda>a b. P (set_pair (w div 2) a b ks))) \<le> 2 ^ 64"
      using one [OF upd] by (intro card_pairs_partner') simp
    then show ?thesis by simp
  next
    case False
    then have "2 * (w div 2) + 1 = w" by simp
    then have "set_pair (w div 2) a b ks = (ks[2 * (w div 2) := a])[w := b]" for a b
      unfolding set_pair_def by simp
    then have "card (pairs (\<lambda>a b. P (set_pair (w div 2) a b ks))) \<le> 2 ^ 64"
      using one [OF upd] by (intro card_pairs_partner) simp
    then show ?thesis by simp
  qed
qed

lemma pair_of_word: "\<lbrakk>w < n; even n\<rbrakk> \<Longrightarrow> 2 * (w div 2) + 1 < (n::nat)"
  by presburger

end
