(* ===== verification/Gfmul.thy ===== *)
theory Gfmul
  imports Prelude
begin

text \<open>
  Carry-less multiplication (\<open>gfmul\<close>, \<open>umash_reference.py\<close>): the loop of the reference,
  and the algebra the collision analysis needs. \<open>gfmul\<close> is bilinear over exclusive or and
  commutative on 64-bit operands, its result has at most 127 bits, and it has no zero
  divisors, so that multiplication by a non-zero word is injective.
\<close>

definition gfmul :: "int \<Rightarrow> int \<Rightarrow> int" where
  "gfmul x y =
     foldl (\<lambda>ret i. if x AND push_bit i 1 \<noteq> 0 then ret XOR push_bit i y else ret) 0 [0..<64]"

subsection \<open>The loop, one bit at a time\<close>

fun gfmul_upto :: "nat \<Rightarrow> int \<Rightarrow> int \<Rightarrow> int" where
  "gfmul_upto 0 x y = 0"
| "gfmul_upto (Suc k) x y =
     (if bit x k then gfmul_upto k x y XOR push_bit k y else gfmul_upto k x y)"

lemma foldl_gfmul:
  "foldl (\<lambda>ret i. if x AND push_bit i 1 \<noteq> 0 then ret XOR push_bit i y else ret) 0 [0..<k]
     = gfmul_upto k x y"
  by (induction k) (simp_all add: and_single_bit del: push_bit_of_1)

lemma gfmul_eq_upto: "gfmul x y = gfmul_upto 64 x y"
  unfolding gfmul_def foldl_gfmul ..

lemma gfmul_upto_0_left [simp]: "gfmul_upto k 0 y = 0"
  by (induction k) auto

lemma gfmul_upto_0_right [simp]: "gfmul_upto k x 0 = 0"
  by (induction k) auto

lemma gfmul_upto_xor_right:
  "gfmul_upto k x (y XOR z) = gfmul_upto k x y XOR gfmul_upto k x z"
  by (induction k) (auto simp: push_bit_xor xor_rules)

lemma gfmul_upto_xor_left:
  "gfmul_upto k (x XOR y) z = gfmul_upto k x z XOR gfmul_upto k y z"
  by (induction k) (auto simp: bit_xor_iff xor_rules)

lemma take_bit_Suc_xor:
  "take_bit (Suc m) (y::int) = take_bit m y XOR (if bit y m then push_bit m 1 else 0)"
  by (rule bit_eqI) (auto simp: bit_simps less_Suc_eq)

lemma gfmul_upto_single: "gfmul_upto k x (push_bit m 1) = push_bit m (take_bit k x)"
proof (induction k)
  case (Suc k)
  have "push_bit k (push_bit m 1) = push_bit m (push_bit k (1::int))"
    by (simp only: push_bit_push_bit add.commute)
  with Suc show ?case
    by (simp add: take_bit_Suc_xor push_bit_xor)
qed simp

lemma gfmul_upto_commute:
  "gfmul_upto n x (take_bit m y) = gfmul_upto m y (take_bit n x)"
proof (induction m)
  case (Suc m)
  then show ?case
    by (simp add: take_bit_Suc_xor gfmul_upto_xor_right gfmul_upto_single del: push_bit_of_1)
qed simp

subsection \<open>Size of the product and its top bit\<close>

lemma gfmul_upto_nonneg: "0 \<le> y \<Longrightarrow> 0 \<le> gfmul_upto k x y"
  by (induction k) (auto simp: range_rules)

lemma push_bit_less_exp: "0 \<le> (y::int) \<Longrightarrow> y < 2 ^ m \<Longrightarrow> push_bit k y < 2 ^ (k + m)"
  by (simp add: push_bit_eq_mult power_add)

lemma gfmul_upto_less:
  "\<lbrakk>0 \<le> y; y < 2 ^ Suc m\<rbrakk> \<Longrightarrow> gfmul_upto k x y < 2 ^ (k + m)"
proof (induction k)
  case (Suc k)
  have a: "gfmul_upto k x y < 2 ^ (Suc k + m)"
    using Suc by (simp add: le_less_trans [OF less_imp_le])
  have b: "push_bit k y < 2 ^ (Suc k + m)"
    using push_bit_less_exp [OF Suc.prems, of k] by simp
  have "gfmul_upto k x y XOR push_bit k y < 2 ^ (Suc k + m)"
    using Suc.prems by (intro xor_less_exp a b) (simp_all add: gfmul_upto_nonneg)
  with a show ?case
    by (simp del: power_Suc add_Suc)
qed simp

lemma gfmul_upto_high:
  assumes "i < k" and "\<And>j. i < j \<Longrightarrow> \<not> bit x j"
  shows "gfmul_upto k x y = gfmul_upto (Suc i) x y"
  using assms
proof (induction k)
  case (Suc k)
  then show ?case
    by (cases "k = i") auto
qed simp

lemma top_bit:
  assumes "0 < (x::int)"
  obtains i where "bit x i" and "\<And>j. i < j \<Longrightarrow> \<not> bit x j" and "x < 2 ^ Suc i"
proof -
  obtain n where n: "x < 2 ^ n"
  proof
    have "int (nat x) < int (2 ^ nat x)"
      by (simp only: of_nat_less_iff less_exp)
    then show "x < 2 ^ nat x"
      using assms by simp
  qed
  define i where "i = (LEAST n. x < 2 ^ n) - 1"
  have l: "x < 2 ^ (LEAST n. x < 2 ^ n)"
    using n by (rule LeastI)
  then have pos: "(LEAST n. x < 2 ^ n) \<noteq> 0"
    using assms by (metis less_one linorder_not_less power_0 int_one_le_iff_zero_less)
  then have s: "x < 2 ^ Suc i"
    using l i_def by simp
  have "\<not> x < 2 ^ i"
    using pos not_less_Least [of i "\<lambda>n. x < 2 ^ n"] i_def by simp
  then have "bit x i"
    using s assms less_exp_iff_bits [of x i] less_exp_iff_bits [of x "Suc i"]
    by (metis less_imp_le order_le_imp_less_or_eq Suc_leI)
  moreover have "\<And>j. i < j \<Longrightarrow> \<not> bit x j"
    using s assms less_exp_iff_bits [of x "Suc i"] by (simp add: Suc_le_eq)
  ultimately show ?thesis
    using s that by blast
qed

lemma gfmul_pos:
  assumes "u64 x" and "u64 y" and "x \<noteq> 0" and "y \<noteq> 0"
  shows "gfmul x y \<noteq> 0"
proof -
  have pos: "0 < x" "0 < y"
    using assms by (auto simp: u64_def)
  obtain i where i: "bit x i" "\<And>j. i < j \<Longrightarrow> \<not> bit x j"
    using top_bit [OF pos(1)] by blast
  obtain j where j: "bit y j" "y < 2 ^ Suc j"
    using top_bit [OF pos(2)] by blast
  have "\<forall>i \<ge> 64. \<not> bit x i"
    using assms(1) less_exp_iff_bits [of x 64] unfolding u64_def W_def by blast
  then have "i < 64"
    using i(1) not_less by blast
  then have eq: "gfmul x y = gfmul_upto i x y XOR push_bit i y"
    using i by (simp add: gfmul_eq_upto gfmul_upto_high [of i])
  have "gfmul_upto i x y < 2 ^ (i + j)"
    using pos(2) j(2) by (intro gfmul_upto_less) auto
  then have "\<not> bit (gfmul_upto i x y) (i + j)"
    using pos(2) less_exp_iff_bits [of "gfmul_upto i x y" "i + j"]
    by (simp add: gfmul_upto_nonneg)
  moreover have "bit (push_bit i y) (i + j)"
    using j(1) by (simp add: bit_push_bit_iff)
  ultimately have "bit (gfmul x y) (i + j)"
    by (simp add: eq bit_xor_iff)
  then show ?thesis by auto
qed

subsection \<open>The algebra of the product\<close>

lemma gfmul_0 [simp]: "gfmul 0 y = 0" "gfmul x 0 = 0"
  by (simp_all add: gfmul_eq_upto)

lemma gfmul_xor_left: "gfmul (x XOR y) z = gfmul x z XOR gfmul y z"
  by (simp only: gfmul_eq_upto gfmul_upto_xor_left)

lemma gfmul_xor_right: "gfmul x (y XOR z) = gfmul x y XOR gfmul x z"
  by (simp only: gfmul_eq_upto gfmul_upto_xor_right)

lemmas gfmul_linear = gfmul_xor_left gfmul_xor_right

lemma u64_take_bit: "u64 x \<Longrightarrow> take_bit 64 x = x"
  by (simp add: u64_def W_def take_bit_int_eq_self)

lemma gfmul_commute:
  assumes "u64 x" and "u64 y"
  shows "gfmul x y = gfmul y x"
  using gfmul_upto_commute [of 64 x 64 y] assms by (simp add: gfmul_eq_upto u64_take_bit)

lemma gfmul_nonneg: "u64 y \<Longrightarrow> 0 \<le> gfmul x y"
  by (simp add: gfmul_eq_upto gfmul_upto_nonneg u64_def)

lemma gfmul_less: "u64 y \<Longrightarrow> gfmul x y < 2 ^ 127"
  using gfmul_upto_less [of y 63 64 x] by (simp add: gfmul_eq_upto u64_def W_def)

lemma gfmul_inj_right:
  assumes "u64 x" "x \<noteq> 0" "u64 y" "u64 z" and "gfmul x y = gfmul x z"
  shows "y = z"
proof (rule ccontr)
  assume "y \<noteq> z"
  then have "gfmul x (y XOR z) \<noteq> 0"
    using assms by (intro gfmul_pos) (auto simp: u64_xor)
  then show False
    using assms(5) by (simp add: gfmul_linear)
qed

end
