(* ===== verification/Keys.thy ===== *)
theory Keys
  imports Prelude
begin

text \<open>
  Keys (\<open>UmashKey\<close>, \<open>is_acceptable_multiplier\<close>, \<open>generate_key\<close>,
  \<open>umash_reference.py\<close>). The random source is the \<open>random\<close> argument of
  \<open>generate_key\<close>: a state and a function \<open>getrandbits\<close> from a bit count and a state to a
  value and the next state. Both rejection loops may reject for ever, so they return an
  option: \<open>None\<close> is a call that does not return.
\<close>

definition BLOCK_SIZE :: nat where "BLOCK_SIZE = 16"
definition CHUNK_SIZE :: nat where "CHUNK_SIZE = 16"
definition TWISTING_COUNT :: nat where "TWISTING_COUNT = 2"
definition SHORT_KEY_SHIFT :: nat where "SHORT_KEY_SHIFT = 4"

record umash_key =
  poly :: int
  oh :: "int list"

definition is_acceptable_multiplier :: "int \<Rightarrow> bool" where
  "is_acceptable_multiplier m \<longleftrightarrow> 1 < m \<and> m < 2 ^ 61 - 1"

partial_function (option) draw_poly ::
    "(nat \<Rightarrow> 'g \<Rightarrow> int \<times> 'g) \<Rightarrow> int \<Rightarrow> 'g \<Rightarrow> (int \<times> 'g) option" where
  "draw_poly getrandbits p g =
     (if is_acceptable_multiplier p then Some (p, g)
      else draw_poly getrandbits (fst (getrandbits 61 g)) (snd (getrandbits 61 g)))"

partial_function (option) draw_word ::
    "(nat \<Rightarrow> 'g \<Rightarrow> int \<times> 'g) \<Rightarrow> int list \<Rightarrow> int option \<Rightarrow> 'g \<Rightarrow> (int \<times> 'g) option" where
  "draw_word getrandbits ohs u g =
     (if u = None \<or> the u \<in> set ohs
      then draw_word getrandbits ohs (Some (fst (getrandbits 64 g))) (snd (getrandbits 64 g))
      else Some (the u, g))"

fun draw_oh :: "(nat \<Rightarrow> 'g \<Rightarrow> int \<times> 'g) \<Rightarrow> nat \<Rightarrow> int list \<Rightarrow> 'g \<Rightarrow> (int list \<times> 'g) option" where
  "draw_oh getrandbits 0 ohs g = Some (ohs, g)"
| "draw_oh getrandbits (Suc n) ohs g =
     (case draw_word getrandbits ohs None g of
        None \<Rightarrow> None
      | Some (u, g') \<Rightarrow> draw_oh getrandbits n (ohs @ [u]) g')"

definition generate_key ::
    "(nat \<Rightarrow> 'g \<Rightarrow> int \<times> 'g) \<Rightarrow> 'g \<Rightarrow> (umash_key \<times> 'g) option" where
  "generate_key getrandbits g =
     (case draw_poly getrandbits 0 g of
        None \<Rightarrow> None
      | Some (p, g') \<Rightarrow>
          (case draw_oh getrandbits (2 * BLOCK_SIZE + TWISTING_COUNT) [] g' of
             None \<Rightarrow> None
           | Some (ohs, g'') \<Rightarrow> Some (\<lparr>poly = p, oh = ohs\<rparr>, g'')))"

text \<open>What the hash relies on in a key, and what \<open>generate_key\<close> guarantees beyond it.\<close>

definition usable_key :: "umash_key \<Rightarrow> bool" where
  "usable_key k \<longleftrightarrow> length (oh k) = 2 * BLOCK_SIZE + TWISTING_COUNT \<and> (\<forall>w \<in> set (oh k). u64 w)"

definition strong_key :: "umash_key \<Rightarrow> bool" where
  "strong_key k \<longleftrightarrow> usable_key k \<and> is_acceptable_multiplier (poly k) \<and> distinct (oh k)"

text \<open>
  The documented behaviour of the random source: \<open>getrandbits(k)\<close> is in \<open>[0, 2^k)\<close>; and,
  for the loops to end, it keeps leaving any set that does not hold every \<open>k\<close>-bit value.
\<close>

definition bits_in_range :: "(nat \<Rightarrow> 'g \<Rightarrow> int \<times> 'g) \<Rightarrow> bool" where
  "bits_in_range getrandbits \<longleftrightarrow>
     (\<forall>k g. 0 \<le> fst (getrandbits k g) \<and> fst (getrandbits k g) < 2 ^ k)"

fun advance :: "(nat \<Rightarrow> 'g \<Rightarrow> int \<times> 'g) \<Rightarrow> nat \<Rightarrow> nat \<Rightarrow> 'g \<Rightarrow> 'g" where
  "advance getrandbits k 0 g = g"
| "advance getrandbits k (Suc n) g = advance getrandbits k n (snd (getrandbits k g))"

definition escapes :: "(nat \<Rightarrow> 'g \<Rightarrow> int \<times> 'g) \<Rightarrow> bool" where
  "escapes getrandbits \<longleftrightarrow>
     (\<forall>k g S. finite S \<and> card S < 2 ^ k \<longrightarrow>
        (\<exists>n. fst (getrandbits k (advance getrandbits k n g)) \<notin> S))"

subsection \<open>What a returning call returns\<close>

lemma draw_poly_acceptable:
  assumes "draw_poly rnd p g = Some (q, g')"
  shows "is_acceptable_multiplier q"
proof -
  have "is_acceptable_multiplier (fst (q, g'))"
  proof (rule draw_poly.raw_induct
      [where P = "\<lambda>rnd p g r. is_acceptable_multiplier (fst r)", OF _ assms])
    fix f rnd p g r
    assume IH: "\<And>rnd p g r. f rnd p g = Some r \<Longrightarrow> is_acceptable_multiplier (fst r)"
      and eq: "(if is_acceptable_multiplier p then Some (p, g)
         else f rnd (fst (rnd 61 g)) (snd (rnd 61 g))) = Some r"
    show "is_acceptable_multiplier (fst r)"
      using eq IH by (cases "is_acceptable_multiplier p") auto
  qed
  then show ?thesis by simp
qed

lemma draw_word_fresh:
  assumes "draw_word rnd ohs u g = Some (w, g')" and "bits_in_range rnd"
    and "\<And>x. u = Some x \<Longrightarrow> u64 x"
  shows "w \<notin> set ohs \<and> u64 w"
proof -
  let ?P = "\<lambda>rnd ohs u (g::'a) r. bits_in_range rnd \<longrightarrow> (\<forall>x. u = Some x \<longrightarrow> u64 x) \<longrightarrow>
    fst r \<notin> set ohs \<and> u64 (fst r)"
  have "?P rnd ohs u g (w, g')"
  proof (rule draw_word.raw_induct [where P = ?P, OF _ assms(1)])
    fix f rnd ohs u g r
    assume IH: "\<And>rnd ohs u g r. f rnd ohs u g = Some r \<Longrightarrow> ?P rnd ohs u g r"
      and eq: "(if u = None \<or> the u \<in> set ohs
         then f rnd ohs (Some (fst (rnd 64 g))) (snd (rnd 64 g)) else Some (the u, g)) = Some r"
    have "u64 (fst (rnd 64 g))" if "bits_in_range rnd"
      using that unfolding bits_in_range_def u64_def W_def by blast
    then show "?P rnd ohs u g r"
      using eq IH by (auto split: if_splits)
  qed
  then show ?thesis using assms(2,3) by simp
qed

lemma draw_oh_fresh:
  assumes "draw_oh rnd n ohs g = Some (ws, g')" and "bits_in_range rnd"
    and "distinct ohs" and "\<forall>w \<in> set ohs. u64 w"
  shows "length ws = length ohs + n \<and> distinct ws \<and> (\<forall>w \<in> set ws. u64 w)"
  using assms
proof (induction n arbitrary: ohs g)
  case (Suc n)
  then obtain u g1 where u: "draw_word rnd ohs None g = Some (u, g1)"
      "draw_oh rnd n (ohs @ [u]) g1 = Some (ws, g')"
    by (auto split: option.splits)
  have "u \<notin> set ohs \<and> u64 u"
    using draw_word_fresh [OF u(1) Suc.prems(2)] by simp
  then show ?case
    using Suc.IH [OF u(2)] Suc.prems by simp
qed simp

subsection \<open>When a call returns\<close>

lemma draw_poly_returns:
  "is_acceptable_multiplier (fst (rnd 61 (advance rnd 61 n g))) \<Longrightarrow>
     \<exists>q g'. draw_poly rnd p g = Some (q, g')"
proof (induction n arbitrary: p g)
  case 0
  then show ?case
    by (simp add: draw_poly.simps [of rnd p g] draw_poly.simps [of rnd "fst (rnd 61 g)"])
next
  case (Suc n)
  then show ?case
    by (simp add: draw_poly.simps [of rnd p g])
qed

lemma draw_word_returns:
  "fst (rnd 64 (advance rnd 64 n g)) \<notin> set ohs \<Longrightarrow>
     \<exists>w g'. draw_word rnd ohs u g = Some (w, g')"
proof (induction n arbitrary: u g)
  case 0
  then show ?case
    by (simp add: draw_word.simps [of rnd ohs u g]
        draw_word.simps [of rnd ohs "Some (fst (rnd 64 g))"])
next
  case (Suc n)
  then show ?case
    by (simp add: draw_word.simps [of rnd ohs u g])
qed

lemma draw_oh_returns:
  assumes "escapes rnd"
  shows "length ohs + n < 2 ^ 64 \<Longrightarrow> \<exists>ws g'. draw_oh rnd n ohs g = Some (ws, g')"
proof (induction n arbitrary: ohs g)
  case (Suc n)
  have "card (set ohs) < 2 ^ 64"
    using Suc.prems card_length [of ohs] by linarith
  then obtain m where "fst (rnd 64 (advance rnd 64 m g)) \<notin> set ohs"
    using assms unfolding escapes_def by (metis List.finite_set)
  then obtain u g1 where "draw_word rnd ohs None g = Some (u, g1)"
    using draw_word_returns [of rnd m g ohs None] by blast
  then show ?case
    using Suc.IH [of "ohs @ [u]" g1] Suc.prems by simp
qed simp

lemma escapes_acceptable:
  assumes "escapes rnd" and "bits_in_range rnd"
  shows "\<exists>n. is_acceptable_multiplier (fst (rnd 61 (advance rnd 61 n g)))"
proof -
  let ?S = "{0, 1, 2 ^ 61 - 1 :: int}"
  have "card ?S \<le> 3"
    by simp
  then have "finite ?S \<and> card ?S < 2 ^ 61"
    by simp
  then obtain n where n: "fst (rnd 61 (advance rnd 61 n g)) \<notin> ?S"
    using assms(1) unfolding escapes_def by blast
  have "0 \<le> fst (rnd 61 (advance rnd 61 n g))" "fst (rnd 61 (advance rnd 61 n g)) < 2 ^ 61"
    using assms(2) unfolding bits_in_range_def by blast+
  then have "is_acceptable_multiplier (fst (rnd 61 (advance rnd 61 n g)))"
    using n by (simp add: is_acceptable_multiplier_def)
  then show ?thesis ..
qed

lemma generate_key_strong:
  assumes "generate_key rnd g = Some (k, g')" and "bits_in_range rnd"
  shows "strong_key k"
proof -
  obtain p g1 ws g2 where d: "draw_poly rnd 0 g = Some (p, g1)"
      "draw_oh rnd (2 * BLOCK_SIZE + TWISTING_COUNT) [] g1 = Some (ws, g2)"
      "k = \<lparr>poly = p, oh = ws\<rparr>"
    using assms(1) by (auto simp: generate_key_def split: option.splits)
  then show ?thesis
    using draw_poly_acceptable [OF d(1)] draw_oh_fresh [OF d(2) assms(2)]
    by (simp add: strong_key_def usable_key_def)
qed

lemma generate_key_returns:
  assumes "escapes rnd" and "bits_in_range rnd"
  shows "\<exists>k g'. generate_key rnd g = Some (k, g')"
proof -
  obtain q g1 where "draw_poly rnd 0 g = Some (q, g1)"
    using escapes_acceptable [OF assms, of g] draw_poly_returns [of rnd _ g 0] by blast
  moreover obtain ws g2 where
    "draw_oh rnd (2 * BLOCK_SIZE + TWISTING_COUNT) [] g1 = Some (ws, g2)"
    using draw_oh_returns [OF assms(1), of "[]" "2 * BLOCK_SIZE + TWISTING_COUNT" g1]
    by (auto simp: BLOCK_SIZE_def TWISTING_COUNT_def)
  ultimately show ?thesis
    by (simp add: generate_key_def)
qed

end
