(* ===== verification/OH.thy ===== *)
theory OH
  imports Gfmul Keys
begin

text \<open>
  The \<open>OH\<close> block compressor (\<open>oh_mix_one_block\<close>, \<open>shuffle\<close>, \<open>oh_compress_one_block\<close> and
  \<open>oh_compress\<close>, \<open>umash_reference.py\<close>), as loops with every exception they may raise, and
  the closed forms they compute: the \<open>PH\<close> and \<open>ENH\<close> mixers, their exclusive or, and the
  shuffled sum with the checksum of the secondary hash.
\<close>

definition unpack_chunk :: "bytes \<Rightarrow> (int \<times> int) result" where
  "unpack_chunk c =
     (if length c = 16 then Inr (le_int (take 8 c), le_int (drop 8 c)) else Inl StructError)"

fun oh_mix_loop ::
    "int list \<Rightarrow> nat \<Rightarrow> int \<Rightarrow> nat \<Rightarrow> bytes list \<Rightarrow> int list \<Rightarrow> int \<times> int
      \<Rightarrow> (int list \<times> (int \<times> int)) result" where
  "oh_mix_loop key n tag i [] mixed lrc = Inr (mixed, lrc)"
| "oh_mix_loop key n tag i (chunk # rest) mixed lrc =
     bind_result (py_get key (int (2 * i))) (\<lambda>ka.
     bind_result (py_get key (int (2 * i + 1))) (\<lambda>kb.
     bind_result (unpack_chunk chunk) (\<lambda>(xa, xb).
       let lrc' = (fst lrc XOR (ka XOR xa), snd lrc XOR (kb XOR xb)) in
       if i + 1 < n then
         oh_mix_loop key n tag (i + 1) rest (mixed @ [gfmul (xa XOR ka) (xb XOR kb)]) lrc'
       else
         let ya = (xa + ka) mod W; yb = (xb + kb) mod W;
             enh = (ya * yb + tag) mod (W * W);
             enh' = enh XOR (enh mod W) * W
         in oh_mix_loop key n tag (i + 1) rest (mixed @ [enh']) lrc')))"

definition oh_mix_one_block :: "int list \<Rightarrow> bytes list \<Rightarrow> int \<Rightarrow> bool \<Rightarrow> int list result" where
  "oh_mix_one_block key block tag secondary =
     bind_result (oh_mix_loop key (length block) tag 0 block [] (0, 0)) (\<lambda>(mixed, lrc).
       if secondary then
         bind_result (py_get key (-2)) (\<lambda>ta.
         bind_result (py_get key (-1)) (\<lambda>tb.
           Inr (mixed @ [gfmul (fst lrc XOR ta) (snd lrc XOR tb)])))
       else Inr mixed)"

definition parallel_shift :: "int \<Rightarrow> int \<Rightarrow> int result" where
  "parallel_shift x s =
     (if s < 0 then Inl ValueError
      else let lo = x mod W; hi = x div W;
               lo' = push_bit (nat s) lo mod W; hi' = push_bit (nat s) hi mod W
           in Inr (lo' + W * hi'))"

definition shuffle :: "int \<Rightarrow> int \<Rightarrow> int \<Rightarrow> int result" where
  "shuffle x i n =
     (let shift = n - i in
      if shift = 0 then Inr x
      else if shift = 1 then parallel_shift x 1
      else bind_result (parallel_shift x shift) (\<lambda>a.
           bind_result (parallel_shift x 1) (\<lambda>b. Inr (a XOR b))))"

fun shuffle_loop :: "int \<Rightarrow> int \<Rightarrow> int list \<Rightarrow> int \<Rightarrow> int result" where
  "shuffle_loop n i [] acc = Inr acc"
| "shuffle_loop n i (m # rest) acc =
     bind_result (shuffle m (i + 1) n) (\<lambda>s. shuffle_loop n (i + 1) rest (acc XOR s))"

definition oh_compress_one_block :: "int list \<Rightarrow> bytes list \<Rightarrow> int \<Rightarrow> bool \<Rightarrow> int result" where
  "oh_compress_one_block key block tag secondary =
     bind_result (oh_mix_one_block key block tag secondary) (\<lambda>mixed.
       if \<not> secondary then Inr (foldl (XOR) 0 mixed)
       else bind_result (py_get mixed (-1)) (\<lambda>acc.
              shuffle_loop (int (length mixed) - 1) 0 (butlast mixed) acc))"

fun oh_compress :: "int list \<Rightarrow> int \<Rightarrow> (bytes list \<times> nat) gen \<Rightarrow> bool \<Rightarrow> int gen" where
  "oh_compress key seed Done secondary = Done"
| "oh_compress key seed (Raise e) secondary = Raise e"
| "oh_compress key seed (Yield (block, block_size) g) secondary =
     (let size_tag = int (block_size mod (CHUNK_SIZE * BLOCK_SIZE));
          tag = (seed XOR size_tag) * W
      in case oh_compress_one_block key block tag secondary of
           Inl e \<Rightarrow> Raise e
         | Inr v \<Rightarrow> Yield v (oh_compress key seed g secondary))"

subsection \<open>The mixers\<close>

definition ph :: "int \<Rightarrow> int \<Rightarrow> int \<Rightarrow> int \<Rightarrow> int" where
  "ph ka kb xa xb = gfmul (xa XOR ka) (xb XOR kb)"

definition nh :: "int \<Rightarrow> int \<Rightarrow> int \<Rightarrow> int \<Rightarrow> int" where
  "nh ka kb xa xb = ((xa + ka) mod W) * ((xb + kb) mod W)"

definition fold_low :: "int \<Rightarrow> int" where
  "fold_low e = e XOR (e mod W) * W"

definition enh :: "int \<Rightarrow> int \<Rightarrow> int \<Rightarrow> int \<Rightarrow> int \<Rightarrow> int" where
  "enh tag ka kb xa xb = fold_low ((nh ka kb xa xb + tag) mod (W * W))"

definition lo_word :: "bytes \<Rightarrow> int" where "lo_word c = le_int (take 8 c)"
definition hi_word :: "bytes \<Rightarrow> int" where "hi_word c = le_int (drop 8 c)"

text \<open>Mixed values of a block of \<open>n\<close> chunks: \<open>PH\<close> for all but the last, which goes to \<open>ENH\<close>.\<close>

fun mix_from :: "int list \<Rightarrow> int \<Rightarrow> bytes list \<Rightarrow> int list" where
  "mix_from key tag [] = []"
| "mix_from key tag [c] = [enh tag (key ! 0) (key ! 1) (lo_word c) (hi_word c)]"
| "mix_from key tag (c # d # cs) =
     ph (key ! 0) (key ! 1) (lo_word c) (hi_word c) # mix_from (drop 2 key) tag (d # cs)"

fun checksum_from :: "int list \<Rightarrow> bytes list \<Rightarrow> int \<times> int \<Rightarrow> int \<times> int" where
  "checksum_from key [] l = l"
| "checksum_from key (c # cs) l =
     checksum_from (drop 2 key) cs
       (fst l XOR (key ! 0 XOR lo_word c), snd l XOR (key ! 1 XOR hi_word c))"

text \<open>The exclusive or of a list.\<close>

fun xor_list :: "int list \<Rightarrow> int" where
  "xor_list [] = 0"
| "xor_list (x # xs) = x XOR xor_list xs"

lemma foldl_xor: "foldl (XOR) a xs = a XOR xor_list xs"
  by (induction xs arbitrary: a) (auto simp: xor.assoc)

lemma xor_list_append [simp]: "xor_list (xs @ ys) = xor_list xs XOR xor_list ys"
  by (induction xs) (auto simp: xor.assoc)

lemma length_mix_from [simp]: "length (mix_from key tag cs) = length cs"
  by (induction key tag cs rule: mix_from.induct) auto

text \<open>The loop computes the mixed values and the checksum, and raises nothing.\<close>

lemma oh_mix_loop_eq:
  assumes "\<forall>c \<in> set cs. length c = 16" and "2 * (i + length cs) \<le> length key"
    and "n = i + length cs"
  shows "oh_mix_loop key n tag i cs mixed lrc =
    Inr (mixed @ mix_from (drop (2 * i) key) tag cs, checksum_from (drop (2 * i) key) cs lrc)"
  using assms
proof (induction cs arbitrary: i mixed lrc)
  case (Cons c cs)
  have key: "2 * i < length key" "2 * i + 1 < length key"
    using Cons.prems by simp_all
  have d: "drop 2 (drop (2 * i) key) = drop (2 * (i + 1)) key"
    by (simp add: add.commute)
  have get: "py_get key (int (2 * i)) = Inr (drop (2 * i) key ! 0)"
    "py_get key (int (2 * i + 1)) = Inr (drop (2 * i) key ! 1)"
    using key by (simp_all only: py_get_nonneg) simp_all
  have c: "unpack_chunk c = Inr (lo_word c, hi_word c)"
    using Cons.prems by (simp add: unpack_chunk_def lo_word_def hi_word_def)
  have IH: "oh_mix_loop key n tag (i + 1) cs m l =
      Inr (m @ mix_from (drop (2 * (i + 1)) key) tag cs,
           checksum_from (drop (2 * (i + 1)) key) cs l)" for m l
    using Cons.prems by (intro Cons.IH) simp_all
  show ?case
  proof (cases cs)
    case Nil
    then have l: "\<not> i + 1 < n"
      using Cons.prems by simp
    show ?thesis
      unfolding oh_mix_loop.simps get c bind_result_simps prod.case Let_def IH if_not_P [OF l]
      by (simp add: Nil enh_def nh_def fold_low_def)
  next
    case (Cons d' cs')
    then have l: "i + 1 < n"
      using Cons.prems by simp
    have m: "mix_from (drop (2 * i) key) tag (c # cs) =
        ph (drop (2 * i) key ! 0) (drop (2 * i) key ! 1) (lo_word c) (hi_word c)
          # mix_from (drop (2 * (i + 1)) key) tag cs"
      by (simp only: Cons mix_from.simps d)
    show ?thesis
      unfolding oh_mix_loop.simps get c bind_result_simps prod.case Let_def IH if_P [OF l]
        m checksum_from.simps d
      by (simp add: ph_def)
  qed
qed simp

subsection \<open>Shifting the two 64-bit lanes\<close>

definition pshift :: "nat \<Rightarrow> int \<Rightarrow> int" where
  "pshift s x = push_bit s (x mod W) mod W + W * (push_bit s (x div W) mod W)"

definition shuffler :: "nat \<Rightarrow> nat \<Rightarrow> int \<Rightarrow> int" where
  "shuffler n i x =
     (if i = n then x else if i + 1 = n then pshift 1 x else pshift (n - i) x XOR pshift 1 x)"

fun shuffled_sum :: "nat \<Rightarrow> nat \<Rightarrow> int list \<Rightarrow> int" where
  "shuffled_sum n i [] = 0"
| "shuffled_sum n i (m # ms) = shuffler n (i + 1) m XOR shuffled_sum n (i + 1) ms"

lemma parallel_shift_eq: "parallel_shift x (int s) = Inr (pshift s x)"
  by (simp add: parallel_shift_def pshift_def Let_def)

lemma parallel_shift_1: "parallel_shift x 1 = Inr (pshift 1 x)"
  using parallel_shift_eq [of x 1] by simp

lemma shuffle_eq:
  assumes "i \<le> n"
  shows "shuffle x (int i) (int n) = Inr (shuffler n i x)"
proof -
  have "parallel_shift x (int n - int i) = Inr (pshift (n - i) x)"
    using parallel_shift_eq [of x "n - i"] assms by (simp add: of_nat_diff)
  then show ?thesis
    using assms by (auto simp: shuffle_def Let_def shuffler_def parallel_shift_1)
qed

lemma shuffle_past_end: "n < i \<Longrightarrow> shuffle x i n = Inl ValueError"
  by (simp add: shuffle_def parallel_shift_def)

lemma shuffle_loop_eq:
  "i + length ms \<le> n \<Longrightarrow>
     shuffle_loop (int n) (int i) ms acc = Inr (acc XOR shuffled_sum n i ms)"
proof (induction ms arbitrary: i acc)
  case (Cons m ms)
  then show ?case
    using shuffle_eq [of "i + 1" n m] Cons.IH [of "i + 1"]
    by (simp add: xor.assoc add.commute)
qed simp

text \<open>The low and the high lane, one bit at a time.\<close>

lemma W_mod: "(x::int) mod W = take_bit 64 x"
  by (simp add: W_def take_bit_eq_mod)

lemma W_div: "(x::int) div W = drop_bit 64 x"
  by (simp add: W_def drop_bit_eq_div)

lemma lanes_or: "u64 l \<Longrightarrow> l + W * h = l OR push_bit 64 h"
  using concat_bit_eq [of 64 l h] concat_bit_def [of 64 l h]
  by (simp add: u64_take_bit push_bit_eq_mult W_def mult.commute)

lemma bit_lanes:
  "u64 l \<Longrightarrow> bit (l + W * h) j \<longleftrightarrow> (if j < 64 then bit l j else bit h (j - 64))"
proof -
  assume l: "u64 l"
  have "\<not> bit l j" if "64 \<le> j"
    using l that less_exp_iff_bits [of l 64] unfolding u64_def W_def by blast
  then show ?thesis
    by (auto simp: lanes_or [OF l] bit_or_iff bit_push_bit_iff)
qed

lemma bit_pshift:
  "bit (pshift s x) j \<longleftrightarrow>
     (if j < 64 then s \<le> j else s + 64 \<le> j \<and> j < 128) \<and> bit x (j - s)"
proof -
  have l: "u64 (push_bit s (x mod W) mod W)" by simp
  show ?thesis
    unfolding pshift_def bit_lanes [OF l]
    by (auto simp: W_mod W_div bit_simps)
qed

lemma pshift_0: "pshift s 0 = 0"
  by (simp add: pshift_def)

lemma pshift_xor: "pshift s (x XOR y) = pshift s x XOR pshift s y"
  by (rule bit_eqI) (auto simp: bit_pshift bit_xor_iff)

lemma shuffler_xor: "shuffler n i (x XOR y) = shuffler n i x XOR shuffler n i y"
  by (simp add: shuffler_def pshift_xor xor_rules)

lemma shuffler_last [simp]: "shuffler n n x = x"
  by (simp add: shuffler_def)

lemma shuffled_sum_append:
  "shuffled_sum n i (xs @ ys) = shuffled_sum n i xs XOR shuffled_sum n (i + length xs) ys"
  by (induction xs arbitrary: i) (auto simp: xor.assoc)

subsection \<open>Closed forms of the two compressors\<close>

definition oh_primary :: "int list \<Rightarrow> int \<Rightarrow> bytes list \<Rightarrow> int" where
  "oh_primary key tag block = xor_list (mix_from key tag block)"

definition checksum_mix :: "int list \<Rightarrow> bytes list \<Rightarrow> int" where
  "checksum_mix key block =
     (case checksum_from key block (0, 0) of (la, lb) \<Rightarrow>
        gfmul (la XOR key ! (length key - 2)) (lb XOR key ! (length key - 1)))"

definition oh_secondary :: "int list \<Rightarrow> int \<Rightarrow> bytes list \<Rightarrow> int" where
  "oh_secondary key tag block =
     checksum_mix key block XOR shuffled_sum (length block) 0 (mix_from key tag block)"

lemma py_get_last: "2 \<le> length xs \<Longrightarrow> py_get xs (-1) = Inr (xs ! (length xs - 1))"
  "2 \<le> length xs \<Longrightarrow> py_get xs (-2) = Inr (xs ! (length xs - 2))"
  by (auto simp: py_get_def nat_diff_distrib' Let_def)

lemma oh_mix_one_block_eq:
  assumes "\<forall>c \<in> set block. length c = 16" and "2 * length block \<le> length key"
    and "2 \<le> length key"
  shows "oh_mix_one_block key block tag secondary =
    Inr (mix_from key tag block @ (if secondary then [checksum_mix key block] else []))"
  using oh_mix_loop_eq [of block 0 key "length block" tag "[]" "(0, 0)"] assms
  by (simp add: oh_mix_one_block_def py_get_last checksum_mix_def split: prod.split)

lemma oh_compress_primary:
  assumes "\<forall>c \<in> set block. length c = 16" and "2 * length block \<le> length key"
    and "2 \<le> length key"
  shows "oh_compress_one_block key block tag False = Inr (oh_primary key tag block)"
  using oh_mix_one_block_eq [OF assms]
  by (simp add: oh_compress_one_block_def foldl_xor oh_primary_def)

lemma oh_compress_secondary:
  assumes "\<forall>c \<in> set block. length c = 16" and "2 * length block \<le> length key"
    and "2 \<le> length key"
  shows "oh_compress_one_block key block tag True = Inr (oh_secondary key tag block)"
proof -
  let ?m = "mix_from key tag block"
  have last: "py_get (?m @ [checksum_mix key block]) (-1) = Inr (checksum_mix key block)"
    by (simp add: py_get_def Let_def nth_append)
  have "shuffle_loop (int (length block)) (int 0) ?m (checksum_mix key block) =
      Inr (checksum_mix key block XOR shuffled_sum (length block) 0 ?m)"
    by (rule shuffle_loop_eq) simp
  then show ?thesis
    using oh_mix_one_block_eq [OF assms, of tag True] last
    by (simp add: oh_compress_one_block_def oh_secondary_def)
qed

end
