(* ===== verification/Mixers.thy ===== *)
theory Mixers
  imports Counting OH
begin

text \<open>
  Universality of the chunk mixers. \<open>PH\<close> is almost xor-universal and \<open>ENH\<close> is almost
  universal, each with probability \<open>2 ** -64\<close> over its two key words, and takes no value with
  probability above \<open>2 ** -63\<close>. The contracts are locales: the analysis of the block compressors
  uses only them.
\<close>

locale xor_universal =
  fixes mix :: "int \<Rightarrow> int \<Rightarrow> int \<Rightarrow> int \<Rightarrow> int"
  assumes axu: "\<lbrakk>u64 xa; u64 xb; u64 ya; u64 yb; xa \<noteq> ya \<or> xb \<noteq> yb\<rbrakk> \<Longrightarrow>
    card (pairs (\<lambda>ka kb. mix ka kb xa xb XOR mix ka kb ya yb = d)) \<le> 2 ^ 64"
begin

lemma axu_values:
  assumes "u64 xa" "u64 xb" "u64 ya" "u64 yb" "xa \<noteq> ya \<or> xb \<noteq> yb" "finite S"
  shows "card (pairs (\<lambda>ka kb. mix ka kb xa xb XOR mix ka kb ya yb \<in> S)) \<le> card S * 2 ^ 64"
  using assms by (intro card_pairs_values axu)

end

locale tagged_universal =
  fixes mix :: "int \<Rightarrow> int \<Rightarrow> int \<Rightarrow> int \<Rightarrow> int \<Rightarrow> int"
  assumes collisions: "\<lbrakk>u64 xa; u64 xb; u64 ya; u64 yb; xa \<noteq> ya \<or> xb \<noteq> yb\<rbrakk> \<Longrightarrow>
      card (pairs (\<lambda>ka kb. mix t ka kb xa xb = mix t' ka kb ya yb)) \<le> 2 ^ 64"
    and tags: "t mod (W * W) \<noteq> t' mod (W * W) \<Longrightarrow> mix t ka kb xa xb \<noteq> mix t' ka kb xa xb"
    and spread: "\<lbrakk>u64 xa; u64 xb\<rbrakk> \<Longrightarrow> card (pairs (\<lambda>ka kb. mix t ka kb xa xb = v)) \<le> 2 ^ 65"

subsection \<open>\<open>PH\<close>\<close>

text \<open>The difference of two mixed chunks is affine in the key.\<close>

lemma ph_difference:
  "ph ka kb xa xb XOR ph ka kb ya yb =
     gfmul (xa XOR ya) kb XOR (gfmul ka (xb XOR yb) XOR (gfmul xa xb XOR gfmul ya yb))"
  by (simp add: ph_def gfmul_linear xor_rules)

interpretation ph: xor_universal ph
proof
  fix xa xb ya yb d
  assume u: "u64 xa" "u64 xb" "u64 ya" "u64 yb" and diff: "xa \<noteq> ya \<or> xb \<noteq> yb"
  show "card (pairs (\<lambda>ka kb. ph ka kb xa xb XOR ph ka kb ya yb = d)) \<le> 2 ^ 64"
  proof (cases "xa = ya")
    case True
    then have ne: "xb XOR yb \<noteq> 0"
      using diff by simp
    have "a = a'" if h: "u64 a" "u64 a'" "u64 b" "ph a b xa xb XOR ph a b ya yb = d"
      "ph a' b xa xb XOR ph a' b ya yb = d" for a a' b
    proof -
      have "gfmul a (xb XOR yb) = gfmul a' (xb XOR yb)"
        using h(4) unfolding h(5) [symmetric] ph_difference True by simp
      then show ?thesis
        using gfmul_inj_right [of "xb XOR yb" a a'] ne u h(1,2) gfmul_commute [of _ "xb XOR yb"]
        by (simp add: u64_xor)
    qed
    then show ?thesis by (rule card_pairs_partner')
  next
    case False
    then have ne: "xa XOR ya \<noteq> 0" by simp
    have "b = b'" if h: "u64 a" "u64 b" "u64 b'" "ph a b xa xb XOR ph a b ya yb = d"
      "ph a b' xa xb XOR ph a b' ya yb = d" for a b b'
    proof -
      have "gfmul (xa XOR ya) b = gfmul (xa XOR ya) b'"
        using h(4) unfolding h(5) [symmetric] ph_difference by simp
      then show ?thesis
        using gfmul_inj_right [of "xa XOR ya" b b'] ne u h(2,3) by (simp add: u64_xor)
    qed
    then show ?thesis by (rule card_pairs_partner)
  qed
qed

subsection \<open>\<open>NH\<close> and \<open>ENH\<close>\<close>

text \<open>
  One coordinate of \<open>NH\<close>: with distinct first factors \<open>A\<close> and \<open>B\<close>, the second factors \<open>u\<close> and
  \<open>u + s\<close> (reduced) give each difference at most once.
\<close>

lemma wrapped_sum:
  assumes "u64 x" "u64 s"
  shows "(x + s) mod W = x + s - (if x + s < W then 0 else W)"
proof (cases "x + s < W")
  case False
  then have "(x + s - W) mod W = x + s - W"
    using assms by (intro mod_pos_pos_trivial) (auto simp: u64_def)
  then show ?thesis using False by simp
qed (use assms in \<open>simp add: u64_def mod_pos_pos_trivial\<close>)

text \<open>Neither the product of two differences nor its sum with a multiple of \<open>W\<close> reaches \<open>W * W\<close>.\<close>

lemma small_products:
  assumes AB: "0 \<le> A" "A < W" "0 \<le> B" "B < W" "A \<noteq> B" and d: "0 < d" "d < W"
  shows "\<not> W * W dvd (A - B) * d" and "\<not> W * W dvd (A - B) * d + B * W"
proof -
  have "\<bar>A - B\<bar> * \<bar>d\<bar> < W * W"
    using AB d by (intro mult_strict_mono') auto
  then have "\<bar>(A - B) * d\<bar> < W * W"
    by (simp only: abs_mult)
  moreover have "(A - B) * d \<noteq> 0"
    using AB(5) d(1) by simp
  ultimately show "\<not> W * W dvd (A - B) * d"
    using zdvd_not_zless [of "\<bar>(A - B) * d\<bar>" "W * W"] by auto
  have "0 < (A - B) * d + B * W \<and> (A - B) * d + B * W < W * W"
  proof (cases "A < B")
    case True
    have "(B - A) * d < B * W"
      using True AB d by (intro mult_le_less_imp_less) auto
    then have "0 < (A - B) * d + B * W"
      by (simp add: algebra_simps)
    moreover have "(A - B) * d < 0"
      using True d by (simp add: mult_neg_pos)
    moreover have "B * W \<le> W * W"
      using AB by (intro mult_right_mono) auto
    ultimately show ?thesis
      by linarith
  next
    case False
    then have "0 < (A - B) * d" "(A - B) * d \<le> (A - B) * W"
      using AB d by (simp_all add: mult_left_mono)
    moreover have "(A - B) * W + B * W < W * W"
      using mult_strict_right_mono [OF AB(2) W_pos(1)] by (simp add: algebra_simps)
    moreover have "0 \<le> B * W"
      using AB(3) by (simp add: W_def)
    ultimately show ?thesis
      by linarith
  qed
  then show "\<not> W * W dvd (A - B) * d + B * W"
    using zdvd_not_zless by blast
qed

lemma wrapped_products:
  assumes AB: "0 \<le> A" "A < W" "0 \<le> B" "B < W" "A \<noteq> B"
    and u: "u64 u" "u64 v" and s: "u64 s"
    and eq: "(A * u - B * ((u + s) mod W)) mod (W * W) = (A * v - B * ((v + s) mod W)) mod (W * W)"
  shows "u = v"
proof -
  let ?k = "\<lambda>x. if x + s < W then 0 else (1::int)"
  let ?t = "\<lambda>x y. (A - B) * (x - y) + (?k x - ?k y) * (B * W)"
  have "W * W dvd (A * u - B * ((u + s) mod W)) - (A * v - B * ((v + s) mod W))"
    using eq by (simp only: mod_eq_dvd_iff)
  also have "(A * u - B * ((u + s) mod W)) - (A * v - B * ((v + s) mod W)) = ?t u v"
    unfolding wrapped_sum [OF u(1) s] wrapped_sum [OF u(2) s] by (simp add: algebra_simps)
  finally have uv: "W * W dvd ?t u v" .
  then have vu: "W * W dvd ?t v u"
    using dvd_minus_iff [of "W * W" "?t u v"] by (simp add: algebra_simps)
  have le: "x \<le> y" if x: "u64 x" "u64 y" and d: "W * W dvd ?t x y" for x y
  proof (rule ccontr)
    assume "\<not> x \<le> y"
    then have xy: "0 < x - y" "x - y < W" "?k x - ?k y = 0 \<or> ?k x - ?k y = 1"
      using x by (auto simp: u64_def)
    show False
      using d xy(3) small_products [OF AB xy(1,2)] by (elim disjE) simp_all
  qed
  show ?thesis
    using le [OF u uv] le [OF u(2,1) vu] by simp
qed

lemma nh_commute: "nh ka kb xa xb = nh kb ka xb xa"
  by (simp add: nh_def mult.commute)

lemma shifted_words_inj:
  assumes "u64 a" "u64 b" "(x + a) mod W = (x + b) mod W"
  shows "a = b"
proof -
  have "(x + a - x) mod W = (x + b - x) mod W"
    using assms(3) by (rule mod_diff_cong) simp
  then show ?thesis
    using assms(1,2) by (simp add: u64_mod_id)
qed

lemma nh_difference_partner:
  assumes u: "u64 xa" "u64 ya" "xa \<noteq> ya" "u64 k" "u64 b" "u64 b'"
    and eq: "(nh k b xa xb - nh k b ya yb) mod (W * W) = (nh k b' xa xb - nh k b' ya yb) mod (W * W)"
  shows "b = b'"
proof -
  let ?A = "(xa + k) mod W" and ?B = "(ya + k) mod W" and ?s = "(yb - xb) mod W"
  have "?A \<noteq> ?B"
    using shifted_words_inj [of xa ya k] u(1-3) by (auto simp: add.commute)
  have shift: "(yb + b) mod W = ((xb + b) mod W + ?s) mod W" for b
    by (simp add: mod_simps add.commute)
  have "(?A * ((xb + b) mod W) - ?B * (((xb + b) mod W + ?s) mod W)) mod (W * W) =
      (?A * ((xb + b') mod W) - ?B * (((xb + b') mod W + ?s) mod W)) mod (W * W)"
    using eq unfolding nh_def shift .
  then have "(xb + b) mod W = (xb + b') mod W"
    by (rule wrapped_products [rotated -1])
      (use \<open>?A \<noteq> ?B\<close> in \<open>simp_all only: u64_mod pos_mod_sign pos_mod_bound W_pos not_False_eq_True\<close>)
  then show ?thesis
    by (rule shifted_words_inj [OF u(5,6)])
qed

lemma nh_differences:
  assumes u: "u64 xa" "u64 xb" "u64 ya" "u64 yb" and diff: "xa \<noteq> ya \<or> xb \<noteq> yb"
  shows "card (pairs (\<lambda>ka kb. (nh ka kb xa xb - nh ka kb ya yb) mod (W * W) = d)) \<le> 2 ^ 64"
proof (cases "xa = ya")
  case False
  then show ?thesis
    using nh_difference_partner [OF u(1,3)] by (intro card_pairs_partner) metis
next
  case True
  then have "xb \<noteq> yb" using diff by simp
  then show ?thesis
    using nh_difference_partner [OF u(2,4), of _ _ _ xa ya] nh_commute
    by (intro card_pairs_partner') metis
qed

lemma nh_values:
  assumes u: "u64 xa" "u64 xb"
  shows "card (pairs (\<lambda>ka kb. nh ka kb xa xb = c)) \<le> 2 ^ 65"
proof -
  let ?z = "\<lambda>ka. (xa + ka) mod W = 0"
  have zero: "card (pairs (\<lambda>ka kb. ?z ka)) \<le> 2 ^ 64"
    using shifted_words_inj [of _ _ xa] by (intro card_pairs_partner') metis
  have "b = b'" if h: "u64 b" "u64 b'" "nh a b xa xb = c \<and> \<not> ?z a" "nh a b' xa xb = c \<and> \<not> ?z a"
    for a b b'
  proof -
    have "(xb + b) mod W = (xb + b') mod W"
      using h(3,4) by (auto simp: nh_def)
    then show ?thesis
      using shifted_words_inj h(1,2) by blast
  qed
  then have nonzero: "card (pairs (\<lambda>ka kb. nh ka kb xa xb = c \<and> \<not> ?z ka)) \<le> 2 ^ 64"
    by (intro card_pairs_partner) blast
  have "pairs (\<lambda>ka kb. nh ka kb xa xb = c) \<subseteq>
      pairs (\<lambda>ka kb. ?z ka) \<union> pairs (\<lambda>ka kb. nh ka kb xa xb = c \<and> \<not> ?z ka)"
    by (auto simp: pairs_def)
  then have "card (pairs (\<lambda>ka kb. nh ka kb xa xb = c)) \<le>
      card (pairs (\<lambda>ka kb. ?z ka) \<union> pairs (\<lambda>ka kb. nh ka kb xa xb = c \<and> \<not> ?z ka))"
    by (intro card_mono) simp_all
  also have "\<dots> \<le> card (pairs (\<lambda>ka kb. ?z ka)) + card (pairs (\<lambda>ka kb. nh ka kb xa xb = c \<and> \<not> ?z ka))"
    by (rule card_Un_le)
  finally show ?thesis
    using zero nonzero by simp
qed

text \<open>Folding the low word into the high one is its own inverse.\<close>

lemma fold_low_low: "fold_low e mod W = e mod W"
proof -
  have "(e mod W) * W = push_bit 64 (e mod W)"
    by (simp add: push_bit_eq_mult W_def)
  then show ?thesis
    unfolding fold_low_def by (simp only: W_mod) (rule bit_eqI, auto simp: bit_simps)
qed

lemma fold_low_twice: "fold_low (fold_low e) = e"
proof -
  have "fold_low (fold_low e) = fold_low e XOR (fold_low e mod W) * W"
    by (rule fold_low_def)
  also have "\<dots> = e"
    unfolding fold_low_low by (simp add: fold_low_def xor.assoc)
  finally show ?thesis .
qed

lemma fold_low_eq_iff [simp]: "fold_low e = fold_low f \<longleftrightarrow> e = f"
  by (metis fold_low_twice)

lemma mod_shift_eq: "(a + t) mod m = (b + t') mod m \<longleftrightarrow> (a - b) mod m = (t' - t) mod (m::int)"
  by (simp add: mod_eq_dvd_iff algebra_simps)

lemma enh_eq_iff: "enh t ka kb xa xb = enh t' ka kb ya yb \<longleftrightarrow>
    (nh ka kb xa xb - nh ka kb ya yb) mod (W * W) = (t' - t) mod (W * W)"
  unfolding enh_def fold_low_eq_iff by (rule mod_shift_eq)

lemma nh_range: "0 \<le> nh ka kb xa xb" "nh ka kb xa xb < W * W"
  unfolding nh_def by (simp, intro mult_strict_mono') (simp_all add: pos_mod_bound)

interpretation enh: tagged_universal enh
proof
  fix xa xb ya yb t t'
  assume "u64 xa" "u64 xb" "u64 ya" "u64 yb" "xa \<noteq> ya \<or> xb \<noteq> yb"
  then show "card (pairs (\<lambda>ka kb. enh t ka kb xa xb = enh t' ka kb ya yb)) \<le> 2 ^ 64"
    unfolding enh_eq_iff by (rule nh_differences)
next
  fix t t' ka kb xa xb
  assume "t mod (W * W) \<noteq> t' mod (W * W)"
  then show "enh t ka kb xa xb \<noteq> enh t' ka kb xa xb"
    unfolding enh_eq_iff by (simp add: mod_eq_dvd_iff dvd_diff_commute dvd_eq_mod_eq_0 [symmetric])
next
  fix xa xb t v assume u: "u64 xa" "u64 xb"
  let ?c = "(fold_low v - t) mod (W * W)"
  have "nh ka kb xa xb = ?c" if "enh t ka kb xa xb = v" for ka kb
  proof -
    have "fold_low v = (nh ka kb xa xb + t) mod (W * W)"
      using that by (auto simp: enh_def fold_low_twice)
    then have "?c = nh ka kb xa xb mod (W * W)"
      by (simp add: mod_simps)
    then show ?thesis
      using nh_range by simp
  qed
  then have "card (pairs (\<lambda>ka kb. enh t ka kb xa xb = v)) \<le> card (pairs (\<lambda>ka kb. nh ka kb xa xb = ?c))"
    by (intro card_pairs_mono)
  then show "card (pairs (\<lambda>ka kb. enh t ka kb xa xb = v)) \<le> 2 ^ 65"
    using nh_values [OF u] le_trans by blast
qed

end
