(* ===== verification/Shufflers.thy ===== *)
theory Shufflers
  imports Mixers
begin

text \<open>
  The public shufflers of the secondary compressor (\<open>shuffle\<close>, \<open>umash_reference.py\<close>): linear
  maps on 128 bits that act on the two 64-bit lanes. A shuffler is invertible up to the top
  bit of each lane, stays invertible when the identity is added, and two distinct shufflers
  have a difference whose null space holds at most \<open>2 ** 29\<close> of the values \<open>PH\<close> can take.
\<close>

subsection \<open>Bits of a lane\<close>

lemma bit_lane_pshift:
  "\<lbrakk>c < 2; l < 64\<rbrakk> \<Longrightarrow> bit (pshift s x) (64 * c + l) \<longleftrightarrow> s \<le> l \<and> bit x (64 * c + l - s)"
  by (cases "c = 0") (auto simp: bit_pshift)

text \<open>A set bit that always needs a lower one in its lane is not there.\<close>

lemma lane_prefix_zero:
  assumes "\<And>l. \<lbrakk>l < m; bit x (64 * c + l)\<rbrakk> \<Longrightarrow> \<exists>l' < l. bit x (64 * c + l')" and "l < m"
  shows "\<not> bit x (64 * c + l)"
  using assms(2)
proof (induction l rule: less_induct)
  case (less l)
  show ?case
  proof
    assume "bit x (64 * c + l)"
    then obtain l' where "l' < l" "bit x (64 * c + l')"
      using assms(1) less.prems by blast
    then show False
      using less.IH [of l'] less.prems by simp
  qed
qed

text \<open>Values whose bits are confined to the top \<open>r\<close> bits of each lane, within 127 bits.\<close>

definition top_lanes :: "nat \<Rightarrow> int set" where
  "top_lanes r = {x. 0 \<le> x \<and> x < 2 ^ 127 \<and> (\<forall>c < 2. \<forall>l < 64 - r. \<not> bit x (64 * c + l))}"

lemma finite_top_lanes [simp]: "finite (top_lanes r)"
  by (rule finite_subset [of _ "{0..<2 ^ 127}"]) (auto simp: top_lanes_def)

lemma div_less_of_less_mult: "\<lbrakk>x < a * d; 0 < d\<rbrakk> \<Longrightarrow> x div d < (a::int)"
proof (rule ccontr)
  assume d: "x < a * d" "0 < d" and "\<not> x div d < a"
  then have "a * d \<le> x div d * d" by simp
  also have "\<dots> \<le> x"
    using d(2) div_mult_mod_eq [of x d] pos_mod_sign [of d x] by linarith
  finally show False using d(1) by simp
qed

lemma top_lanesD: "\<lbrakk>x \<in> top_lanes r; c < 2; l < 64 - r\<rbrakk> \<Longrightarrow> \<not> bit x (64 * c + l)"
  by (simp add: top_lanes_def)

lemma card_top_lanes:
  assumes "1 \<le> r" "r \<le> 64"
  shows "card (top_lanes r) \<le> 2 ^ (2 * r - 1)"
proof -
  let ?f = "\<lambda>x. (drop_bit (64 - r) (take_bit 64 x), drop_bit (128 - r) x)"
  let ?R = "{0..<2 ^ r} \<times> {0..<2 ^ (r - 1)} :: (int \<times> int) set"
  have "inj_on ?f (top_lanes r)"
  proof (rule inj_onI)
    fix x y assume xy: "x \<in> top_lanes r" "y \<in> top_lanes r" and eq: "?f x = ?f y"
    show "x = y"
    proof (rule bit_eqI)
      fix j
      consider "j < 64 - r" | "64 - r \<le> j" "j < 64" | "64 \<le> j" "j < 128 - r" | "128 - r \<le> j" by linarith
      then show "bit x j \<longleftrightarrow> bit y j"
      proof cases
        case 1
        then show ?thesis
          using top_lanesD [OF xy(1), of 0 j] top_lanesD [OF xy(2), of 0 j] by simp
      next
        case 2
        have "bit (drop_bit (64 - r) (take_bit 64 x)) (j - (64 - r)) \<longleftrightarrow>
            bit (drop_bit (64 - r) (take_bit 64 y)) (j - (64 - r))"
          using eq by simp
        then show ?thesis
          using 2 by (simp add: bit_simps)
      next
        case 3
        then show ?thesis
          using top_lanesD [OF xy(1), of 1 "j - 64"] top_lanesD [OF xy(2), of 1 "j - 64"] by simp
      next
        case 4
        have "bit (drop_bit (128 - r) x) (j - (128 - r)) \<longleftrightarrow> bit (drop_bit (128 - r) y) (j - (128 - r))"
          using eq by simp
        then show ?thesis
          using 4 by (simp add: bit_simps)
      qed
    qed
  qed
  moreover have "?f ` top_lanes r \<subseteq> ?R"
  proof -
    have "drop_bit (64 - r) (take_bit 64 x) < 2 ^ r" for x :: int
    proof -
      have "take_bit 64 x < 2 ^ r * 2 ^ (64 - r)"
        using assms take_bit_int_less_exp [of 64 x] by (simp flip: power_add)
      then show ?thesis
        unfolding drop_bit_eq_div by (rule div_less_of_less_mult) simp
    qed
    moreover have "drop_bit (128 - r) x < 2 ^ (r - 1)" if "x < 2 ^ 127" for x :: int
    proof -
      have "(2::int) ^ 127 = 2 ^ (r - 1) * 2 ^ (128 - r)"
        using assms by (simp flip: power_add)
      then show ?thesis
        using that unfolding drop_bit_eq_div by (intro div_less_of_less_mult) simp_all
    qed
    ultimately show ?thesis
      by (auto simp: top_lanes_def drop_bit_nonnegative_int_iff)
  qed
  ultimately have "card (top_lanes r) \<le> card ?R"
    by (rule card_inj_on_le) simp
  also have "\<dots> = 2 ^ (2 * r - 1)"
    using assms by (simp add: card_cartesian_product nat_power_eq flip: power_add mult_2)
  finally show ?thesis .
qed

subsection \<open>Null spaces\<close>

lemma shift_sum_null:
  assumes "pshift a x XOR pshift b x = 0 \<or> pshift b x = 0" "b < a" "c < 2" "l < 64 - b"
  shows "\<not> bit x (64 * c + l)"
proof (rule lane_prefix_zero [of "64 - b"])
  fix l assume l: "l < 64 - b" "bit x (64 * c + l)"
  then have "bit (pshift b x) (64 * c + (l + b))"
    using assms(3) by (simp add: bit_lane_pshift)
  then have eq: "pshift a x = pshift b x" and "bit (pshift a x) (64 * c + (l + b))"
    using assms(1) by auto
  then have "a \<le> l + b" "bit x (64 * c + (l + b - a))"
    using assms(3) l(1) bit_lane_pshift [of c "l + b" a x] by auto
  then show "\<exists>l' < l. bit x (64 * c + l')"
    using assms(2) by (intro exI [of _ "l + b - a"]) auto
qed (use assms in simp)

lemma in_top_lanes:
  assumes "0 \<le> x" "x < 2 ^ 127" "pshift a x XOR pshift b x = 0 \<or> pshift b x = 0" "b < a" "b \<le> r"
  shows "x \<in> top_lanes r"
  unfolding top_lanes_def
proof (intro CollectI conjI allI impI)
  fix c l :: nat assume "c < 2" "l < 64 - r"
  then show "\<not> bit x (64 * c + l)"
    using shift_sum_null [OF assms(3,4)] assms(5) by simp
qed (use assms in auto)

lemma shuffler_null:
  assumes "i < n" "shuffler n i x = 0" "0 \<le> x" "x < 2 ^ 127"
  shows "x \<in> top_lanes 1"
proof (cases "i + 1 = n")
  case True
  then show ?thesis
    using assms in_top_lanes [of x 2 1 1] by (simp add: shuffler_def)
next
  case False
  then show ?thesis
    using assms in_top_lanes [of x "n - i" 1 1] by (simp add: shuffler_def)
qed

lemma shuffler_plus_identity:
  assumes "i < n" "x XOR shuffler n i x = 0" "0 \<le> x" "x < 2 ^ 128"
  shows "x = 0"
proof -
  have "\<not> bit x (64 * c + l)" if cl: "c < 2" "l < 64" for c l
  proof (rule lane_prefix_zero [of 64])
    fix l assume l: "l < 64" "bit x (64 * c + l)"
    then have b: "bit (shuffler n i x) (64 * c + l)"
      using assms(2) by simp
    then have "bit (pshift 1 x) (64 * c + l) \<or> i + 1 \<noteq> n \<and> bit (pshift (n - i) x) (64 * c + l)"
      using assms(1) by (auto simp: shuffler_def bit_xor_iff split: if_splits)
    then show "\<exists>l' < l. bit x (64 * c + l')"
    proof
      assume "bit (pshift 1 x) (64 * c + l)"
      then show ?thesis
        using cl l by (intro exI [of _ "l - 1"]) (simp add: bit_lane_pshift)
    next
      assume "i + 1 \<noteq> n \<and> bit (pshift (n - i) x) (64 * c + l)"
      then have "n - i \<le> l" "bit x (64 * c + l - (n - i))"
        using cl l bit_lane_pshift [of c l "n - i" x] by simp_all
      then have "bit x (64 * c + (l - (n - i)))" "l - (n - i) < l"
        using assms(1) by (simp_all only: diff_add_assoc)
      then show ?thesis by blast
    qed
  qed (use cl in simp)
  then have "\<not> bit x j" if "j < 128" for j
    using that by (cases "j < 64") (metis mult_0_right add_0 zero_less_numeral, drule meta_spec2 [of _ 1 "j - 64"], simp)
  moreover have "\<not> bit x j" if "128 \<le> j" for j
    using assms(3,4) that less_exp_iff_bits [of x 128] by blast
  ultimately show ?thesis
    by (intro bit_eqI) (metis bit_0_eq bot_apply bot_bool_def linorder_not_less)
qed

lemma shuffler_difference_null:
  assumes "1 \<le> i" "i < j" "j < n" "n \<le> 16"
    and "shuffler n i x XOR shuffler n j x = 0" "0 \<le> x" "x < 2 ^ 127"
  shows "x \<in> top_lanes 15"
proof (cases "j + 1 = n")
  case True
  then have "pshift (n - i) x = 0"
    using assms by (auto simp: shuffler_def xor.assoc split: if_splits)
  then show ?thesis
    using assms in_top_lanes [of x 16 "n - i" 15] by simp
next
  case False
  then have "pshift (n - i) x XOR pshift (n - j) x = 0"
    using assms by (auto simp: shuffler_def xor_rules split: if_splits)
  then show ?thesis
    using assms in_top_lanes [of x "n - i" "n - j" 15] by simp
qed

text \<open>A linear map takes each value at most as often as it takes zero.\<close>

definition ph_range :: "int set" where
  "ph_range = {x. 0 \<le> x \<and> x < 2 ^ 127}"

lemma finite_ph_range [simp]: "finite ph_range"
  by (rule finite_subset [of _ "{0..<2 ^ 127}"]) (auto simp: ph_range_def)

lemma ph_range_xor: "x \<in> ph_range \<Longrightarrow> y \<in> ph_range \<Longrightarrow> x XOR y \<in> ph_range"
  unfolding ph_range_def by (blast intro: range_rules)

lemma linear_preimage:
  assumes lin: "\<And>x y. f (x XOR y) = f x XOR f y"
  shows "card {x \<in> ph_range. f x = v} \<le> card {x \<in> ph_range. f x = (0::int)}"
proof (cases "{x \<in> ph_range. f x = v} = {}")
  case False
  then obtain x0 where x0: "x0 \<in> ph_range" "f x0 = v" by blast
  have "inj_on (\<lambda>x. x XOR x0) {x \<in> ph_range. f x = v}"
    by (rule inj_onI) simp
  moreover have "(\<lambda>x. x XOR x0) ` {x \<in> ph_range. f x = v} \<subseteq> {x \<in> ph_range. f x = 0}"
    using x0 by (auto simp: lin ph_range_xor)
  ultimately show ?thesis
    by (rule card_inj_on_le) simp
qed (simp only: card.empty)

lemma card_shuffler_preimage:
  assumes "i < n"
  shows "card {x \<in> ph_range. shuffler n i x = v} \<le> 2"
proof -
  have "{x \<in> ph_range. shuffler n i x = 0} \<subseteq> top_lanes 1"
    using shuffler_null [OF assms] by (auto simp: ph_range_def)
  then have "card {x \<in> ph_range. shuffler n i x = 0} \<le> card (top_lanes 1)"
    by (rule card_mono [rotated]) simp
  then show ?thesis
    using linear_preimage [of "shuffler n i" v] card_top_lanes [of 1] shuffler_xor by force
qed

lemma card_shuffler_difference_preimage:
  assumes "1 \<le> i" "i < j" "j < n" "n \<le> 16"
  shows "card {x \<in> ph_range. shuffler n i x XOR shuffler n j x = v} \<le> 2 ^ 29"
proof -
  have "{x \<in> ph_range. shuffler n i x XOR shuffler n j x = 0} \<subseteq> top_lanes 15"
    using shuffler_difference_null [OF assms] by (auto simp: ph_range_def)
  then have "card {x \<in> ph_range. shuffler n i x XOR shuffler n j x = 0} \<le> card (top_lanes 15)"
    by (rule card_mono [rotated]) simp
  moreover have "shuffler n i (x XOR y) XOR shuffler n j (x XOR y) =
      (shuffler n i x XOR shuffler n j x) XOR (shuffler n i y XOR shuffler n j y)" for x y
    by (simp add: shuffler_xor xor_rules)
  ultimately show ?thesis
    using linear_preimage [of "\<lambda>x. shuffler n i x XOR shuffler n j x" v] card_top_lanes [of 15] by force
qed

end
