(* ===== verification/Collisions.thy ===== *)
theory Collisions
  imports Shufflers
begin

text \<open>
  Collisions of the block compressors over random keys. Both compressors are sums over chunk
  positions, each of which depends on its own pair of key words, so that the contracts of the
  mixers give bounds by isolating one or two positions. The primary compressor collides on two
  different blocks for at most a \<open>2 ** -63\<close> fraction of the keys, so does the secondary one, and
  both collide at once for at most a \<open>2 ** -99\<close> fraction.
\<close>

subsection \<open>Exclusive or over positions\<close>

fun xor_upto :: "nat \<Rightarrow> (nat \<Rightarrow> int) \<Rightarrow> int" where
  "xor_upto 0 f = 0"
| "xor_upto (Suc n) f = xor_upto n f XOR f n"

lemma xor_upto_cong: "(\<And>p. p < n \<Longrightarrow> f p = g p) \<Longrightarrow> xor_upto n f = xor_upto n g"
  by (induction n) simp_all

lemma xor_upto_zero [simp]: "xor_upto n (\<lambda>p. 0) = 0"
  by (induction n) simp_all

lemma xor_upto_xor: "xor_upto n (\<lambda>p. f p XOR g p) = xor_upto n f XOR xor_upto n g"
  by (induction n) (simp_all add: xor_rules)

lemma xor_upto_split: "p < n \<Longrightarrow> xor_upto n f = f p XOR xor_upto n (f(p := 0))"
proof (induction n)
  case (Suc n)
  show ?case
  proof (cases "p = n")
    case True
    then have "xor_upto n (f(p := 0)) = xor_upto n f"
      by (intro xor_upto_cong) simp
    then show ?thesis
      unfolding xor_upto.simps by (simp add: True xor.commute del: fun_upd_apply) simp
  next
    case False
    then show ?thesis
      using Suc by (simp add: xor.assoc)
  qed
qed simp

lemma xor_upto_single: "\<lbrakk>p < n; \<And>k. \<lbrakk>k < n; k \<noteq> p\<rbrakk> \<Longrightarrow> f k = 0\<rbrakk> \<Longrightarrow> xor_upto n f = f p"
  using xor_upto_split [of p n f] xor_upto_cong [of n "f(p := 0)" "\<lambda>k. 0"] by simp

lemma xor_upto_double:
  assumes "i < n" "j < n" "i \<noteq> j"
  shows "xor_upto n f = f i XOR f j XOR xor_upto n (f(i := 0, j := 0))"
  using xor_upto_split [OF assms(1), of f] xor_upto_split [OF assms(2), of "f(i := 0)"] assms(3)
  by (simp add: xor.assoc)

lemma xor_list_positions: "xor_list (map f [0..<n]) = xor_upto n f"
  by (induction n) simp_all

lemma shuffled_sum_positions:
  "shuffled_sum n 0 (map f [0..<k]) = xor_upto k (\<lambda>p. shuffler n (p + 1) (f p))"
  by (induction k) (simp_all add: shuffled_sum_append)

subsection \<open>The compressors, position by position\<close>

definition mixed_at :: "int list \<Rightarrow> int \<Rightarrow> bytes list \<Rightarrow> nat \<Rightarrow> int" where
  "mixed_at ks t block p =
     (if p + 1 = length block
      then enh t (ks ! (2 * p)) (ks ! (2 * p + 1)) (lo_word (block ! p)) (hi_word (block ! p))
      else ph (ks ! (2 * p)) (ks ! (2 * p + 1)) (lo_word (block ! p)) (hi_word (block ! p)))"

definition check_lo :: "int list \<Rightarrow> bytes list \<Rightarrow> int" where
  "check_lo ks block = xor_upto (length block) (\<lambda>p. ks ! (2 * p) XOR lo_word (block ! p))"

definition check_hi :: "int list \<Rightarrow> bytes list \<Rightarrow> int" where
  "check_hi ks block = xor_upto (length block) (\<lambda>p. ks ! (2 * p + 1) XOR hi_word (block ! p))"

lemma mix_from_positions:
  "2 * length block \<le> length ks \<Longrightarrow> mix_from ks t block = map (mixed_at ks t block) [0..<length block]"
proof (induction ks t block rule: mix_from.induct)
  case (3 ks t c d cs)
  have "mix_from ks t (c # d # cs) =
      ph (ks ! 0) (ks ! 1) (lo_word c) (hi_word c) # map (mixed_at (drop 2 ks) t (d # cs)) [0..<length (d # cs)]"
    using 3 by simp
  also have "map (mixed_at (drop 2 ks) t (d # cs)) [0..<length (d # cs)] =
      map (mixed_at ks t (c # d # cs)) [Suc 0..<Suc (length (d # cs))]"
    using 3(2) by (simp only: map_Suc_upt [symmetric] map_map)
      (auto simp: mixed_at_def simp del: upt_Suc)
  finally show ?case
    by (simp add: mixed_at_def upt_conv_Cons del: upt_Suc)
qed (simp_all add: mixed_at_def)

lemma checksum_positions:
  "2 * length block \<le> length ks \<Longrightarrow>
     checksum_from ks block l = (fst l XOR check_lo ks block, snd l XOR check_hi ks block)"
proof (induction ks block l rule: checksum_from.induct)
  case (2 ks c cs l)
  have shift: "xor_upto (Suc n) f = f 0 XOR xor_upto n (\<lambda>p. f (Suc p))" for n and f :: "nat \<Rightarrow> int"
    by (induction n) (simp_all add: xor.assoc)
  have "check_lo ks (c # cs) = (ks ! 0 XOR lo_word c) XOR check_lo (drop 2 ks) cs"
    "check_hi ks (c # cs) = (ks ! 1 XOR hi_word c) XOR check_hi (drop 2 ks) cs"
    using 2(2) unfolding check_lo_def check_hi_def length_Cons shift by simp_all
  then show ?case
    using 2 by (simp add: xor_rules)
qed (simp add: check_lo_def check_hi_def)

definition primary_at :: "int list \<Rightarrow> int \<Rightarrow> bytes list \<Rightarrow> int" where
  "primary_at ks t block = xor_upto (length block) (mixed_at ks t block)"

definition shuffled_at :: "int list \<Rightarrow> int \<Rightarrow> bytes list \<Rightarrow> int" where
  "shuffled_at ks t block =
     xor_upto (length block) (\<lambda>p. shuffler (length block) (p + 1) (mixed_at ks t block p))"

definition secondary_at :: "int list \<Rightarrow> int \<Rightarrow> bytes list \<Rightarrow> int" where
  "secondary_at ks t block =
     ph (ks ! (2 * 16)) (ks ! (2 * 16 + 1)) (check_lo ks block) (check_hi ks block) XOR shuffled_at ks t block"

text \<open>The blocks that the chunking produces.\<close>

definition block_ok :: "bytes list \<Rightarrow> bool" where
  "block_ok block \<longleftrightarrow> block \<noteq> [] \<and> length block \<le> 16 \<and> (\<forall>c \<in> set block. length c = 16)"

lemma oh_primary_at: "\<lbrakk>ks \<in> keys 34; block_ok block\<rbrakk> \<Longrightarrow> oh_primary ks t block = primary_at ks t block"
  by (simp add: oh_primary_def primary_at_def mix_from_positions xor_list_positions keys_def block_ok_def)

lemma oh_secondary_at: "\<lbrakk>ks \<in> keys 34; block_ok block\<rbrakk> \<Longrightarrow> oh_secondary ks t block = secondary_at ks t block"
  by (simp add: oh_secondary_def secondary_at_def shuffled_at_def mix_from_positions
      shuffled_sum_positions checksum_mix_def checksum_positions ph_def keys_def block_ok_def)

lemma chunk_words:
  assumes "length c = 16" "length d = 16"
  shows "u64 (lo_word c)" "u64 (hi_word c)"
    and "lo_word c = lo_word d \<and> hi_word c = hi_word d \<longleftrightarrow> c = d"
proof -
  show "u64 (lo_word c)" "u64 (hi_word c)"
    using assms by (simp_all add: lo_word_def hi_word_def u64_le_int)
  have "take 8 c = take 8 d \<and> drop 8 c = drop 8 d \<longleftrightarrow> c = d"
    by (metis append_take_drop_id)
  then show "lo_word c = lo_word d \<and> hi_word c = hi_word d \<longleftrightarrow> c = d"
    using assms le_int_inj [of "take 8 c" "take 8 d"] le_int_inj [of "drop 8 c" "drop 8 d"]
    by (auto simp: lo_word_def hi_word_def)
qed

subsection \<open>Which key words a position depends on\<close>

lemma mixed_at_ignores [simp]: "p \<noteq> q \<Longrightarrow> mixed_at (set_pair q a b ks) t block p = mixed_at ks t block p"
  by (simp add: mixed_at_def set_pair_nth set_pair_nth_Suc)

lemma mixed_at_own:
  "2 * p + 1 < length ks \<Longrightarrow> mixed_at (set_pair p a b ks) t block p =
     (if p + 1 = length block then enh t a b (lo_word (block ! p)) (hi_word (block ! p))
      else ph a b (lo_word (block ! p)) (hi_word (block ! p)))"
  by (simp add: mixed_at_def set_pair_nth set_pair_nth_Suc)

lemma primary_at_ignores: "length block \<le> q \<Longrightarrow> primary_at (set_pair q a b ks) t block = primary_at ks t block"
  unfolding primary_at_def by (intro xor_upto_cong) simp

lemma shuffled_at_ignores: "length block \<le> q \<Longrightarrow> shuffled_at (set_pair q a b ks) t block = shuffled_at ks t block"
  unfolding shuffled_at_def by (intro xor_upto_cong) simp

lemma check_ignores:
  "length block \<le> q \<Longrightarrow> check_lo (set_pair q a b ks) block = check_lo ks block"
  "length block \<le> q \<Longrightarrow> check_hi (set_pair q a b ks) block = check_hi ks block"
  unfolding check_lo_def check_hi_def by (intro xor_upto_cong; simp add: set_pair_nth set_pair_nth_Suc)+

subsection \<open>Blocks of the same size\<close>

definition delta :: "int \<Rightarrow> int \<Rightarrow> bytes list \<Rightarrow> bytes list \<Rightarrow> int list \<Rightarrow> nat \<Rightarrow> int" where
  "delta t t' x y ks p = mixed_at ks t x p XOR mixed_at ks t' y p"

text \<open>Two valid blocks with the same number of chunks.\<close>

definition aligned :: "bytes list \<Rightarrow> bytes list \<Rightarrow> bool" where
  "aligned x y \<longleftrightarrow> block_ok x \<and> block_ok y \<and> length x = length y"

lemma delta_ignores [simp]: "p \<noteq> q \<Longrightarrow> delta t t' x y (set_pair q a b ks) p = delta t t' x y ks p"
  by (simp add: delta_def)

lemma delta_same: "\<lbrakk>aligned x y; p + 1 < length x; x ! p = y ! p\<rbrakk> \<Longrightarrow> delta t t' x y ks p = 0"
  by (simp add: delta_def mixed_at_def aligned_def)

lemma chunk_at_ok: "\<lbrakk>block_ok x; p < length x\<rbrakk> \<Longrightarrow> length (x ! p) = 16"
  by (simp add: block_ok_def)

lemma pair_in_range: "\<lbrakk>block_ok x; p < length x; ks \<in> keys 34\<rbrakk> \<Longrightarrow> 2 * p + 1 < length ks"
  by (auto simp: block_ok_def keys_def)

lemma chunk_words_differ:
  assumes "block_ok x" "block_ok y" "p < length x" "p < length y" "x ! p \<noteq> y ! p"
  shows "lo_word (x ! p) \<noteq> lo_word (y ! p) \<or> hi_word (x ! p) \<noteq> hi_word (y ! p)"
  using chunk_words(3) [of "x ! p" "y ! p"] assms chunk_at_ok by auto

lemma delta_ph_values:
  assumes "aligned x y" "p + 1 < length x" "x ! p \<noteq> y ! p" "ks \<in> keys 34" "finite S"
  shows "card (pairs (\<lambda>a b. delta t t' x y (set_pair p a b ks) p \<in> S)) \<le> card S * 2 ^ 64"
proof -
  have ok: "block_ok x" "block_ok y" "length x = length y"
    using assms(1) by (simp_all add: aligned_def)
  then have "2 * p + 1 < length ks"
    using pair_in_range [of x p ks] assms by simp
  then have "delta t t' x y (set_pair p a b ks) p =
      ph a b (lo_word (x ! p)) (hi_word (x ! p)) XOR ph a b (lo_word (y ! p)) (hi_word (y ! p))" for a b
    using assms(2) ok(3) by (simp add: delta_def mixed_at_own)
  then show ?thesis
    using ph.axu_values [OF _ _ _ _ _ assms(5)] chunk_words_differ [OF ok(1,2)] assms(2,3) ok
      chunk_words(1,2) [OF chunk_at_ok chunk_at_ok] by simp
qed

lemma delta_ph_value:
  assumes "aligned x y" "p + 1 < length x" "x ! p \<noteq> y ! p" "ks \<in> keys 34"
  shows "card (pairs (\<lambda>a b. delta t t' x y (set_pair p a b ks) p = v)) \<le> 2 ^ (128 - 64)"
  using delta_ph_values [OF assms, of "{v}"] by simp

lemma delta_enh:
  assumes "aligned x y" "p + 1 = length x" "x ! p \<noteq> y ! p" "ks \<in> keys 34"
  shows "card (pairs (\<lambda>a b. delta t t' x y (set_pair p a b ks) p = 0)) \<le> 2 ^ (128 - 64)"
proof -
  have ok: "block_ok x" "block_ok y" "length x = length y"
    using assms(1) by (simp_all add: aligned_def)
  then have "2 * p + 1 < length ks"
    using pair_in_range [of x p ks] assms by simp
  then have iff: "delta t t' x y (set_pair p a b ks) p = 0 \<longleftrightarrow>
      enh t a b (lo_word (x ! p)) (hi_word (x ! p)) = enh t' a b (lo_word (y ! p)) (hi_word (y ! p))" for a b
    using assms(2) ok(3) by (simp add: delta_def mixed_at_own)
  have p: "p < length x" "p < length y"
    using assms(2) ok(3) by simp_all
  show ?thesis
    unfolding iff
    using enh.collisions [OF chunk_words(1,2) [OF chunk_at_ok chunk_at_ok, OF ok(1) p(1) ok(1) p(1)]
        chunk_words(1,2) [OF chunk_at_ok chunk_at_ok, OF ok(2) p(2) ok(2) p(2)]
        chunk_words_differ [OF ok(1,2) p assms(3)]] by simp
qed

lemma delta_range:
  assumes "aligned x y" "p + 1 < length x" "ks \<in> keys 34"
  shows "delta t t' x y ks p \<in> ph_range"
proof -
  have ok: "block_ok x" "block_ok y" "length x = length y"
    using assms(1) by (simp_all add: aligned_def)
  have k: "u64 (ks ! (2 * p + 1))"
    using assms(2,3) ok pair_in_range [of x p ks] by (simp add: keys_def)
  have "ph a (ks ! (2 * p + 1)) b c \<in> ph_range" if "u64 c" for a b c
    using gfmul_nonneg [of "c XOR ks ! (2 * p + 1)"] gfmul_less [of "c XOR ks ! (2 * p + 1)"]
      u64_xor [OF that k] unfolding ph_def ph_range_def by blast
  then show ?thesis
    using assms(2) ok chunk_words(2) [OF chunk_at_ok chunk_at_ok]
    by (auto simp: delta_def mixed_at_def intro!: ph_range_xor)
qed

lemma delta_fun: "delta t t' x y ks = (\<lambda>p. mixed_at ks t x p XOR mixed_at ks t' y p)"
  by (simp add: fun_eq_iff delta_def)

lemma primary_delta:
  "length x = length y \<Longrightarrow>
     primary_at ks t x = primary_at ks t' y \<longleftrightarrow> xor_upto (length x) (delta t t' x y ks) = 0"
  using xor_upto_xor [of "length x" "mixed_at ks t x" "mixed_at ks t' y"]
  by (simp add: primary_at_def delta_fun)

lemma shuffled_delta:
  "length x = length y \<Longrightarrow>
     shuffled_at ks t x = shuffled_at ks t' y \<longleftrightarrow>
     xor_upto (length x) (\<lambda>p. shuffler (length x) (p + 1) (delta t t' x y ks p)) = 0"
  using xor_upto_xor [of "length x" "\<lambda>p. shuffler (length x) (p + 1) (mixed_at ks t x p)"
      "\<lambda>p. shuffler (length x) (p + 1) (mixed_at ks t' y p)"]
  by (simp add: shuffled_at_def delta_def shuffler_xor)

text \<open>Whether the checksums of two blocks of the same size agree does not depend on the key.\<close>

definition same_check :: "int list \<Rightarrow> bytes list \<Rightarrow> bytes list \<Rightarrow> bool" where
  "same_check ks x y \<longleftrightarrow> check_lo ks x = check_lo ks y \<and> check_hi ks x = check_hi ks y"

lemma same_check_iff:
  assumes "length x = length y"
  shows "same_check ks x y \<longleftrightarrow>
    xor_upto (length x) (\<lambda>p. lo_word (x ! p) XOR lo_word (y ! p)) = 0 \<and>
    xor_upto (length x) (\<lambda>p. hi_word (x ! p) XOR hi_word (y ! p)) = 0"
proof -
  have "check_lo ks x XOR check_lo ks y = xor_upto (length x) (\<lambda>p. lo_word (x ! p) XOR lo_word (y ! p))"
    "check_hi ks x XOR check_hi ks y = xor_upto (length x) (\<lambda>p. hi_word (x ! p) XOR hi_word (y ! p))"
    unfolding check_lo_def check_hi_def assms xor_upto_xor [symmetric]
    by (intro xor_upto_cong; simp add: xor_rules)+
  then show ?thesis
    unfolding same_check_def by (metis xor_eq_0_iff)
qed

lemma same_check_two_chunks:
  assumes "aligned x y" "same_check ks x y" "p < length x" "x ! p \<noteq> y ! p"
  shows "\<exists>q < length x. q \<noteq> p \<and> x ! q \<noteq> y ! q"
proof (rule ccontr)
  assume "\<not> (\<exists>q < length x. q \<noteq> p \<and> x ! q \<noteq> y ! q)"
  then have "xor_upto (length x) (\<lambda>p. lo_word (x ! p) XOR lo_word (y ! p)) =
      lo_word (x ! p) XOR lo_word (y ! p)"
    "xor_upto (length x) (\<lambda>p. hi_word (x ! p) XOR hi_word (y ! p)) =
      hi_word (x ! p) XOR hi_word (y ! p)"
    by (intro xor_upto_single [OF assms(3)]; auto)+
  then have "lo_word (x ! p) = lo_word (y ! p)" "hi_word (x ! p) = hi_word (y ! p)"
    using assms(1,2) same_check_iff [of x y ks] by (simp_all add: aligned_def)
  then show False
    using chunk_words_differ [of x y p] assms by (simp add: aligned_def)
qed

text \<open>Identical blocks under different tags never collide.\<close>

lemma tags_never_collide:
  assumes "block_ok x" "t mod (W * W) \<noteq> t' mod (W * W)"
  shows "primary_at ks t x \<noteq> primary_at ks t' x" and "shuffled_at ks t x \<noteq> shuffled_at ks t' x"
proof -
  let ?n = "length x" and ?l = "length x - 1"
  have al: "aligned x x" and l: "?l < ?n" "?l + 1 = ?n"
    using assms(1) by (auto simp: aligned_def block_ok_def)
  have zero: "delta t t' x x ks k = 0" if "k < ?n" "k \<noteq> ?l" for k
    using delta_same [OF al, of k] that by simp
  have last: "delta t t' x x ks ?l \<noteq> 0"
    using enh.tags [OF assms(2)] l by (simp add: delta_def mixed_at_def)
  show "primary_at ks t x \<noteq> primary_at ks t' x"
    using xor_upto_single [OF l(1), of "delta t t' x x ks"] zero last by (simp add: primary_delta)
  have "xor_upto ?n (\<lambda>p. shuffler ?n (p + 1) (delta t t' x x ks p)) = delta t t' x x ks ?l"
    using xor_upto_single [OF l(1), of "\<lambda>p. shuffler ?n (p + 1) (delta t t' x x ks p)"] zero l
    by (simp add: shuffler_def pshift_0)
  then show "shuffled_at ks t x \<noteq> shuffled_at ks t' x"
    using last by (simp add: shuffled_delta)
qed

lemma aligned_differ:
  assumes "aligned x y" "x \<noteq> y"
  obtains p where "p < length x" "x ! p \<noteq> y ! p"
  using assms nth_equalityI [of x y] by (auto simp: aligned_def)

end
