(* ===== verification/Compression.thy ===== *)
theory Compression
  imports Collisions
begin

text \<open>
  The bounds on block collisions: of the primary compressor, of the secondary one, and of both
  at once, which is the case analysis of the documentation of \<open>umash_reference.py\<close> (section
  "What if that's not enough?").
\<close>

definition tags_differ :: "int \<Rightarrow> int \<Rightarrow> bool" where
  "tags_differ t t' \<longleftrightarrow> t mod (W * W) \<noteq> t' mod (W * W)"

subsection \<open>The primary compressor\<close>

lemma primary_isolate:
  assumes "length x = length y" "p < length x"
  shows "primary_at (set_pair p a b ks) t x = primary_at (set_pair p a b ks) t' y \<longleftrightarrow>
    delta t t' x y (set_pair p a b ks) p = xor_upto (length x) ((delta t t' x y ks)(p := 0))"
proof -
  have "xor_upto (length x) ((delta t t' x y (set_pair p a b ks))(p := 0)) =
      xor_upto (length x) ((delta t t' x y ks)(p := 0))"
    by (rule xor_upto_cong) simp
  then show ?thesis
    using xor_upto_split [OF assms(2), of "delta t t' x y (set_pair p a b ks)"]
    by (simp add: primary_delta [OF assms(1)])
qed

lemma position_in_key: "\<lbrakk>block_ok x; p < length x\<rbrakk> \<Longrightarrow> 2 * p + 1 < 34"
  by (auto simp: block_ok_def)

lemma primary_aligned:
  assumes al: "aligned x y" and diff: "x \<noteq> y \<or> tags_differ t t'"
  shows "rare 34 64 (\<lambda>ks. primary_at ks t x = primary_at ks t' y)"
proof (cases "x = y")
  case True
  then have "primary_at ks t x \<noteq> primary_at ks t' y" for ks
    using tags_never_collide(1) [of y] al diff by (auto simp: aligned_def tags_differ_def)
  then show ?thesis
    using rare_False by simp
next
  case False
  have ok: "block_ok x" "length x = length y"
    using al by (simp_all add: aligned_def)
  obtain p where p: "p < length x" "x ! p \<noteq> y ! p" "p + 1 < length x \<or>
      p + 1 = length x \<and> (\<forall>k. k + 1 < length x \<longrightarrow> x ! k = y ! k)"
  proof (cases "\<exists>p. p + 1 < length x \<and> x ! p \<noteq> y ! p")
    case True
    then obtain p where "p + 1 < length x" "x ! p \<noteq> y ! p" by blast
    then show ?thesis using that [of p] by simp
  next
    case none: False
    obtain p where "p < length x" "x ! p \<noteq> y ! p"
      using aligned_differ [OF al False] .
    then show ?thesis
      using that [of p] none by (metis Suc_eq_plus1 Suc_lessI)
  qed
  have "card (pairs (\<lambda>a b. primary_at (set_pair p a b ks) t x = primary_at (set_pair p a b ks) t' y))
      \<le> 2 ^ (128 - 64)" if ks: "ks \<in> keys 34" for ks
    unfolding primary_isolate [OF ok(2) p(1)]
  proof (cases "p + 1 < length x")
    case True
    then show "card (pairs (\<lambda>a b. delta t t' x y (set_pair p a b ks) p =
        xor_upto (length x) ((delta t t' x y ks)(p := 0)))) \<le> 2 ^ (128 - 64)"
      using delta_ph_value [OF al _ p(2) ks] by blast
  next
    case False
    then have "xor_upto (length x) ((delta t t' x y ks)(p := 0)) = xor_upto (length x) (\<lambda>k. 0)"
      using p(3) delta_same [OF al] p(1) by (intro xor_upto_cong) (auto simp: less_Suc_eq)
    then show "card (pairs (\<lambda>a b. delta t t' x y (set_pair p a b ks) p =
        xor_upto (length x) ((delta t t' x y ks)(p := 0)))) \<le> 2 ^ (128 - 64)"
      using delta_enh [OF al _ p(2) ks] p(3) False by simp
  qed
  then show ?thesis
    by (intro rare_fibre [OF position_in_key [OF ok(1) p(1)]]) simp_all
qed

text \<open>Blocks of different sizes: the last chunk of the longer one decides.\<close>

lemma primary_own:
  assumes "block_ok x" "ks \<in> keys 34"
  defines "q \<equiv> length x - 1"
  shows "primary_at (set_pair q a b ks) t x =
    enh t a b (lo_word (x ! q)) (hi_word (x ! q)) XOR xor_upto (length x) ((mixed_at ks t x)(q := 0))"
proof -
  have q: "q < length x" "q + 1 = length x"
    using assms(1) by (simp_all add: q_def block_ok_def)
  have "xor_upto (length x) ((mixed_at (set_pair q a b ks) t x)(q := 0)) =
      xor_upto (length x) ((mixed_at ks t x)(q := 0))"
    by (rule xor_upto_cong) simp
  then show ?thesis
    using xor_upto_split [OF q(1), of "mixed_at (set_pair q a b ks) t x"] q(2)
      mixed_at_own [OF pair_in_range [OF assms(1) q(1) assms(2)]]
    by (simp add: primary_at_def)
qed

lemma last_words:
  assumes "block_ok x"
  shows "u64 (lo_word (x ! (length x - 1)))" "u64 (hi_word (x ! (length x - 1)))" "2 * (length x - 1) + 1 < 34"
proof -
  have q: "length x - 1 < length x"
    using assms by (simp add: block_ok_def)
  show "u64 (lo_word (x ! (length x - 1)))" "u64 (hi_word (x ! (length x - 1)))"
    using chunk_words(1,2) [OF chunk_at_ok chunk_at_ok, OF assms q assms q] by simp_all
  show "2 * (length x - 1) + 1 < 34"
    using position_in_key [OF assms q] .
qed

lemma primary_longer:
  assumes ok: "block_ok x" "block_ok y" and len: "length y < length x"
  shows "rare 34 63 (\<lambda>ks. primary_at ks t x = primary_at ks t' y)"
proof -
  let ?q = "length x - 1"
  have q: "length y \<le> ?q"
    using len by simp
  have "card (pairs (\<lambda>a b. primary_at (set_pair ?q a b ks) t x = primary_at (set_pair ?q a b ks) t' y))
      \<le> 2 ^ (128 - 63)" if ks: "ks \<in> keys 34" for ks
  proof -
    let ?rest = "xor_upto (length x) ((mixed_at ks t x)(?q := 0))"
    have "primary_at (set_pair ?q a b ks) t x = primary_at (set_pair ?q a b ks) t' y \<longleftrightarrow>
        enh t a b (lo_word (x ! ?q)) (hi_word (x ! ?q)) = ?rest XOR primary_at ks t' y" for a b
      unfolding primary_at_ignores [OF q] primary_own [OF ok(1) ks] by (metis xor.commute xor_eq_swap)
    then show ?thesis
      using enh.spread last_words(1,2) [OF ok(1)] by simp
  qed
  then show ?thesis
    by (intro rare_fibre [OF last_words(3) [OF ok(1)]]) simp_all
qed

lemma rare_commute: "rare n e (\<lambda>ks. f ks = g ks) \<longleftrightarrow> rare n e (\<lambda>ks. g ks = f ks)"
  by (simp add: rare_def eq_commute)

lemma primary_collisions:
  assumes "block_ok x" "block_ok y" "x \<noteq> y \<or> tags_differ t t'"
  shows "rare 34 63 (\<lambda>ks. primary_at ks t x = primary_at ks t' y)"
proof (cases "length x" "length y" rule: linorder_cases)
  case less
  then show ?thesis
    by (intro rare_commute [THEN iffD1, OF primary_longer [OF assms(2,1)]])
next
  case equal
  then show ?thesis
    using primary_aligned [of x y t t'] assms rare_mono [of 34 64 _ _ 63] by (simp add: aligned_def)
next
  case greater
  then show ?thesis
    using primary_longer [OF assms(1,2)] by blast
qed

subsection \<open>The checksum\<close>

text \<open>When the checksums differ, the mixed checksum alone makes the secondary compressor safe.\<close>

lemma check_u64:
  assumes "block_ok z" "ks \<in> keys 34"
  shows "u64 (check_lo ks z)" "u64 (check_hi ks z)"
proof -
  have sum: "u64 (xor_upto n f)" if "\<And>p. p < n \<Longrightarrow> u64 (f p)" for n f
    using that by (induction n) (auto intro: u64_xor simp: u64_def [of 0])
  have "u64 (ks ! (2 * p))" "u64 (ks ! (2 * p + 1))" if "p < length z" for p
    using assms pair_in_range [OF assms(1) that assms(2)] by (simp_all add: keys_def)
  then show "u64 (check_lo ks z)" "u64 (check_hi ks z)"
    unfolding check_lo_def check_hi_def
    using chunk_words(1,2) [OF chunk_at_ok chunk_at_ok, OF assms(1) _ assms(1)] by (auto intro!: sum u64_xor)
qed

lemma secondary_own:
  assumes "block_ok z" "ks \<in> keys 34"
  shows "secondary_at (set_pair 16 a b ks) s z = ph a b (check_lo ks z) (check_hi ks z) XOR shuffled_at ks s z"
proof -
  have len: "length z \<le> 16" "2 * 16 + 1 < length ks"
    using assms by (auto simp: block_ok_def keys_def)
  show ?thesis
    unfolding secondary_at_def set_pair_nth(1,2) [OF len(2)] check_ignores [OF len(1)]
      shuffled_at_ignores [OF len(1)] ..
qed

lemma secondary_checked:
  assumes "block_ok x" "block_ok y" "ks \<in> keys 34" "\<not> same_check ks x y"
  shows "card (pairs (\<lambda>a b. secondary_at (set_pair 16 a b ks) t x = secondary_at (set_pair 16 a b ks) t' y))
    \<le> 2 ^ (128 - 64)"
proof -
  let ?v = "shuffled_at ks t x XOR shuffled_at ks t' y"
  have swap: "p XOR s = q XOR r \<longleftrightarrow> p XOR q = s XOR r" for p q r s :: int
    by (metis xor.assoc xor.commute xor_self_cancel_left)
  have "secondary_at (set_pair 16 a b ks) t x = secondary_at (set_pair 16 a b ks) t' y \<longleftrightarrow>
      ph a b (check_lo ks x) (check_hi ks x) XOR ph a b (check_lo ks y) (check_hi ks y) = ?v" for a b
    unfolding secondary_own [OF assms(1,3)] secondary_own [OF assms(2,3)] by (rule swap)
  then show ?thesis
    using ph.axu [OF check_u64 [OF assms(1,3)] check_u64 [OF assms(2,3)]] assms(4)
    by (auto simp: same_check_def)
qed

text \<open>Checksums of blocks of different sizes rarely agree.\<close>

lemma same_check_longer:
  assumes ok: "block_ok x" "block_ok y" and len: "length y < length x"
  shows "rare 34 128 (\<lambda>ks. same_check ks x y)"
proof -
  let ?q = "length x - 1"
  have q: "?q < length x" "length y \<le> ?q"
    using len by simp_all
  have "card (pairs (\<lambda>a b. same_check (set_pair ?q a b ks) x y)) \<le> 2 ^ (128 - 128)"
    if ks: "ks \<in> keys 34" for ks
  proof -
    let ?f = "\<lambda>p. ks ! (2 * p) XOR lo_word (x ! p)" and ?g = "\<lambda>p. ks ! (2 * p + 1) XOR hi_word (x ! p)"
    let ?k = "set_pair ?q"
    note own = set_pair_nth(1,2) [OF pair_in_range [OF ok(1) q(1) ks]]
    have eqs: "check_lo (?k a b ks) x = (a XOR lo_word (x ! ?q)) XOR xor_upto (length x) (?f(?q := 0))"
      "check_hi (?k a b ks) x = (b XOR hi_word (x ! ?q)) XOR xor_upto (length x) (?g(?q := 0))" for a b
    proof -
      have "xor_upto (length x) ((\<lambda>p. ?k a b ks ! (2 * p) XOR lo_word (x ! p))(?q := 0)) =
          xor_upto (length x) (?f(?q := 0))"
        "xor_upto (length x) ((\<lambda>p. ?k a b ks ! (2 * p + 1) XOR hi_word (x ! p))(?q := 0)) =
          xor_upto (length x) (?g(?q := 0))"
        by (intro xor_upto_cong; simp add: set_pair_nth set_pair_nth_Suc)+
      then show "check_lo (?k a b ks) x = (a XOR lo_word (x ! ?q)) XOR xor_upto (length x) (?f(?q := 0))"
        "check_hi (?k a b ks) x = (b XOR hi_word (x ! ?q)) XOR xor_upto (length x) (?g(?q := 0))"
        unfolding check_lo_def check_hi_def
        using xor_upto_split [OF q(1), of "\<lambda>p. ?k a b ks ! (2 * p) XOR lo_word (x ! p)"]
          xor_upto_split [OF q(1), of "\<lambda>p. ?k a b ks ! (2 * p + 1) XOR hi_word (x ! p)"] own
        by simp_all
    qed
    have "a = a' \<and> b = b'" if "same_check (?k a b ks) x y" "same_check (?k a' b' ks) x y" for a b a' b'
    proof -
      have "check_lo (?k a b ks) x = check_lo (?k a' b' ks) x" "check_hi (?k a b ks) x = check_hi (?k a' b' ks) x"
        using that by (simp_all only: same_check_def check_ignores [OF q(2)])
      then show ?thesis
        unfolding eqs by (simp only: xor_right_cancel)
    qed
    then have "card (pairs (\<lambda>a b. same_check (?k a b ks) x y)) \<le> 1"
      by (intro card_at_most_one) (auto simp: pairs_def)
    then show ?thesis by simp
  qed
  then show ?thesis
    by (intro rare_fibre [OF position_in_key [OF ok(1) q(1)]]) simp_all
qed

lemma ignores_check: "\<lbrakk>block_ok x; block_ok y\<rbrakk> \<Longrightarrow> ignores 16 (\<lambda>ks. same_check ks x y)"
  by (simp add: ignores_def same_check_def check_ignores block_ok_def)

lemma ignores_primary:
  "\<lbrakk>block_ok x; block_ok y\<rbrakk> \<Longrightarrow> ignores 16 (\<lambda>ks. primary_at ks t x = primary_at ks t' y)"
  by (simp add: ignores_def primary_at_ignores block_ok_def)

subsection \<open>The secondary compressor\<close>

lemma rare_zero: "rare n 0 P"
  unfolding rare_def card_keys [symmetric] by (simp add: card_mono)

lemma secondary_checked_rare:
  assumes "block_ok x" "block_ok y"
  shows "rare 34 64 (\<lambda>ks. \<not> same_check ks x y \<and> secondary_at ks t x = secondary_at ks t' y)"
proof -
  have "ignores 16 (\<lambda>ks. \<not> same_check ks x y)"
    using ignores_check [OF assms] by (simp add: ignores_def)
  then have "rare 34 (0 + 64) (\<lambda>ks. \<not> same_check ks x y \<and> secondary_at ks t x = secondary_at ks t' y)"
    using secondary_checked [OF assms] by (intro rare_conj_fibre [OF rare_zero, of 16]) simp_all
  then show ?thesis by simp
qed

lemma secondary_same_check:
  "same_check ks x y \<Longrightarrow> secondary_at ks t x = secondary_at ks t' y \<longleftrightarrow> shuffled_at ks t x = shuffled_at ks t' y"
  by (simp add: secondary_at_def same_check_def)

lemma shuffled_isolate:
  assumes "length x = length y" "p < length x"
  shows "shuffled_at (set_pair p a b ks) t x = shuffled_at (set_pair p a b ks) t' y \<longleftrightarrow>
    shuffler (length x) (p + 1) (delta t t' x y (set_pair p a b ks) p) =
    xor_upto (length x) ((\<lambda>k. shuffler (length x) (k + 1) (delta t t' x y ks k))(p := 0))"
proof -
  let ?s = "\<lambda>ks k. shuffler (length x) (k + 1) (delta t t' x y ks k)"
  have "xor_upto (length x) ((?s (set_pair p a b ks))(p := 0)) = xor_upto (length x) ((?s ks)(p := 0))"
    by (rule xor_upto_cong) simp
  then show ?thesis
    using xor_upto_split [OF assms(2), of "?s (set_pair p a b ks)"]
    by (simp add: shuffled_delta [OF assms(1)])
qed

text \<open>A position that \<open>PH\<close> mixes and where two blocks with equal checksums differ.\<close>

lemma same_check_ph_position:
  assumes "aligned x y" "x \<noteq> y" "same_check ks x y"
  obtains p where "p + 1 < length x" "x ! p \<noteq> y ! p"
proof -
  obtain p where p: "p < length x" "x ! p \<noteq> y ! p"
    using aligned_differ [OF assms(1,2)] .
  obtain q where "q < length x" "q \<noteq> p" "x ! q \<noteq> y ! q"
    using same_check_two_chunks [OF assms(1,3) p] by blast
  then show ?thesis
    using that [of p] that [of q] p by (cases "p + 1 < length x") auto
qed

lemma shuffled_aligned:
  assumes al: "aligned x y" and diff: "x \<noteq> y \<or> tags_differ t t'" and same: "same_check ks0 x y"
  shows "rare 34 63 (\<lambda>ks. shuffled_at ks t x = shuffled_at ks t' y)"
proof (cases "x = y")
  case True
  then have "shuffled_at ks t x \<noteq> shuffled_at ks t' y" for ks
    using tags_never_collide(2) [of y] al diff by (auto simp: aligned_def tags_differ_def)
  then show ?thesis
    using rare_False by simp
next
  case False
  obtain p where p: "p + 1 < length x" "x ! p \<noteq> y ! p"
    using same_check_ph_position [OF al False same] .
  have ok: "block_ok x" "length x = length y" "p < length x"
    using al p by (simp_all add: aligned_def)
  have "card (pairs (\<lambda>a b. shuffled_at (set_pair p a b ks) t x = shuffled_at (set_pair p a b ks) t' y))
      \<le> 2 ^ (128 - 63)" if ks: "ks \<in> keys 34" for ks
  proof -
    let ?v = "xor_upto (length x) ((\<lambda>k. shuffler (length x) (k + 1) (delta t t' x y ks k))(p := 0))"
    let ?S = "{d \<in> ph_range. shuffler (length x) (p + 1) d = ?v}"
    have "card (pairs (\<lambda>a b. shuffled_at (set_pair p a b ks) t x = shuffled_at (set_pair p a b ks) t' y))
        \<le> card (pairs (\<lambda>a b. delta t t' x y (set_pair p a b ks) p \<in> ?S))"
      unfolding shuffled_isolate [OF ok(2,3)]
      using delta_range [OF al p(1)] set_pair_keys [OF ks] by (intro card_pairs_mono) simp
    also have "\<dots> \<le> card ?S * 2 ^ 64"
      by (rule delta_ph_values [OF al p ks]) simp
    also have "\<dots> \<le> 2 * 2 ^ 64"
      using card_shuffler_preimage [of "p + 1" "length x"] p(1) by (intro mult_right_mono) simp_all
    finally show ?thesis by simp
  qed
  then show ?thesis
    by (intro rare_fibre [OF position_in_key [OF ok(1,3)]]) simp_all
qed

lemma same_check_constant: "length x = length y \<Longrightarrow> same_check ks x y = same_check ks' x y"
  by (simp add: same_check_iff)

lemma secondary_longer:
  assumes "block_ok x" "block_ok y" "length y < length x"
  shows "rare 34 63 (\<lambda>ks. secondary_at ks t x = secondary_at ks t' y)"
proof -
  have "rare 34 63 (\<lambda>ks. (\<not> same_check ks x y \<and> secondary_at ks t x = secondary_at ks t' y) \<or> same_check ks x y)"
    using secondary_checked_rare [OF assms(1,2)] rare_mono [OF same_check_longer [OF assms]]
    by (intro rare_disj) simp_all
  then show ?thesis
    by (rule rare_mono) auto
qed

lemma secondary_collisions:
  assumes "block_ok x" "block_ok y" "x \<noteq> y \<or> tags_differ t t'"
  shows "rare 34 63 (\<lambda>ks. secondary_at ks t x = secondary_at ks t' y)"
proof (cases "length x" "length y" rule: linorder_cases)
  case less
  then show ?thesis
    by (intro rare_commute [THEN iffD1, OF secondary_longer [OF assms(2,1)]])
next
  case equal
  then have al: "aligned x y"
    using assms by (simp add: aligned_def)
  show ?thesis
  proof (cases "same_check [] x y")
    case True
    then show ?thesis
      using secondary_same_check same_check_constant [OF equal]
      by (intro rare_mono [OF shuffled_aligned [OF al assms(3) True]]) blast+
  next
    case False
    then show ?thesis
      using same_check_constant [OF equal]
      by (intro rare_mono [OF secondary_checked_rare [OF assms(1,2)]]) auto
  qed
next
  case greater
  then show ?thesis
    using secondary_longer [OF assms(1,2)] by blast
qed

subsection \<open>Both compressors at once\<close>

text \<open>The blocks differ in two chunks that \<open>PH\<close> mixes.\<close>

lemma both_two_ph:
  assumes al: "aligned x y" and ij: "i < j" "j + 1 < length x" and di: "x ! i \<noteq> y ! i" and dj: "x ! j \<noteq> y ! j"
  shows "rare 34 99 (\<lambda>ks. primary_at ks t x = primary_at ks t' y \<and> shuffled_at ks t x = shuffled_at ks t' y)"
proof -
  let ?n = "length x"
  let ?d = "delta t t' x y" and ?s = "\<lambda>k. shuffler (length x) (k + 1)"
  define Y where "Y ks = xor_upto ?n ((?d ks)(i := 0, j := 0))" for ks
  define Z where "Z ks = xor_upto ?n ((\<lambda>k. ?s k (?d ks k))(i := 0, j := 0))" for ks
  define S where "S v = {d \<in> ph_range. ?s i d XOR ?s j d = v}" for v
  let ?Q = "\<lambda>ks. ?d ks j \<in> S (?s i (Y ks) XOR Z ks)" and ?R = "\<lambda>ks. ?d ks i = ?d ks j XOR Y ks"
  have ok: "block_ok x" "length x = length y" "i < ?n" "j < ?n" "i + 1 < ?n" "i \<noteq> j" "?n \<le> 16"
    using al ij by (simp_all add: aligned_def block_ok_def)
  have ign: "Y (set_pair q a b ks) = Y ks" "Z (set_pair q a b ks) = Z ks" if "q = i \<or> q = j" for q a b ks
    unfolding Y_def Z_def using that by (intro xor_upto_cong; auto)+
  have q35: "rare 34 35 ?Q"
  proof (rule rare_fibre [OF position_in_key [OF ok(1,4)]])
    fix ks assume ks: "ks \<in> keys 34"
    have "card (pairs (\<lambda>a b. ?d (set_pair j a b ks) j \<in> S (?s i (Y ks) XOR Z ks))) \<le>
        card (S (?s i (Y ks) XOR Z ks)) * 2 ^ 64"
      by (rule delta_ph_values [OF al ij(2) dj ks]) (simp add: S_def)
    also have "\<dots> \<le> 2 ^ 29 * 2 ^ 64"
      unfolding S_def using card_shuffler_difference_preimage [of "i + 1" "j + 1" ?n] ij ok(7)
      by (intro mult_right_mono) simp_all
    finally show "card (pairs (\<lambda>a b. ?Q (set_pair j a b ks))) \<le> 2 ^ (128 - 35)"
      by (simp add: ign)
  qed simp
  have "rare 34 (35 + 64) (\<lambda>ks. ?Q ks \<and> ?R ks)"
  proof (rule rare_conj_fibre [OF q35 position_in_key [OF ok(1,3)]])
    show "ignores i ?Q"
      unfolding ignores_def using ok(6) by (simp add: ign)
    fix ks assume ks: "ks \<in> keys 34"
    show "card (pairs (\<lambda>a b. ?R (set_pair i a b ks))) \<le> 2 ^ (128 - 64)"
      using delta_ph_value [OF al ok(5) di ks, of t t' "?d ks j XOR Y ks"] ok(6) by (simp add: ign)
  qed simp
  moreover have "?Q ks \<and> ?R ks"
    if "ks \<in> keys 34" "primary_at ks t x = primary_at ks t' y \<and> shuffled_at ks t x = shuffled_at ks t' y" for ks
  proof -
    have "?d ks i XOR ?d ks j XOR Y ks = 0"
      using that(2) xor_upto_double [OF ok(3,4,6), of "?d ks"] by (simp add: primary_delta [OF ok(2)] Y_def)
    then have r: "?R ks"
      by (simp add: xor.assoc)
    have "?s i (?d ks i) XOR ?s j (?d ks j) XOR Z ks = 0"
      using that(2) xor_upto_double [OF ok(3,4,6), of "\<lambda>k. ?s k (?d ks k)"]
      by (simp add: shuffled_delta [OF ok(2)] Z_def)
    then have "?s i (?d ks j) XOR ?s j (?d ks j) = ?s i (Y ks) XOR Z ks"
      unfolding r shuffler_xor by (metis xor.assoc xor.commute xor_eq_0_iff)
    then show ?thesis
      using r delta_range [OF al ij(2) that(1)] by (simp add: S_def)
  qed
  ultimately show ?thesis
    by (rule rare_mono) simp_all
qed

text \<open>The blocks differ in one chunk that \<open>PH\<close> mixes and in the last one, which goes to \<open>ENH\<close>.\<close>

lemma both_ph_enh:
  assumes al: "aligned x y" and j: "j + 1 < length x" "x ! j \<noteq> y ! j"
    and l: "l + 1 = length x" "x ! l \<noteq> y ! l"
    and rest: "\<And>k. \<lbrakk>k < length x; k \<noteq> j; k \<noteq> l\<rbrakk> \<Longrightarrow> x ! k = y ! k"
  shows "rare 34 128 (\<lambda>ks. primary_at ks t x = primary_at ks t' y \<and> shuffled_at ks t x = shuffled_at ks t' y)"
proof -
  let ?n = "length x"
  let ?d = "delta t t' x y" and ?s = "\<lambda>k. shuffler (length x) (k + 1)"
  have ok: "block_ok x" "length x = length y" "j < ?n" "l < ?n" "j \<noteq> l"
    using al j l by (simp_all add: aligned_def)
  have zero: "?d ks k = 0" if "k < ?n" "k \<noteq> j" "k \<noteq> l" for ks k
    using delta_same [OF al, of k] rest [OF that] that l(1) by simp
  have s0: "?s k 0 = 0" for k
    by (simp add: shuffler_def pshift_0)
  have "rare 34 64 (\<lambda>ks. ?d ks j = 0)"
    using delta_ph_value [OF al j] by (intro rare_fibre [OF position_in_key [OF ok(1,3)]]) simp_all
  then have "rare 34 (64 + 64) (\<lambda>ks. ?d ks j = 0 \<and> ?d ks l = 0)"
    using delta_enh [OF al l] ok(5)
    by (intro rare_conj_fibre [OF _ position_in_key [OF ok(1,4)]]) (simp_all add: ignores_def)
  moreover have "?d ks j = 0 \<and> ?d ks l = 0"
    if "ks \<in> keys 34" "primary_at ks t x = primary_at ks t' y \<and> shuffled_at ks t x = shuffled_at ks t' y" for ks
  proof -
    have "xor_upto ?n ((?d ks)(j := 0, l := 0)) = xor_upto ?n (\<lambda>k. 0)"
      "xor_upto ?n ((\<lambda>k. ?s k (?d ks k))(j := 0, l := 0)) = xor_upto ?n (\<lambda>k. 0)"
      using zero s0 by (intro xor_upto_cong; simp)+
    then have "?d ks j XOR ?d ks l = 0" "?s j (?d ks j) XOR ?s l (?d ks l) = 0"
      using that(2) xor_upto_double [OF ok(3-5), of "?d ks"]
        xor_upto_double [OF ok(3-5), of "\<lambda>k. ?s k (?d ks k)"]
      by (simp_all add: primary_delta [OF ok(2)] shuffled_delta [OF ok(2)])
    then have eq: "?d ks l = ?d ks j" "?d ks j XOR ?s j (?d ks j) = 0"
      using l(1) by simp_all
    have "?d ks j \<in> ph_range"
      using delta_range [OF al j(1) that(1)] .
    then have "?d ks j = 0"
      using shuffler_plus_identity [OF _ eq(2)] j(1) by (simp add: ph_range_def)
    then show ?thesis using eq(1) by simp
  qed
  ultimately show ?thesis
    by (rule rare_mono) simp_all
qed

lemma both_aligned:
  assumes al: "aligned x y" and diff: "x \<noteq> y \<or> tags_differ t t'" and same: "same_check ks0 x y"
  shows "rare 34 99 (\<lambda>ks. primary_at ks t x = primary_at ks t' y \<and> shuffled_at ks t x = shuffled_at ks t' y)"
proof (cases "x = y")
  case True
  then have "primary_at ks t x \<noteq> primary_at ks t' y" for ks
    using tags_never_collide(1) [of y] al diff by (auto simp: aligned_def tags_differ_def)
  then show ?thesis
    using rare_False by simp
next
  case False
  obtain p where p: "p + 1 < length x" "x ! p \<noteq> y ! p"
    using same_check_ph_position [OF al False same] .
  show ?thesis
  proof (cases "\<exists>k. k + 1 < length x \<and> k \<noteq> p \<and> x ! k \<noteq> y ! k")
    case True
    then obtain k where k: "k + 1 < length x" "k \<noteq> p" "x ! k \<noteq> y ! k" by blast
    then show ?thesis
      using both_two_ph [OF al _ k(1) p(2) k(3)] both_two_ph [OF al _ p(1) k(3) p(2)]
      by (cases "k < p") auto
  next
    case one: False
    have "p < length x" using p by simp
    then obtain l where l: "l < length x" "l \<noteq> p" "x ! l \<noteq> y ! l"
      using same_check_two_chunks [OF al same _ p(2)] by blast
    then have last: "l + 1 = length x"
      using one by (metis Suc_eq_plus1 Suc_lessI)
    have "x ! k = y ! k" if "k < length x" "k \<noteq> p" "k \<noteq> l" for k
      using one that last by (metis Suc_eq_plus1 Suc_inject Suc_lessI)
    then show ?thesis
      using rare_mono [OF both_ph_enh [OF al p last l(3)], where d = 99] by simp
  qed
qed

lemma both_longer:
  assumes "block_ok x" "block_ok y" "length y < length x"
  shows "rare 34 99 (\<lambda>ks. primary_at ks t x = primary_at ks t' y \<and> secondary_at ks t x = secondary_at ks t' y)"
proof -
  let ?P = "\<lambda>ks. primary_at ks t x = primary_at ks t' y \<and> \<not> same_check ks x y"
  have "rare 34 63 ?P"
    by (rule rare_mono [OF primary_longer [OF assms, of t t']]) simp_all
  moreover have "ignores 16 ?P"
    using ignores_check [OF assms(1,2)] ignores_primary [OF assms(1,2)] by (simp add: ignores_def)
  ultimately have "rare 34 (63 + 64) (\<lambda>ks. ?P ks \<and> secondary_at ks t x = secondary_at ks t' y)"
    using secondary_checked [OF assms(1,2)] by (intro rare_conj_fibre [of 34 63 _ 16]) simp_all
  then have "rare 34 99 (\<lambda>ks. (?P ks \<and> secondary_at ks t x = secondary_at ks t' y) \<or> same_check ks x y)"
    using rare_mono [OF same_check_longer [OF assms], where d = 100]
    by (intro rare_disj) (auto elim!: rare_mono)
  then show ?thesis
    by (rule rare_mono) auto
qed

lemma both_collisions:
  assumes "block_ok x" "block_ok y" "x \<noteq> y \<or> tags_differ t t'"
  shows "rare 34 99 (\<lambda>ks. primary_at ks t x = primary_at ks t' y \<and> secondary_at ks t x = secondary_at ks t' y)"
proof (cases "length x" "length y" rule: linorder_cases)
  case less
  then show ?thesis
    using both_longer [OF assms(2,1) less, of t' t] by (simp only: eq_commute)
next
  case equal
  then have al: "aligned x y"
    using assms by (simp add: aligned_def)
  show ?thesis
  proof (cases "same_check [] x y")
    case True
    then have "same_check ks x y" for ks
      using same_check_constant [OF equal] by blast
    then show ?thesis
      using both_aligned [OF al assms(3) True] secondary_same_check by simp
  next
    case False
    then have "\<not> same_check ks x y" for ks
      using same_check_constant [OF equal] by blast
    then have "rare 34 (64 + 64) (\<lambda>ks. primary_at ks t x = primary_at ks t' y \<and>
        secondary_at ks t x = secondary_at ks t' y)"
      using secondary_checked [OF assms(1,2)] ignores_primary [OF assms(1,2)]
      by (intro rare_conj_fibre [OF primary_aligned [OF al assms(3)], of 16]) simp_all
    then show ?thesis
      by (rule rare_mono) simp_all
  qed
next
  case greater
  then show ?thesis
    using both_longer [OF assms(1,2)] by blast
qed

end
