(* ===== verification/Mersenne.thy ===== *)
theory Mersenne
  imports Prelude
begin

text \<open>
  The field of the polynomial hash: \<open>M61 = 2 ** 61 - 1\<close> is prime. The proof is Pocklington's
  test: the order of 37 modulo any divisor of \<open>M61\<close> above one is a multiple of
  \<open>61 * 151 * 331 * 1321\<close>, so such a divisor exceeds the square root of \<open>M61\<close>. The powers
  it needs are evaluated by repeated squaring with the reduction
  \<open>x mod M61 = (x >> 61) + (x & M61)\<close> that Mersenne moduli allow.
\<close>

definition M61 :: int where
  "M61 = 2 ^ 61 - 1"

lemma M61_numeral: "M61 = 2305843009213693951"
  by (simp add: M61_def)

definition fold61 :: "int \<Rightarrow> int" where
  "fold61 x = drop_bit 61 x + take_bit 61 x"

lemma fold61_mod: "fold61 x mod M61 = x mod M61"
proof -
  have "x = drop_bit 61 x * (M61 + 1) + take_bit 61 x"
    by (simp add: drop_bit_eq_div take_bit_eq_mod M61_def)
  then have "x = fold61 x + drop_bit 61 x * M61"
    by (simp add: fold61_def algebra_simps)
  then show ?thesis
    by (metis mod_mult_self1)
qed

fun pow_digits :: "int \<Rightarrow> int \<Rightarrow> bool list \<Rightarrow> int" where
  "pow_digits a r [] = r"
| "pow_digits a r (True # bs) = pow_digits a (fold61 (fold61 (r * r) * a)) bs"
| "pow_digits a r (False # bs) = pow_digits a (fold61 (fold61 (r * r))) bs"

text \<open>Exponents are lists of binary digits, the most significant first.\<close>

fun digits_val :: "nat \<Rightarrow> bool list \<Rightarrow> nat" where
  "digits_val k [] = k"
| "digits_val k (b # bs) = digits_val (2 * k + (if b then 1 else 0)) bs"

lemma pow_digits_mod:
  "r mod M61 = a ^ k mod M61 \<Longrightarrow> pow_digits a r bs mod M61 = a ^ digits_val k bs mod M61"
proof (induction a r bs arbitrary: k rule: pow_digits.induct)
  case (2 a r bs)
  have "fold61 (fold61 (r * r) * a) mod M61 = (r mod M61) * (r mod M61) * a mod M61"
    by (metis fold61_mod mod_mult_eq mod_mult_left_eq)
  also have "\<dots> = a ^ (2 * k + 1) mod M61"
    unfolding 2(2) by (metis mod_mult_eq mod_mult_left_eq mult_2 power_add power_one_right)
  finally show ?case
    using 2(1) by simp
next
  case (3 a r bs)
  have "fold61 (fold61 (r * r)) mod M61 = (r mod M61) * (r mod M61) mod M61"
    by (metis fold61_mod mod_mult_eq)
  also have "\<dots> = a ^ (2 * k) mod M61"
    unfolding 3(2) by (metis mod_mult_eq mult_2 power_add)
  finally show ?case
    using 3(1) by simp
qed simp

lemma power_mod_digits:
  assumes "digits_val 0 bs = k" and "pow_digits a 1 bs mod M61 = v"
  shows "a ^ k mod M61 = v mod M61"
  using pow_digits_mod [of 1 a 0 bs] assms by auto

subsection \<open>Pocklington's test\<close>

lemma power_mod_multiple:
  assumes "(a::int) ^ e mod d = 1 mod d"
  shows "a ^ (e * q) mod d = 1 mod d"
  by (metis assms power_mod power_mult power_one)

locale pocklington_test =
  fixes N a :: int and n F :: nat and rs :: "nat list"
  assumes n: "N = int n + 1" and n_pos: "0 < n"
    and fermat: "a ^ n mod N = 1"
    and proper: "r \<in> set rs \<Longrightarrow> \<exists>u. ((a ^ (n div r) - 1) * u) mod N = 1"
    and factor: "r \<in> set rs \<Longrightarrow> r dvd n"
    and prime_factor: "\<lbrakk>r \<in> set rs; \<not> r dvd k\<rbrakk> \<Longrightarrow> coprime r k"
    and combine: "(\<And>r. r \<in> set rs \<Longrightarrow> r dvd k) \<Longrightarrow> F dvd k"
    and large: "N < int F * int F"
begin

definition order_mod :: "int \<Rightarrow> nat" where
  "order_mod d = (LEAST e. 0 < e \<and> a ^ e mod d = 1 mod d)"

lemma fermat_mod: "d dvd N \<Longrightarrow> a ^ n mod d = 1 mod d"
  by (metis fermat mod_mod_cancel)

lemma order_mod:
  assumes "d dvd N"
  shows "0 < order_mod d" and "a ^ order_mod d mod d = 1 mod d"
    and "\<lbrakk>0 < e; e < order_mod d\<rbrakk> \<Longrightarrow> a ^ e mod d \<noteq> 1 mod d"
proof -
  have ex: "0 < n \<and> a ^ n mod d = 1 mod d"
    using n_pos fermat_mod [OF assms] by blast
  show "0 < order_mod d" "a ^ order_mod d mod d = 1 mod d"
    using LeastI [of "\<lambda>e. 0 < e \<and> a ^ e mod d = 1 mod d", OF ex]
    unfolding order_mod_def by blast+
  show "a ^ e mod d \<noteq> 1 mod d" if "0 < e" "e < order_mod d"
    using that not_less_Least [of e "\<lambda>e. 0 < e \<and> a ^ e mod d = 1 mod d"]
    unfolding order_mod_def by blast
qed

lemma order_mod_dvd:
  assumes d: "d dvd N"
  shows "order_mod d dvd n"
proof (rule ccontr)
  let ?e = "order_mod d"
  assume "\<not> ?e dvd n"
  then have r: "0 < n mod ?e" "n mod ?e < ?e"
    using order_mod(1) [OF d] by (auto simp: mod_greater_zero_iff_not_dvd)
  have "a ^ n = a ^ (?e * (n div ?e)) * a ^ (n mod ?e)"
    by (metis mult_div_mod_eq power_add)
  then have "a ^ n mod d = (1 mod d) * a ^ (n mod ?e) mod d"
    by (metis mod_mult_left_eq power_mod_multiple [OF order_mod(2) [OF d]])
  then have "a ^ (n mod ?e) mod d = 1 mod d"
    using fermat_mod [OF d] by (simp add: mod_mult_left_eq)
  then show False
    using order_mod(3) [OF d] r by blast
qed

lemma factor_dvd_order:
  assumes d: "d dvd N" and "1 < d" and r: "r \<in> set rs"
  shows "r dvd order_mod d"
proof (rule ccontr)
  assume "\<not> r dvd order_mod d"
  then have "coprime (order_mod d) r"
    using prime_factor [OF r] coprime_commute by blast
  moreover have "order_mod d dvd (n div r) * r"
    using order_mod_dvd [OF d] factor [OF r] by simp
  ultimately have "order_mod d dvd n div r"
    by (simp add: coprime_dvd_mult_left_iff)
  then obtain q where "n div r = order_mod d * q"
    by blast
  then have one: "a ^ (n div r) mod d = 1 mod d"
    using power_mod_multiple [OF order_mod(2) [OF d]] by simp
  obtain u where "((a ^ (n div r) - 1) * u) mod N = 1"
    using proper [OF r] by blast
  then have "((a ^ (n div r) - 1) * u) mod d = 1 mod d"
    using mod_mod_cancel [OF d, of "(a ^ (n div r) - 1) * u"] by simp
  moreover have "(a ^ (n div r) - 1) mod d = 0"
    using one by (simp only: mod_eq_dvd_iff mod_eq_0_iff_dvd)
  then have "((a ^ (n div r) - 1) * u) mod d = 0"
    by (simp add: mod_eq_0_iff_dvd)
  ultimately show False
    using assms(2) by simp
qed

lemma order_large: "\<lbrakk>d dvd N; 1 < d\<rbrakk> \<Longrightarrow> F \<le> order_mod d"
  using combine factor_dvd_order order_mod(1) by (meson dvd_imp_le)

lemma powers_distinct:
  assumes d: "d dvd N" "1 < d"
  shows "inj_on (\<lambda>i. a ^ i mod d) {0..<order_mod d}"
proof (rule linorder_inj_onI)
  fix i j assume ij: "i < j" "i \<in> {0..<order_mod d}" "j \<in> {0..<order_mod d}"
  show "a ^ i mod d \<noteq> a ^ j mod d"
  proof
    assume "a ^ i mod d = a ^ j mod d"
    then have "(a ^ i * a ^ (order_mod d - j)) mod d = (a ^ j * a ^ (order_mod d - j)) mod d"
      by (metis mod_mult_left_eq)
    also have "\<dots> = a ^ order_mod d mod d"
      using ij by (simp add: power_add [symmetric])
    finally have "a ^ (i + (order_mod d - j)) mod d = 1 mod d"
      using order_mod(2) [OF d(1)] by (simp add: power_add)
    moreover have "0 < i + (order_mod d - j)" "i + (order_mod d - j) < order_mod d"
      using ij by auto
    ultimately show False
      using order_mod(3) [OF d(1), of "i + (order_mod d - j)"] by simp
  qed
qed auto

lemma powers_nonzero:
  assumes d: "d dvd N" "1 < d" and "i < order_mod d"
  shows "a ^ i mod d \<noteq> 0"
proof
  assume "a ^ i mod d = 0"
  then have "(a ^ i * a ^ (order_mod d - i)) mod d = 0"
    by (metis mod_mult_left_eq mult_zero_left mod_0)
  then have "a ^ order_mod d mod d = 0"
    using assms(3) by (simp add: power_add [symmetric])
  then show False
    using order_mod(2) [OF d(1)] d(2) by simp
qed

lemma divisor_large:
  assumes d: "d dvd N" "1 < d"
  shows "int F < d"
proof -
  let ?P = "(\<lambda>i. a ^ i mod d) ` {0..<order_mod d}"
  have "?P \<subseteq> {1..<d}"
  proof clarsimp
    fix i assume "i < order_mod d"
    then have "a ^ i mod d \<noteq> 0" and "0 \<le> a ^ i mod d" and "a ^ i mod d < d"
      using powers_nonzero [OF d] d(2) by auto
    then show "1 \<le> a ^ i mod d \<and> a ^ i mod d < d"
      using d(2) by linarith
  qed
  then have "card ?P \<le> card {1..<d}"
    by (rule card_mono [rotated]) simp
  then have "order_mod d \<le> nat (d - 1)"
    using card_image [OF powers_distinct [OF d]] by simp
  then show ?thesis
    using order_large [OF d] d(2) by linarith
qed

lemma only_divisor:
  assumes d: "d dvd N" "1 < d"
  shows "d = N"
proof (rule ccontr)
  assume "d \<noteq> N"
  obtain e where e: "N = d * e" using d(1) by blast
  have "0 < d * e" "e \<noteq> 1"
    using e n n_pos \<open>d \<noteq> N\<close> by auto
  then have "1 < e"
    using d(2) by (smt (verit) zero_less_mult_pos)
  then have "int F < e" "int F < d"
    using divisor_large [of e] divisor_large [OF d] e by auto
  then have "int F * int F < N"
    unfolding e by (intro mult_strict_mono) auto
  then show False
    using large by simp
qed

lemma euclid:
  assumes "N dvd x * y"
  shows "N dvd x \<or> N dvd y"
proof (cases "gcd N x = 1")
  case True
  then have "coprime N x"
    by (simp add: coprime_iff_gcd_eq_1)
  then show ?thesis
    using assms coprime_dvd_mult_right_iff by blast
next
  case False
  moreover have "0 < gcd N x"
    using n by (simp add: gcd_pos_int)
  ultimately have "1 < gcd N x" by linarith
  then have "gcd N x = N"
    by (intro only_divisor) auto
  then show ?thesis
    by (metis gcd_dvd2)
qed

end

subsection \<open>\<open>M61\<close> is prime\<close>

definition no_small_divisor :: "nat \<Rightarrow> bool" where
  "no_small_divisor r \<longleftrightarrow> 1 < r \<and> r < 37 * 37 \<and> list_all (\<lambda>d. d < r \<longrightarrow> r mod d \<noteq> 0) [2..<37]"

lemma no_small_divisor_facts:
  assumes "no_small_divisor r"
  shows "1 < r" and "r < 37 * 37" and "\<lbrakk>2 \<le> d; d < 37; d < r\<rbrakk> \<Longrightarrow> r mod d \<noteq> 0"
proof -
  have all: "1 < r \<and> r < 37 * 37 \<and> (\<forall>d \<in> set [2..<37]. d < r \<longrightarrow> r mod d \<noteq> 0)"
    using assms unfolding no_small_divisor_def list_all_iff .
  from all show "1 < r" by (rule conjunct1)
  from all [THEN conjunct2] show "r < 37 * 37" by (rule conjunct1)
  assume "2 \<le> d" "d < 37" "d < r"
  then have "d \<in> set [2..<37]"
    by (simp only: set_upt atLeastLessThan_iff)
  then show "r mod d \<noteq> 0"
    by (rule mp [OF all [THEN conjunct2, THEN conjunct2, THEN bspec] \<open>d < r\<close>])
qed

lemma no_small_divisorD:
  assumes r: "no_small_divisor r" and "d dvd r" "1 < d"
  shows "d = r"
proof (rule ccontr)
  assume ne: "d \<noteq> r"
  obtain e where e: "r = d * e" using assms(2) by blast
  note facts = no_small_divisor_facts [OF r]
  have small: "37 \<le> e'" if "e' dvd r" "1 < e'" "e' \<noteq> r" for e'
  proof (rule ccontr)
    assume lt: "\<not> 37 \<le> e'"
    have "e' < r"
      using that facts(1) by (meson dvd_imp_le le_neq_implies_less less_trans zero_less_one)
    moreover have "r mod e' = 0"
      using that(1) by (rule dvd_imp_mod_0)
    ultimately show False
      using facts(3) [of e'] that(2) lt by linarith
  qed
  have e1: "1 < e" "e \<noteq> r"
    using e ne assms(3) facts(1) by (cases "e = 0 \<or> e = 1"; fastforce)+
  have "37 \<le> d" "37 \<le> e"
    using small [of d] small [of e] assms(2,3) ne e e1 by auto
  then have "37 * 37 \<le> r"
    unfolding e by (rule mult_le_mono)
  then show False
    using facts(2) by linarith
qed

lemma no_small_divisor_coprime:
  assumes "no_small_divisor r" "\<not> r dvd k"
  shows "coprime r k"
proof (rule ccontr)
  assume "\<not> coprime r k"
  then have g: "gcd r k \<noteq> 1"
    by (simp add: coprime_iff_gcd_eq_1)
  moreover have "0 < gcd r k"
    using no_small_divisor_facts(1) [OF assms(1)] by simp
  ultimately have "1 < gcd r k" by linarith
  then have "gcd r k = r"
    using no_small_divisorD [OF assms(1), of "gcd r k"] by simp
  then show False
    using assms(2) by (metis gcd_dvd2)
qed

text \<open>Four prime factors of \<open>M61 - 1\<close>, their product and its cofactor.\<close>

definition test_factors :: "nat list" where
  "test_factors = [61, 151, 331, 1321]"

definition test_product :: nat where
  "test_product = 4027518961"

definition test_cofactor :: nat where
  "test_cofactor = 572521950"

lemma test_product_factors: "test_product = 61 * (151 * (331 * 1321))"
  by (simp add: test_product_def)

lemma test_exponent: "test_cofactor * test_product = 2305843009213693950"
  by (simp add: test_cofactor_def test_product_def)

lemma test_factors_prime: "\<forall>r \<in> set test_factors. no_small_divisor r"
  by (simp add: test_factors_def no_small_divisor_def)

lemma test_factors_combine:
  assumes "\<And>r. r \<in> set test_factors \<Longrightarrow> r dvd k"
  shows "test_product dvd k"
proof -
  have "61 dvd k" "151 dvd k" "331 dvd k" "1321 dvd k"
    using assms by (simp_all add: test_factors_def)
  moreover have "coprime 61 (151::nat)" "coprime 61 (331::nat)" "coprime 61 (1321::nat)"
      "coprime 151 (331::nat)" "coprime 151 (1321::nat)" "coprime 331 (1321::nat)"
    using test_factors_prime by (intro no_small_divisor_coprime; simp add: test_factors_def)+
  ultimately show ?thesis
    unfolding test_product_factors by (intro divides_mult coprime_mult_right_iff [THEN iffD2] conjI)
qed

text \<open>The powers of 37: first to the cofactor, then on to the other exponents.\<close>

lemma base_power: "37 ^ test_cofactor mod M61 = 429339995019680672 mod M61"
  by (rule power_mod_digits
    [where bs = "[True, False, False, False, True, False, False, False, False, True, True, True,
     True, True, True, True, True, True, True, True, False, True, True, True, False,
     True, True, True, True, False]"])
    (simp_all add: test_cofactor_def fold61_def M61_numeral)

lemma full_power: "429339995019680672 ^ test_product mod M61 = 1 mod M61"
  by (rule power_mod_digits
    [where bs = "[True, True, True, True, False, False, False, False, False, False, False, False,
     True, True, True, True, False, False, False, False, True, True, True, True, True,
     True, True, True, False, False, False, True]"])
    (simp_all add: test_product_def fold61_def M61_numeral)

lemma power_61: "429339995019680672 ^ (test_product div 61) mod M61 = 35184372088832 mod M61"
  by (rule power_mod_digits
    [where bs = "[True, True, True, True, True, False, True, True, True, True, False, True, True,
     True, False, True, False, True, True, True, False, False, False, True, False,
     True]"])
    (simp_all add: test_product_def fold61_def M61_numeral)

lemma power_151: "429339995019680672 ^ (test_product div 151) mod M61 = 1433721343585656393 mod M61"
  by (rule power_mod_digits
    [where bs = "[True, True, False, False, True, False, True, True, False, True, True, True, True,
     True, True, False, False, True, False, True, True, False, True, True, True]"])
    (simp_all add: test_product_def fold61_def M61_numeral)

lemma power_331: "429339995019680672 ^ (test_product div 331) mod M61 = 185945230422323302 mod M61"
  by (rule power_mod_digits
    [where bs = "[True, False, True, True, True, False, False, True, True, False, True, False,
     True, False, True, False, False, False, True, True, False, False, True, True]"])
    (simp_all add: test_product_def fold61_def M61_numeral)

lemma power_1321: "429339995019680672 ^ (test_product div 1321) mod M61 = 30210013857155493 mod M61"
  by (rule power_mod_digits
    [where bs = "[True, False, True, True, True, False, True, False, False, False, False, True,
     False, True, True, False, False, False, True, False, False, True]"])
    (simp_all add: test_product_def fold61_def M61_numeral)

lemma cofactor_power: "37 ^ (test_cofactor * k) mod M61 = 429339995019680672 ^ k mod M61"
  using base_power by (metis power_mod power_mult)

lemma fermat_test: "37 ^ (test_cofactor * test_product) mod M61 = 1"
  unfolding cofactor_power full_power by (simp add: M61_def)

lemma cofactor_div:
  assumes "r dvd test_product"
  shows "test_cofactor * test_product div r = test_cofactor * (test_product div r)"
  using assms by (simp add: div_mult_swap)

lemma inverse_from_power:
  assumes "37 ^ (test_cofactor * k) mod M61 = v mod M61" and "(v - 1) * u mod M61 = 1"
  shows "((37 ^ (test_cofactor * k) - 1) * u) mod M61 = 1"
  using assms by (metis mod_diff_left_eq mod_mult_left_eq)

lemma proper_test:
  assumes "r \<in> set test_factors"
  shows "\<exists>u. ((37 ^ (test_cofactor * test_product div r) - 1) * u) mod M61 = 1"
proof -
  have d: "test_cofactor * test_product div r = test_cofactor * (test_product div r)"
    using assms by (intro cofactor_div) (auto simp: test_factors_def test_product_def)
  consider "r = 61" | "r = 151" | "r = 331" | "r = 1321"
    using assms by (auto simp: test_factors_def)
  then show ?thesis
  proof cases
    case 1
    show ?thesis
      unfolding d
      by (rule exI [of _ 329365932848850065], rule inverse_from_power [OF trans [OF cofactor_power]],
          unfold \<open>r = 61\<close>, rule power_61)
        (simp add: M61_def)
  next
    case 2
    show ?thesis
      unfolding d
      by (rule exI [of _ 68233547637592170], rule inverse_from_power [OF trans [OF cofactor_power]],
          unfold \<open>r = 151\<close>, rule power_151)
        (simp add: M61_def)
  next
    case 3
    show ?thesis
      unfolding d
      by (rule exI [of _ 1960352316127796739], rule inverse_from_power [OF trans [OF cofactor_power]],
          unfold \<open>r = 331\<close>, rule power_331)
        (simp add: M61_def)
  next
    case 4
    show ?thesis
      unfolding d
      by (rule exI [of _ 2165998172066445805], rule inverse_from_power [OF trans [OF cofactor_power]],
          unfold \<open>r = 1321\<close>, rule power_1321)
        (simp add: M61_def)
  qed
qed

interpretation m61: pocklington_test M61 37 "test_cofactor * test_product" test_product test_factors
proof
  show "M61 = int (test_cofactor * test_product) + 1"
    unfolding test_exponent by (simp add: M61_def)
  show "0 < test_cofactor * test_product"
    unfolding test_exponent by simp
  show "M61 < int test_product * int test_product"
    by (simp add: M61_def test_product_def)
  show "r dvd test_cofactor * test_product" if "r \<in> set test_factors" for r
    using that by (intro dvd_mult) (auto simp: test_factors_def test_product_def)
  show "coprime r k" if "r \<in> set test_factors" "\<not> r dvd k" for r k
    using that test_factors_prime no_small_divisor_coprime by blast
qed (use fermat_test proper_test test_factors_combine in auto)

lemma M61_euclid: "M61 dvd x * y \<longleftrightarrow> M61 dvd x \<or> M61 dvd y"
  using m61.euclid by auto

end
