(* ===== verification/Permutations.thy ===== *)
theory Permutations
  imports Prelude
begin

text \<open>
  The contract of the reversible mixing steps (xor-shift, odd multiplication, xor of a
  constant, xor of rotations): a permutation of the 64-bit words given together with its
  inverse. The short-input hash and the finalizer are clients of it: they need that a step
  never merges two words and reaches every word.
\<close>

locale word_permutation =
  fixes fwd :: "int \<Rightarrow> int" and bwd :: "int \<Rightarrow> int"
  assumes fwd_closed: "u64 x \<Longrightarrow> u64 (fwd x)"
    and bwd_closed: "u64 y \<Longrightarrow> u64 (bwd y)"
    and bwd_fwd: "u64 x \<Longrightarrow> bwd (fwd x) = x"
    and fwd_bwd: "u64 y \<Longrightarrow> fwd (bwd y) = y"
begin

lemma fwd_inj: "\<lbrakk>u64 x; u64 y\<rbrakk> \<Longrightarrow> fwd x = fwd y \<longleftrightarrow> x = y"
  using bwd_fwd by metis

lemma fwd_eq_iff: "\<lbrakk>u64 x; u64 y\<rbrakk> \<Longrightarrow> fwd x = y \<longleftrightarrow> x = bwd y"
  using bwd_fwd fwd_bwd by auto

lemma unique_preimage: "u64 y \<Longrightarrow> \<exists>!x. u64 x \<and> fwd x = y"
  using bwd_closed fwd_bwd bwd_fwd by metis

lemma fwd_bij: "bij_betw fwd (Collect u64) (Collect u64)"
  by (rule bij_betw_byWitness [of _ bwd]) (auto simp: fwd_closed bwd_closed bwd_fwd fwd_bwd)

end

text \<open>Running one permutation after another is a permutation.\<close>

locale word_permutation_pair =
  first: word_permutation f g + second: word_permutation f' g'
  for f g f' g' :: "int \<Rightarrow> int"

sublocale word_permutation_pair \<subseteq> composed: word_permutation "\<lambda>x. f' (f x)" "\<lambda>y. g (g' y)"
  by unfold_locales
    (simp_all add: first.fwd_closed first.bwd_closed first.bwd_fwd first.fwd_bwd
      second.fwd_closed second.bwd_closed second.bwd_fwd second.fwd_bwd)

subsection \<open>The steps\<close>

definition xorshift :: "nat \<Rightarrow> int \<Rightarrow> int" where
  "xorshift k x = x XOR drop_bit k x"

definition unxorshift :: "nat \<Rightarrow> int \<Rightarrow> int" where
  "unxorshift k y = y XOR drop_bit k y XOR drop_bit (2 * k) y"

lemma u64_drop_bit [range_rules]: "u64 x \<Longrightarrow> u64 (drop_bit k x)"
proof -
  assume x: "u64 x"
  then have "x div 2 ^ k \<le> x div 1"
    by (intro zdiv_mono2) (simp_all add: u64_def)
  then show ?thesis
    using x by (simp add: u64_def drop_bit_eq_div pos_imp_zdiv_nonneg_iff)
qed

lemma drop_bit_u64_0: "u64 x \<Longrightarrow> 64 \<le> k \<Longrightarrow> drop_bit k x = 0"
proof -
  assume a: "u64 x" "64 \<le> k"
  have "x < 2 ^ 64"
    using a(1) unfolding u64_def W_def by blast
  also have "\<dots> \<le> 2 ^ k"
    using a(2) by (rule power_increasing) simp
  finally show ?thesis
    using a(1) by (simp add: u64_def drop_bit_eq_div)
qed

lemma xorshift_permutation: "22 \<le> k \<Longrightarrow> word_permutation (xorshift k) (unxorshift k)"
proof
  assume k: "22 \<le> k"
  have z: "u64 x \<Longrightarrow> drop_bit (k + (k + k)) x = 0" for x
    using k by (intro drop_bit_u64_0) auto
  show "u64 (xorshift k x)" if "u64 x" for x
    using that by (auto simp: xorshift_def intro: range_rules)
  show "u64 (unxorshift k x)" if "u64 x" for x
    using that by (auto simp: unxorshift_def intro: range_rules)
  show "unxorshift k (xorshift k x) = x" if "u64 x" for x
    using z [OF that] that
    by (simp add: xorshift_def unxorshift_def drop_bit_xor drop_bit_drop_bit mult_2 add.assoc xor_rules)
  show "xorshift k (unxorshift k x) = x" if "u64 x" for x
    using z [OF that] that
    by (simp add: xorshift_def unxorshift_def drop_bit_xor drop_bit_drop_bit mult_2 add.assoc xor_rules)
qed

definition modmul :: "int \<Rightarrow> int \<Rightarrow> int" where
  "modmul c x = (x * c) mod W"

lemma modmul_permutation:
  assumes "(c * d) mod W = 1"
  shows "word_permutation (modmul c) (modmul d)"
proof
  have inv: "modmul b (modmul a x) = x" if "u64 x" and "(a * b) mod W = 1" for a b x
  proof -
    have "modmul b (modmul a x) = (x * ((a * b) mod W)) mod W"
      by (simp add: modmul_def mod_mult_left_eq mod_mult_right_eq ac_simps)
    then show ?thesis
      using that by (simp add: u64_mod_id)
  qed
  show "modmul d (modmul c x) = x" if "u64 x" for x
    using that assms by (rule inv)
  show "modmul c (modmul d x) = x" if "u64 x" for x
    using that assms by (intro inv) (simp_all add: mult.commute)
qed (simp_all add: modmul_def)

lemma xor_permutation: "u64 a \<Longrightarrow> word_permutation (\<lambda>x. x XOR a) (\<lambda>x. x XOR a)"
  by unfold_locales (auto simp: xor.assoc intro: range_rules)

end
