(* ===== verification/Finalize.thy ===== *)
theory Finalize
  imports Permutations
begin

text \<open>
  The finalizer (\<open>rotl\<close> and \<open>finalize\<close>, \<open>umash_reference.py\<close>) and its inverse
  (\<open>xor_rot2_inv\<close>, \<open>t/test_finalize.py\<close>). The rotation is analysed one bit at a time;
  the inverse is correct because six squarings of the finalizer in characteristic two
  give its 64th power, a sum of three rotations by multiples of 64.
\<close>

definition rotl :: "int \<Rightarrow> nat \<Rightarrow> int" where
  "rotl x count =
     foldl (\<lambda>ret i. let b = drop_bit i x AND 1 in ret OR push_bit ((i + count) mod 64) b)
       0 [0..<64]"

definition finalize :: "int \<Rightarrow> int" where
  "finalize x = x XOR rotl x 8 XOR rotl x 33"

text \<open>One step \<open>x ^ rotl(x, a) ^ rotl(x, b)\<close>, and the six squarings of the test's inverse.\<close>

definition xor_rot2 :: "nat \<Rightarrow> nat \<Rightarrow> int \<Rightarrow> int" where
  "xor_rot2 a b x = x XOR rotl x a XOR rotl x b"

fun xor_rot2_loop :: "nat \<Rightarrow> nat \<Rightarrow> nat \<Rightarrow> int \<Rightarrow> int" where
  "xor_rot2_loop 0 a b x = x"
| "xor_rot2_loop (Suc k) a b x =
     xor_rot2_loop k ((2 * a) mod 64) ((2 * b) mod 64) (xor_rot2 a b x)"

definition xor_rot2_inv :: "int \<Rightarrow> int" where
  "xor_rot2_inv x = xor_rot2_loop 6 8 33 x"

subsection \<open>Bits of a rotation\<close>

lemma bit_rotl_fold:
  "bit (foldl (\<lambda>ret i. let b = drop_bit i x AND 1 in ret OR push_bit ((i + c) mod 64) b)
      (0::int) [0..<k]) j \<longleftrightarrow> (\<exists>i<k. (i + c) mod 64 = j \<and> bit x i)"
proof (induction k)
  case (Suc k)
  have "bit (push_bit ((k + c) mod 64) (drop_bit k x AND 1)) j
      \<longleftrightarrow> (k + c) mod 64 = j \<and> bit x k"
    by (auto simp: bit_simps Let_def)
  with Suc show ?case
    by (auto simp: bit_or_iff Let_def less_Suc_eq)
qed simp

lemma bit_rotl: "bit (rotl x c) j \<longleftrightarrow> (\<exists>i<64. (i + c) mod 64 = j \<and> bit x i)"
  unfolding rotl_def by (rule bit_rotl_fold)

text \<open>Every position is the image of exactly one source position.\<close>

lemma bit_rotl_at: "i < 64 \<Longrightarrow> bit (rotl x c) ((i + c) mod 64) \<longleftrightarrow> bit x i"
proof -
  assume i: "i < 64"
  have "k = i" if k: "k < 64" and eq: "(k + c) mod 64 = (i + c) mod 64" for k
  proof -
    from eq have "(int k + int c) mod 64 = (int i + int c) mod 64"
      by (metis of_nat_add of_nat_mod of_nat_numeral)
    then have "(int k + int c - int c) mod 64 = (int i + int c - int c) mod 64"
      by (rule mod_diff_cong) simp
    then show ?thesis using i k by simp
  qed
  with i show ?thesis
    by (auto simp: bit_rotl)
qed

lemma rotation_source: "j < 64 \<Longrightarrow> \<exists>i<64. (i + c) mod 64 = (j::nat)"
proof (intro exI conjI)
  assume j: "j < 64"
  let ?i = "(j + (64 - c mod 64)) mod 64"
  show "?i < 64" by simp
  have "(?i + c) mod 64 = (j + (64 - c mod 64) + c mod 64) mod 64"
    by (metis mod_add_left_eq mod_add_right_eq)
  also have "j + (64 - c mod 64) + c mod 64 = j + 64"
    by (simp add: less_imp_le)
  finally show "(?i + c) mod 64 = j"
    using j by simp
qed

lemma rotl_nonneg [simp]: "0 \<le> rotl x c"
proof -
  have "\<not> bit (rotl x c) j" if "64 \<le> j" for j
    using that by (auto simp: bit_rotl)
  then have "rotl x c = take_bit 64 (rotl x c)"
    by (intro bit_eqI) (meson bit_take_bit_iff not_le)
  then show ?thesis
    by (metis take_bit_nonnegative)
qed

lemma u64_rotl [range_rules]: "u64 (rotl x c)"
proof -
  have "\<forall>j\<ge>64. \<not> bit (rotl x c) j"
    by (auto simp: bit_rotl)
  then have "rotl x c < 2 ^ 64"
    using less_exp_iff_bits [OF rotl_nonneg, where n = 64] by blast
  then show ?thesis
    by (simp add: u64_def W_def)
qed

text \<open>Two words are equal when they agree at the 64 positions reached by a rotation.\<close>

lemma u64_bit_eqI:
  assumes "u64 x" "u64 y" and eq: "\<And>i. i < 64 \<Longrightarrow> bit x ((i + c) mod 64) \<longleftrightarrow> bit y ((i + c) mod 64)"
  shows "x = y"
proof (rule bit_eqI)
  fix j
  have hi: "\<not> bit x j" "\<not> bit y j" if "64 \<le> j"
    using assms(1,2) that less_exp_iff_bits [of x 64] less_exp_iff_bits [of y 64]
    unfolding u64_def W_def by blast+
  show "bit x j \<longleftrightarrow> bit y j"
  proof (cases "j < 64")
    case True
    then obtain i where "i < 64" "(i + c) mod 64 = j"
      using rotation_source by blast
    then show ?thesis using eq [of i] by simp
  next
    case False
    then show ?thesis using hi by simp
  qed
qed

lemma rotl_xor: "rotl (x XOR y) c = rotl x c XOR rotl y c"
  by (rule u64_bit_eqI [where c = c]) (auto simp: bit_rotl_at bit_xor_iff intro: range_rules)

lemma rotl_rotl: "rotl (rotl x a) b = rotl x (a + b)"
proof (rule u64_bit_eqI [where c = "a + b"])
  fix i :: nat
  assume i: "i < 64"
  have "(i + (a + b)) mod 64 = ((i + a) mod 64 + b) mod 64"
    by (simp add: mod_add_left_eq add.assoc)
  then show "bit (rotl (rotl x a) b) ((i + (a + b)) mod 64)
      \<longleftrightarrow> bit (rotl x (a + b)) ((i + (a + b)) mod 64)"
    using i by (metis bit_rotl_at mod_less_divisor zero_less_numeral)
qed (auto intro: range_rules)

lemma rotl_mod: "rotl x (c mod 64) = rotl x c"
  by (rule u64_bit_eqI [where c = c])
    (metis u64_rotl, metis u64_rotl, metis bit_rotl_at mod_add_right_eq)

lemma rotl_0: "u64 x \<Longrightarrow> rotl x 0 = x"
  by (rule u64_bit_eqI [where c = 0])
    (metis u64_rotl, assumption, metis bit_rotl_at add_0_right mod_less)

lemma rotl_multiple: "u64 x \<Longrightarrow> rotl x (64 * k) = x"
  using rotl_mod [of x "64 * k"] by (simp add: rotl_0)

subsection \<open>The inverse\<close>

text \<open>Squaring a step doubles both rotation counts: the cross terms cancel.\<close>

lemma xor_rot2_square: "xor_rot2 a b (xor_rot2 a b x) = xor_rot2 (2 * a) (2 * b) x"
  by (simp add: xor_rot2_def rotl_xor rotl_rotl mult_2 add.commute xor_rules)

lemma xor_rot2_commute:
  "xor_rot2 a b (xor_rot2 c d x) = xor_rot2 c d (xor_rot2 a b x)"
  by (simp add: xor_rot2_def rotl_xor rotl_rotl add.commute xor_rules)

lemma xor_rot2_mod: "xor_rot2 (a mod 64) (b mod 64) x = xor_rot2 a b x"
  by (simp add: xor_rot2_def rotl_mod)

lemma xor_rot2_loop_commute:
  "xor_rot2_loop k a b (xor_rot2 c d x) = xor_rot2 c d (xor_rot2_loop k a b x)"
  by (induction k a b x rule: xor_rot2_loop.induct) (auto simp: xor_rot2_commute)

text \<open>Applying the step once more before the loop collapses the whole chain.\<close>

lemma xor_rot2_loop_telescope:
  "xor_rot2_loop k a b (xor_rot2 a b x) = xor_rot2 (2 ^ k * a) (2 ^ k * b) x"
proof (induction k arbitrary: a b x)
  case (Suc k)
  have "xor_rot2_loop (Suc k) a b (xor_rot2 a b x)
      = xor_rot2_loop k (2 * a mod 64) (2 * b mod 64)
          (xor_rot2 (2 * a mod 64) (2 * b mod 64) x)"
    by (simp add: xor_rot2_square xor_rot2_mod)
  also have "\<dots> = xor_rot2 (2 ^ k * (2 * a mod 64)) (2 ^ k * (2 * b mod 64)) x"
    by (rule Suc.IH)
  also have "\<dots> = xor_rot2 (2 ^ Suc k * a) (2 ^ Suc k * b) x"
    by (subst (1 2) xor_rot2_mod [symmetric])
      (simp add: mod_mult_right_eq ac_simps)
  finally show ?case .
qed simp

lemma finalize_step: "finalize = xor_rot2 8 33"
  by (simp add: fun_eq_iff finalize_def xor_rot2_def)

lemma xor_rot2_64: "u64 x \<Longrightarrow> xor_rot2 (64 * i) (64 * j) x = x"
  by (simp add: xor_rot2_def rotl_multiple)

lemma u64_xor_rot2 [range_rules]: "u64 x \<Longrightarrow> u64 (xor_rot2 a b x)"
  by (auto simp: xor_rot2_def intro: range_rules)

lemma u64_xor_rot2_loop [range_rules]: "u64 x \<Longrightarrow> u64 (xor_rot2_loop k a b x)"
  by (induction k a b x rule: xor_rot2_loop.induct) (auto intro: range_rules)

lemma xor_rot2_inv_finalize: "u64 x \<Longrightarrow> xor_rot2_inv (finalize x) = x"
  using xor_rot2_loop_telescope [of 6 8 33 x] xor_rot2_64 [of x 8 33]
  by (simp add: xor_rot2_inv_def finalize_step)

interpretation finalizer: word_permutation finalize xor_rot2_inv
proof
  show "finalize (xor_rot2_inv y) = y" if "u64 y" for y
    using xor_rot2_inv_finalize [OF that]
    by (simp add: xor_rot2_inv_def finalize_step xor_rot2_loop_commute)
qed (auto simp: xor_rot2_inv_finalize,
    auto simp: finalize_step xor_rot2_inv_def intro: range_rules)

lemma finalize_xor: "finalize (x XOR y) = finalize x XOR finalize y"
  by (simp add: finalize_def rotl_xor xor_rules)

end
