(* ===== verification/Poly.thy ===== *)
theory Poly
  imports Mersenne Finalize Keys
begin

text \<open>
  The Carter-Wegman polynomial hash (\<open>poly_reduce\<close>, \<open>umash_reference.py\<close>): the
  double-pumped Horner update modulo \<open>W - 8 = 8 * M61\<close> with its assertion, its agreement with
  plain Horner evaluation modulo \<open>M61\<close>, and the bound on the multipliers for which two
  different sequences of values collide. The bound rests on the root bound for polynomials
  over the integers modulo a prime, proved in a locale of its own.
\<close>

subsection \<open>The code\<close>

definition poly_update :: "int \<Rightarrow> int \<Rightarrow> int \<Rightarrow> int \<Rightarrow> int \<Rightarrow> int result" where
  "poly_update multiplier mulsq acc y0 y1 =
     (let reference = multiplier * (acc + y0);
          reference = multiplier * (reference + y1);
          reference = reference mod (2 ^ 61 - 1);
          acc' = (mulsq * (acc + y0) + multiplier * y1) mod (W - 8)
      in py_assert (acc' mod (2 ^ 61 - 1) = reference) (Inr acc'))"

fun poly_reduce_loop :: "int \<Rightarrow> int \<Rightarrow> int \<Rightarrow> int gen \<Rightarrow> int result" where
  "poly_reduce_loop multiplier mulsq acc Done = Inr acc"
| "poly_reduce_loop multiplier mulsq acc (Raise e) = Inl e"
| "poly_reduce_loop multiplier mulsq acc (Yield v g) =
     bind_result (poly_update multiplier mulsq acc (v mod W) (v div W)) (\<lambda>acc'.
       poly_reduce_loop multiplier mulsq acc' g)"

definition poly_reduce :: "int \<Rightarrow> nat \<Rightarrow> int gen \<Rightarrow> int \<Rightarrow> int result" where
  "poly_reduce multiplier input_size compressed_values initial =
     poly_reduce_loop multiplier (multiplier ^ 2 mod (2 ^ 61 - 1)) initial compressed_values"

subsection \<open>The update is a pair of Horner steps\<close>

text \<open>What one update stores, and the accumulator after a list of values.\<close>

definition poly_step :: "int \<Rightarrow> int \<Rightarrow> int \<Rightarrow> int" where
  "poly_step m acc v =
     ((m ^ 2 mod M61) * (acc + v mod W) + m * (v div W)) mod (W - 8)"

definition poly_acc :: "int \<Rightarrow> int \<Rightarrow> int list \<Rightarrow> int" where
  "poly_acc m acc vs = foldl (poly_step m) acc vs"

definition horner :: "int \<Rightarrow> int \<Rightarrow> int list \<Rightarrow> int" where
  "horner m acc ys = foldl (\<lambda>a y. m * (a + y)) acc ys"

fun word_halves :: "int list \<Rightarrow> int list" where
  "word_halves [] = []"
| "word_halves (v # vs) = v mod W # v div W # word_halves vs"

lemma length_word_halves [simp]: "length (word_halves vs) = 2 * length vs"
  by (induction vs) auto

lemma W8_multiple: "W - 8 = M61 * 8"
  by (simp add: W_def M61_def)

lemma W8_pos: "0 < W - 8"
  by (simp add: W_def)

lemma mod_W8_mod_M61: "(x mod (W - 8)) mod M61 = x mod M61"
  unfolding W8_multiple by (simp add: mod_mod_cancel)

lemma poly_step_mod:
  "poly_step m acc v mod M61 = (m * (m * (acc + v mod W) + v div W)) mod M61"
proof -
  have "((m ^ 2 mod M61) * (acc + v mod W) + m * (v div W)) mod M61 =
      (m ^ 2 * (acc + v mod W) + m * (v div W)) mod M61"
    by (metis mod_add_left_eq mod_mult_left_eq)
  also have "m ^ 2 * (acc + v mod W) + m * (v div W) = m * (m * (acc + v mod W) + v div W)"
    by (simp add: power2_eq_square algebra_simps)
  finally show ?thesis
    unfolding poly_step_def mod_W8_mod_M61 .
qed

lemma poly_update_eq:
  "poly_update m (m ^ 2 mod M61) acc (v mod W) (v div W) = Inr (poly_step m acc v)"
  using poly_step_mod [of m acc v]
  unfolding poly_update_def poly_step_def Let_def M61_def [symmetric]
  by (simp only: py_assert_simps simp_thms)

lemma poly_reduce_loop_list:
  "poly_reduce_loop m (m ^ 2 mod M61) acc (gen_of_list vs) = Inr (poly_acc m acc vs)"
  by (induction vs arbitrary: acc) (auto simp: poly_acc_def poly_update_eq)

lemma poly_reduce_eq: "poly_reduce m n (gen_of_list vs) initial = Inr (poly_acc m initial vs)"
  using poly_reduce_loop_list by (simp add: poly_reduce_def M61_def)

lemma poly_reduce_raise: "poly_reduce m n (foldr Yield vs (Raise e)) initial = Inl e"
proof -
  have "poly_reduce_loop m (m ^ 2 mod M61) acc (foldr Yield vs (Raise e)) = Inl e" for acc
    by (induction vs arbitrary: acc) (auto simp: poly_update_eq)
  then show ?thesis
    by (simp add: poly_reduce_def M61_def)
qed

lemma poly_step_range: "0 \<le> poly_step m acc v" "poly_step m acc v < W - 8"
  unfolding poly_step_def using W8_pos by (rule pos_mod_sign, rule pos_mod_bound)

lemma poly_acc_snoc: "poly_acc m acc (vs @ [v]) = poly_step m (poly_acc m acc vs) v"
  by (simp add: poly_acc_def)

lemma poly_acc_range:
  assumes "0 \<le> acc" "acc < W - 8"
  shows "0 \<le> poly_acc m acc vs" "poly_acc m acc vs < W - 8"
  using assms poly_step_range [of m]
  by (cases vs rule: rev_cases; simp add: poly_acc_def)+

lemma horner_cong: "a mod M61 = b mod M61 \<Longrightarrow> horner m a ys mod M61 = horner m b ys mod M61"
proof (induction ys arbitrary: a b)
  case (Cons y ys)
  have "(m * (a + y)) mod M61 = (m * (b + y)) mod M61"
    by (rule mod_mult_cong [OF refl mod_add_cong [OF Cons.prems refl]])
  then show ?case
    using Cons.IH [of "m * (a + y)" "m * (b + y)"] unfolding horner_def foldl.simps by blast
qed (simp add: horner_def)

lemma poly_acc_horner: "poly_acc m acc vs mod M61 = horner m acc (word_halves vs) mod M61"
proof (induction vs arbitrary: acc)
  case (Cons v vs)
  have "poly_acc m acc (v # vs) mod M61 = horner m (poly_step m acc v) (word_halves vs) mod M61"
    using Cons by (simp add: poly_acc_def)
  also have "\<dots> = horner m (m * (m * (acc + v mod W) + v div W)) (word_halves vs) mod M61"
    by (rule horner_cong) (rule poly_step_mod)
  finally show ?case
    by (simp add: horner_def)
qed (simp add: poly_acc_def horner_def)

text \<open>The polynomial as the documentation of the reference writes it, and Horner's rule for it.\<close>

definition cw_polynomial :: "int \<Rightarrow> int list \<Rightarrow> int" where
  "cw_polynomial f ys = (\<Sum>j<length ys. ys ! j * f ^ (length ys - j)) mod M61"

lemma horner_sum: "horner f acc ys = acc * f ^ length ys + (\<Sum>j<length ys. ys ! j * f ^ (length ys - j))"
proof (induction ys arbitrary: acc)
  case (Cons y ys)
  have "horner f acc (y # ys) = horner f (f * (acc + y)) ys"
    by (simp add: horner_def)
  then show ?case
    using Cons by (simp add: sum.lessThan_Suc_shift algebra_simps del: sum.lessThan_Suc)
qed (simp add: horner_def)

lemma poly_acc_cw: "poly_acc f 0 vs mod M61 = cw_polynomial f (word_halves vs)"
  by (simp add: poly_acc_horner horner_sum cw_polynomial_def)

subsection \<open>Roots of polynomials modulo a prime\<close>

text \<open>Polynomials are lists of coefficients, the constant one first.\<close>

fun poly_val :: "int list \<Rightarrow> int \<Rightarrow> int" where
  "poly_val [] x = 0"
| "poly_val (a # cs) x = a + x * poly_val cs x"

text \<open>The quotient of \<open>p(x) - p(c)\<close> by \<open>x - c\<close>.\<close>

fun poly_quot :: "int \<Rightarrow> int list \<Rightarrow> int list" where
  "poly_quot c [] = []"
| "poly_quot c [a] = []"
| "poly_quot c (a # b # cs) = poly_val (b # cs) c # poly_quot c (b # cs)"

lemma length_poly_quot: "length (poly_quot c cs) = length cs - 1"
  by (induction c cs rule: poly_quot.induct) auto

lemma poly_quot: "poly_val cs x - poly_val cs c = (x - c) * poly_val (poly_quot c cs) x"
proof (induction c cs rule: poly_quot.induct)
  case (3 c a b cs)
  have "poly_val (a # b # cs) x - poly_val (a # b # cs) c =
      x * (poly_val (b # cs) x - poly_val (b # cs) c) + (x - c) * poly_val (b # cs) c"
    by (simp add: algebra_simps)
  also have "\<dots> = (x - c) * (poly_val (b # cs) c + x * poly_val (poly_quot c (b # cs)) x)"
    unfolding 3 by (simp add: algebra_simps)
  finally show ?case by simp
qed auto

lemma poly_val_append: "poly_val (xs @ ys) x = poly_val xs x + x ^ length xs * poly_val ys x"
  by (induction xs) (auto simp: algebra_simps)

lemma poly_val_zeros [simp]: "poly_val (replicate n 0) x = 0"
  by (induction n) auto

lemma poly_val_diff:
  "length cs = length ds \<Longrightarrow> poly_val cs x - poly_val ds x = poly_val (map2 (-) cs ds) x"
  by (induction cs ds rule: list_induct2) (auto simp: algebra_simps)

lemma horner_poly_val: "horner m acc ys = poly_val (0 # rev ys) m + acc * m ^ length ys"
proof (induction ys arbitrary: acc)
  case (Cons y ys)
  have "horner m acc (y # ys) = horner m (m * (acc + y)) ys"
    by (simp add: horner_def)
  then show ?case
    using Cons by (simp add: poly_val_append algebra_simps)
qed (simp add: horner_def)

locale prime_modulus =
  fixes N :: int
  assumes gt_one: "1 < N"
    and prime: "N dvd x * y \<longleftrightarrow> N dvd x \<or> N dvd y"
begin

definition roots :: "int list \<Rightarrow> int set" where
  "roots cs = {x. 0 \<le> x \<and> x < N \<and> N dvd poly_val cs x}"

lemma finite_roots [simp]: "finite (roots cs)"
  by (rule finite_subset [of _ "{0..<N}"]) (auto simp: roots_def)

lemma quot_zero:
  assumes "\<forall>a \<in> set (poly_quot c cs). N dvd a" and "N dvd poly_val cs c"
  shows "\<forall>a \<in> set cs. N dvd a"
  using assms
proof (induction c cs rule: poly_quot.induct)
  case (3 c a b cs)
  then have "N dvd poly_val (b # cs) c" and IH: "\<forall>a \<in> set (b # cs). N dvd a"
    by auto
  then have "N dvd c * poly_val (b # cs) c"
    by simp
  then have "N dvd a"
    using 3(3) by (metis dvd_add_left_iff poly_val.simps(2))
  then show ?case using IH by simp
qed auto

lemma roots_quot: "c \<in> roots cs \<Longrightarrow> roots cs \<subseteq> insert c (roots (poly_quot c cs))"
proof
  fix x assume c: "c \<in> roots cs" and x: "x \<in> roots cs"
  then have "N dvd (x - c) * poly_val (poly_quot c cs) x"
    unfolding poly_quot [symmetric] by (auto simp: roots_def)
  then consider "N dvd x - c" | "N dvd poly_val (poly_quot c cs) x"
    using prime by blast
  then show "x \<in> insert c (roots (poly_quot c cs))"
  proof cases
    case 1
    then have "x mod N = c mod N"
      by (simp add: mod_eq_dvd_iff)
    then show ?thesis
      using c x by (simp add: roots_def)
  next
    case 2
    then show ?thesis
      using x by (simp add: roots_def)
  qed
qed

lemma roots_bound:
  assumes "\<exists>a \<in> set cs. \<not> N dvd a"
  shows "card (roots cs) \<le> length cs - 1"
  using assms
proof (induction "length cs" arbitrary: cs rule: less_induct)
  case less
  show ?case
  proof (cases "roots cs = {}")
    case False
    then obtain c where c: "c \<in> roots cs" by blast
    have ex: "\<exists>a \<in> set (poly_quot c cs). \<not> N dvd a"
      using quot_zero [of c cs] c less.prems by (auto simp: roots_def)
    then have "poly_quot c cs \<noteq> []" by auto
    then have len: "length (poly_quot c cs) < length cs" "2 \<le> length cs"
      using length_poly_quot [of c cs] by (simp_all add: length_greater_0_conv [symmetric] del: length_greater_0_conv)
    have "card (roots cs) \<le> card (insert c (roots (poly_quot c cs)))"
      using roots_quot [OF c] by (intro card_mono) auto
    also have "\<dots> \<le> Suc (card (roots (poly_quot c cs)))"
      by (rule card_insert_le_m1) auto
    also have "\<dots> \<le> Suc (length (poly_quot c cs) - 1)"
      using less.hyps [OF len(1) ex] by simp
    finally show ?thesis
      using len(2) by (simp add: length_poly_quot)
  qed simp
qed

text \<open>Multipliers that are not multiples of \<open>N\<close> and make two Horner evaluations agree.\<close>

lemma horner_collisions:
  assumes "length ys = length zs" and "\<exists>j < length ys. ys ! j mod N \<noteq> zs ! j mod N"
  shows "card {m. 0 < m \<and> m < N \<and> N dvd horner m 0 ys - horner m 0 zs} \<le> length ys - 1"
proof -
  let ?d = "map2 (-) (rev ys) (rev zs)"
  have eq: "horner m 0 ys - horner m 0 zs = m * poly_val ?d m" for m
    using poly_val_diff [of "rev ys" "rev zs" m] assms(1)
    by (simp add: horner_poly_val flip: right_diff_distrib)
  have d: "?d = rev (map2 (-) ys zs)"
    using assms(1) by (simp add: zip_rev rev_map)
  have "\<exists>a \<in> set ?d. \<not> N dvd a"
  proof -
    obtain j where j: "j < length ys" "ys ! j mod N \<noteq> zs ! j mod N"
      using assms(2) by blast
    then have "map2 (-) ys zs ! j \<in> set ?d"
      unfolding d set_rev using assms(1) by (intro nth_mem) simp
    moreover have "map2 (-) ys zs ! j = ys ! j - zs ! j"
      using j assms(1) by simp
    moreover have "\<not> N dvd ys ! j - zs ! j"
      using j(2) by (simp add: mod_eq_dvd_iff)
    ultimately show ?thesis
      by metis
  qed
  then have "card (roots ?d) \<le> length ys - 1"
    using roots_bound [of ?d] assms(1) by simp
  moreover have "{m. 0 < m \<and> m < N \<and> N dvd horner m 0 ys - horner m 0 zs} \<subseteq> roots ?d"
    unfolding eq prime by (auto simp: roots_def dest: zdvd_imp_le)
  ultimately show ?thesis
    using card_mono [of "roots ?d"] finite_roots by (meson le_trans)
qed

end

interpretation f61: prime_modulus M61
  by unfold_locales (simp add: M61_numeral, rule M61_euclid)

subsection \<open>Collisions of the polynomial hash\<close>

text \<open>
  Halves are compared modulo \<open>M61\<close>: that is all the polynomial sees of them. A shorter
  sequence counts as one with zeros in front.
\<close>

definition pad_front :: "nat \<Rightarrow> int list \<Rightarrow> int list" where
  "pad_front n ys = replicate (n - length ys) 0 @ ys"

definition distinguishable :: "int list \<Rightarrow> int list \<Rightarrow> bool" where
  "distinguishable vs ws =
     (let n = max (length vs) (length ws) in
      map (\<lambda>y. y mod M61) (pad_front (2 * n) (word_halves vs)) \<noteq>
      map (\<lambda>y. y mod M61) (pad_front (2 * n) (word_halves ws)))"

lemma length_pad_front [simp]: "length ys \<le> n \<Longrightarrow> length (pad_front n ys) = n"
  by (simp add: pad_front_def)

lemma horner_zeros: "horner m 0 (replicate k 0) = 0"
  by (simp add: horner_poly_val)

lemma horner_pad: "horner m 0 (pad_front n ys) = horner m 0 ys"
proof -
  have "horner m 0 (xs @ ys) = horner m (horner m 0 xs) ys" for xs
    by (simp add: horner_def)
  then show ?thesis
    by (simp add: pad_front_def horner_zeros)
qed

lemma poly_collisions:
  assumes "distinguishable vs ws"
  shows "card {m. is_acceptable_multiplier m \<and> poly_acc m 0 vs = poly_acc m 0 ws}
    \<le> 2 * max (length vs) (length ws) - 1"
proof -
  let ?n = "2 * max (length vs) (length ws)"
  let ?ys = "pad_front ?n (word_halves vs)" and ?zs = "pad_front ?n (word_halves ws)"
  have len: "length ?ys = ?n" "length ?zs = ?n"
    by (rule length_pad_front; simp)+
  have "\<exists>j < ?n. ?ys ! j mod M61 \<noteq> ?zs ! j mod M61"
    using assms len unfolding distinguishable_def Let_def
    by (auto simp: list_eq_iff_nth_eq)
  then have bound: "card {m. 0 < m \<and> m < M61 \<and> M61 dvd horner m 0 ?ys - horner m 0 ?zs} \<le> ?n - 1"
    using f61.horner_collisions [of ?ys ?zs] len by simp
  have "M61 dvd horner m 0 ?ys - horner m 0 ?zs" if "poly_acc m 0 vs = poly_acc m 0 ws" for m
    using that poly_acc_horner [of m 0 vs] poly_acc_horner [of m 0 ws]
    unfolding horner_pad by (metis mod_eq_dvd_iff)
  then have sub: "{m. is_acceptable_multiplier m \<and> poly_acc m 0 vs = poly_acc m 0 ws} \<subseteq>
      {m. 0 < m \<and> m < M61 \<and> M61 dvd horner m 0 ?ys - horner m 0 ?zs}"
    by (auto simp: is_acceptable_multiplier_def M61_def)
  have "finite {m. 0 < m \<and> m < M61 \<and> M61 dvd horner m 0 ?ys - horner m 0 ?zs}"
    by (rule finite_subset [of _ "{0..<M61}"]) auto
  from card_mono [OF this sub] bound show ?thesis by simp
qed

end
