(* ===== verification/Truncation.thy ===== *)
theory Truncation
  imports Compression Poly
begin

text \<open>
  What the polynomial hash sees of a compressed value: its two halves modulo \<open>2 ** 61 - 1\<close>. Two
  values that agree there differ by an exclusive or from a fixed set of at most \<open>2 ** 24\<close> values,
  and at most 81 values agree with a given one. Both counts turn the bounds of the mixers into
  bounds for the truncated values.
\<close>

definition halves_agree :: "int \<Rightarrow> int \<Rightarrow> bool" where
  "halves_agree v w \<longleftrightarrow> v mod W mod M61 = w mod W mod M61 \<and> v div W mod M61 = w div W mod M61"

lemma halves_agree_refl [simp]: "halves_agree v v"
  by (simp add: halves_agree_def)

lemma halves_agree_commute: "halves_agree v w \<longleftrightarrow> halves_agree w v"
  by (auto simp: halves_agree_def)

subsection \<open>Halves of an exclusive or\<close>

definition u128 :: "int \<Rightarrow> bool" where
  "u128 v \<longleftrightarrow> 0 \<le> v \<and> v < W * W"

lemma W_shift: "x mod W = take_bit 64 x" "x div W = drop_bit 64 x"
  by (simp_all add: W_def take_bit_eq_mod drop_bit_eq_div)

lemma xor_mod_W: "(x XOR y) mod W = x mod W XOR y mod W"
  and xor_div_W: "(x XOR y) div W = x div W XOR y div W"
  unfolding W_shift by (rule take_bit_xor, rule drop_bit_xor)

lemma u128_div: "u128 v \<Longrightarrow> u64 (v div W)"
  using div_less_of_less_mult [of v W W] by (simp add: u128_def u64_def pos_imp_zdiv_nonneg_iff)

lemma u128_xor [range_rules]: "u128 v \<Longrightarrow> u128 w \<Longrightarrow> u128 (v XOR w)"
proof -
  have "W * W = 2 ^ 128" by (simp add: W_def)
  then show "u128 v \<Longrightarrow> u128 w \<Longrightarrow> u128 (v XOR w)"
    unfolding u128_def by (metis xor_less_exp xor_nonneg)
qed

lemma ph_range_u128: "v \<in> ph_range \<Longrightarrow> u128 v"
  by (simp add: ph_range_def u128_def W_def)

subsection \<open>Differences of congruent words\<close>

lemma successor_mask: "0 \<le> n \<Longrightarrow> \<exists>j. (n::int) XOR (n + 1) = 2 ^ j - 1"
proof (induction "nat n" arbitrary: n rule: less_induct)
  case less
  show ?case
  proof (cases "even n")
    case True
    then have "n XOR (n + 1) = 1"
      by (simp add: xor_int_rec [of n])
    then show ?thesis by (intro exI [of _ 1]) simp
  next
    case False
    then obtain m where m: "n = 2 * m + 1" by (elim oddE)
    then obtain j where j: "m XOR (m + 1) = 2 ^ j - 1"
      using less.hyps [of m] less.prems by auto
    have "n XOR (n + 1) = 2 * (m XOR (m + 1)) + 1"
      unfolding m by (subst xor_int_rec) (simp add: add.commute)
    then show ?thesis
      unfolding j by (intro exI [of _ "Suc j"]) simp
  qed
qed

lemma mask_exponent: "(2::int) ^ j - 1 < 2 ^ k \<Longrightarrow> j \<le> k"
proof (rule ccontr)
  assume a: "(2::int) ^ j - 1 < 2 ^ k" "\<not> j \<le> k"
  then have "(2::int) ^ Suc k \<le> 2 ^ j"
    by (intro power_increasing) simp_all
  moreover have "(1::int) \<le> 2 ^ k"
    by simp
  ultimately show False
    using a(1) unfolding power_Suc by linarith
qed

lemma near_eighths:
  "\<lbrakk>(x::int) \<le> y + 7; y \<le> x + 7\<rbrakk> \<Longrightarrow>
     x div 8 = y div 8 \<or> x div 8 = y div 8 + 1 \<or> y div 8 = x div 8 + 1"
  by linarith

lemma end_eighths:
  "\<lbrakk>0 \<le> (x::int); x \<le> 7\<rbrakk> \<Longrightarrow> x div 8 = 0"
  "\<lbrakk>2 ^ 61 - 8 \<le> (x::int); x < 2 ^ 61\<rbrakk> \<Longrightarrow> x div 8 = 2 ^ 58 - 1"
  by simp_all

lemma carry_cases:
  fixes h l h' l' c :: int
  assumes eq: "h + l = h' + l' + c * M61" and high: "0 \<le> h" "h \<le> 7" "0 \<le> h'" "h' \<le> 7"
    and low: "0 \<le> l" "l < 2 ^ 61" "0 \<le> l'" "l' < 2 ^ 61"
  shows "l \<le> l' + 7 \<and> l' \<le> l + 7 \<or> l \<le> 7 \<and> 2 ^ 61 - 8 \<le> l' \<or> l' \<le> 7 \<and> 2 ^ 61 - 8 \<le> l"
proof -
  have "c = 0 \<or> c = 1 \<or> c = - 1"
    using eq high low unfolding M61_def by simp linarith
  then show ?thesis
    using eq high low by (elim disjE) (simp_all add: M61_def)
qed

text \<open>Congruent words agree, up to a carry, between the low three and the high three bits.\<close>

lemma congruent_words_low:
  assumes "u64 z" "u64 w" "z mod M61 = w mod M61"
  defines "l \<equiv> z mod 2 ^ 61 div 8" and "k \<equiv> w mod 2 ^ 61 div 8"
  shows "l = k \<or> l = k + 1 \<or> k = l + 1 \<or> {l, k} = {0, 2 ^ 58 - 1}"
proof -
  let ?zh = "z div 2 ^ 61" and ?zl = "z mod 2 ^ 61" and ?wh = "w div 2 ^ 61" and ?wl = "w mod 2 ^ 61"
  have split: "x = x div 2 ^ 61 * M61 + (x div 2 ^ 61 + x mod 2 ^ 61)" for x
    using div_mult_mod_eq [of x "2 ^ 61"] by (simp add: M61_def)
  have "(x div 2 ^ 61 * M61 + (x div 2 ^ 61 + x mod 2 ^ 61)) mod M61 =
      (x div 2 ^ 61 + x mod 2 ^ 61) mod M61" for x
    by (rule mod_mult_self3)
  then have "(?zh + ?zl) mod M61 = (?wh + ?wl) mod M61"
    using assms(3) split by metis
  then obtain c where c: "?zh + ?zl = ?wh + ?wl + c * M61"
    by (metis mod_eqE mult.commute)
  have high: "0 \<le> ?zh" "?zh \<le> 7" "0 \<le> ?wh" "?wh \<le> 7"
    using assms(1,2) by (auto simp: u64_def W_def)
  have low: "0 \<le> ?zl" "?zl < 2 ^ 61" "0 \<le> ?wl" "?wl < 2 ^ 61"
    by simp_all
  from carry_cases [OF c high low] show ?thesis
  proof (elim disjE conjE)
    assume "?zl \<le> ?wl + 7" "?wl \<le> ?zl + 7"
    then show ?thesis
      using near_eighths unfolding l_def k_def by blast
  next
    assume "?zl \<le> 7" "2 ^ 61 - 8 \<le> ?wl"
    then have "l = 0" "k = 2 ^ 58 - 1"
      unfolding l_def k_def using low by (blast intro: end_eighths)+
    then show ?thesis by blast
  next
    assume "?wl \<le> 7" "2 ^ 61 - 8 \<le> ?zl"
    then have "k = 0" "l = 2 ^ 58 - 1"
      unfolding l_def k_def using low by (blast intro: end_eighths)+
    then show ?thesis by blast
  qed
qed

lemma congruent_words_mask:
  assumes "u64 z" "u64 w" "z mod M61 = w mod M61"
  obtains j where "j \<le> 58" "(z XOR w) mod 2 ^ 61 div 8 = 2 ^ j - 1"
proof -
  let ?l = "z mod 2 ^ 61 div 8" and ?k = "w mod 2 ^ 61 div 8"
  have range: "0 \<le> ?l" "?l < 2 ^ 58" "0 \<le> ?k" "?k < 2 ^ 58"
    by simp_all
  have eq: "(z XOR w) mod 2 ^ 61 div 8 = ?l XOR ?k"
    using take_bit_xor [of 61 z w] drop_bit_xor [of 3 "take_bit 61 z" "take_bit 61 w"]
    by (simp add: take_bit_eq_mod drop_bit_eq_div)
  have "\<exists>j. ?l XOR ?k = 2 ^ j - 1"
    using congruent_words_low [OF assms]
  proof (elim disjE)
    assume "?l = ?k"
    then show ?thesis by (intro exI [of _ 0]) simp
  next
    assume "?l = ?k + 1"
    then show ?thesis
      using successor_mask [OF range(3)] by (simp add: xor.commute)
  next
    assume "?k = ?l + 1"
    then show ?thesis
      using successor_mask [OF range(1)] by simp
  next
    assume "{?l, ?k} = {0, 2 ^ 58 - 1}"
    then show ?thesis
      by (intro exI [of _ 58]) (auto simp: doubleton_eq_iff)
  qed
  then obtain j where j: "?l XOR ?k = 2 ^ j - 1" by blast
  moreover have "?l XOR ?k < 2 ^ 58"
    by (rule xor_less_exp [OF range])
  ultimately show ?thesis
    using that [of j] mask_exponent [of j 58] eq by simp
qed

definition word_masks :: "int set" where
  "word_masks = {z XOR w | z w. u64 z \<and> u64 w \<and> z mod M61 = w mod M61}"

lemma word_masks_image:
  "word_masks \<subseteq> (\<lambda>(h, j, l). h * 2 ^ 61 + (2 ^ j - 1) * 8 + l) ` ({0..<8} \<times> {..58} \<times> {0..<8})"
proof
  fix m assume "m \<in> word_masks"
  then obtain z w where zw: "m = z XOR w" "u64 z" "u64 w" "z mod M61 = w mod M61"
    by (auto simp: word_masks_def)
  obtain j where j: "j \<le> 58" "m mod 2 ^ 61 div 8 = 2 ^ j - 1"
    using congruent_words_mask [OF zw(2-4)] zw(1) by blast
  have "m = m div 2 ^ 61 * 2 ^ 61 + (m mod 2 ^ 61 div 8 * 8 + m mod 2 ^ 61 mod 8)"
    by simp
  then have "m = m div 2 ^ 61 * 2 ^ 61 + (2 ^ j - 1) * 8 + m mod 8"
    unfolding j(2) by (simp add: mod_mod_cancel)
  moreover have "u64 m"
    using zw by (simp add: u64_xor)
  then have "m div 2 ^ 61 \<in> {0..<8}" "m mod 8 \<in> {0..<8}"
    by (auto simp: u64_def W_def)
  ultimately show "m \<in> (\<lambda>(h, j, l). h * 2 ^ 61 + (2 ^ j - 1) * 8 + l) ` ({0..<8} \<times> {..58} \<times> {0..<8})"
    using j(1) by (intro rev_image_eqI [of "(m div 2 ^ 61, j, m mod 8)"]) simp_all
qed

lemma word_masks: "finite word_masks" "card word_masks \<le> 2 ^ 12"
proof -
  let ?A = "{0..<8::int} \<times> {..58::nat} \<times> {0..<8::int}"
  have fin: "finite ?A" by simp
  show "finite word_masks"
    by (rule finite_subset [OF word_masks_image]) simp
  have "card word_masks \<le> card ?A"
    using card_mono [OF finite_imageI [OF fin] word_masks_image] card_image_le [OF fin] le_trans by blast
  then show "card word_masks \<le> 2 ^ 12"
    by (simp add: card_cartesian_product)
qed

definition value_masks :: "int set" where
  "value_masks = (\<lambda>(h, l). h * W + l) ` (word_masks \<times> word_masks)"

lemma value_masks: "finite value_masks" "card value_masks \<le> 2 ^ 24"
proof -
  show "finite value_masks"
    by (simp add: value_masks_def word_masks)
  have "card value_masks \<le> card (word_masks \<times> word_masks)"
    unfolding value_masks_def by (rule card_image_le) (simp add: word_masks)
  also have "\<dots> \<le> 2 ^ 12 * 2 ^ 12"
    unfolding card_cartesian_product using word_masks(2) by (intro mult_le_mono) simp_all
  finally show "card value_masks \<le> 2 ^ 24" by simp
qed

lemma agree_mask:
  assumes "u128 v" "u128 w" "halves_agree v w"
  shows "v XOR w \<in> value_masks"
proof -
  have "(v XOR w) mod W \<in> word_masks" "(v XOR w) div W \<in> word_masks"
    using assms u128_div [OF assms(1)] u128_div [OF assms(2)] u64_mod
    unfolding xor_mod_W xor_div_W word_masks_def halves_agree_def by blast+
  moreover have "v XOR w = (v XOR w) div W * W + (v XOR w) mod W"
    by simp
  ultimately show ?thesis
    unfolding value_masks_def by (intro rev_image_eqI [of "((v XOR w) div W, (v XOR w) mod W)"]) simp_all
qed

subsection \<open>Values that agree with a given one\<close>

lemma congruent_words: "card {z. u64 z \<and> z mod M61 = c} \<le> 9" "finite {z. u64 z \<and> z mod M61 = c}"
proof -
  have sub: "{z. u64 z \<and> z mod M61 = c} \<subseteq> (\<lambda>k. int k * M61 + c) ` {..<9}"
  proof
    fix z assume z: "z \<in> {z. u64 z \<and> z mod M61 = c}"
    then have "0 \<le> z div M61" "z div M61 < 9"
      by (auto simp: u64_def W_def M61_def)
    moreover have "z = z div M61 * M61 + c"
      using z by (auto simp: div_mult_mod_eq)
    ultimately show "z \<in> (\<lambda>k. int k * M61 + c) ` {..<9}"
      by (intro rev_image_eqI [of "nat (z div M61)"]) simp_all
  qed
  then show "finite {z. u64 z \<and> z mod M61 = c}"
    by (rule finite_subset) simp
  have "card {z. u64 z \<and> z mod M61 = c} \<le> card ((\<lambda>k. int k * M61 + c) ` {..<9})"
    by (rule card_mono [OF _ sub]) simp
  also have "\<dots> \<le> 9"
    by (rule order_trans [OF card_image_le]) simp_all
  finally show "card {z. u64 z \<and> z mod M61 = c} \<le> 9" .
qed

definition agreeing :: "int \<Rightarrow> int set" where
  "agreeing w = {v. u128 v \<and> halves_agree v w}"

lemma agreeing: "finite (agreeing w)" "card (agreeing w) \<le> 81"
proof -
  let ?H = "\<lambda>c. {z. u64 z \<and> z mod M61 = c}"
  let ?A = "?H (w div W mod M61) \<times> ?H (w mod W mod M61)"
  have fin: "finite ?A"
    using congruent_words(2) by simp
  have sub: "agreeing w \<subseteq> (\<lambda>(h, l). h * W + l) ` ?A"
  proof
    fix v assume "v \<in> agreeing w"
    then have "(v div W, v mod W) \<in> ?A"
      using u128_div by (simp add: agreeing_def halves_agree_def)
    then show "v \<in> (\<lambda>(h, l). h * W + l) ` ?A"
      by (rule rev_image_eqI) simp
  qed
  show "finite (agreeing w)"
    using finite_subset [OF sub] fin by simp
  have "card (agreeing w) \<le> card ?A"
    using card_mono [OF finite_imageI [OF fin] sub] card_image_le [OF fin] le_trans by blast
  also have "\<dots> \<le> 9 * 9"
    unfolding card_cartesian_product using congruent_words(1) by (intro mult_le_mono)
  finally show "card (agreeing w) \<le> 81" by simp
qed

end
