(* ===== verification/Truncated.thy ===== *)
theory Truncated
  imports Truncation
begin

text \<open>
  Collisions of the block compressors after truncation: the bounds on the keys for which the halves
  of two compressed blocks agree modulo \<open>2 ** 61 - 1\<close>, which is where the polynomial hash can no
  longer tell the blocks apart.
\<close>

subsection \<open>Ranges\<close>

lemma ph_u128: "\<lbrakk>u64 (xa XOR ka); u64 (xb XOR kb)\<rbrakk> \<Longrightarrow> ph ka kb xa xb \<in> ph_range"
  using gfmul_nonneg [of "xb XOR kb"] gfmul_less [of "xb XOR kb"] unfolding ph_def ph_range_def by blast

lemma u128_lanes: "\<lbrakk>u64 l; u64 h\<rbrakk> \<Longrightarrow> u128 (l + W * h)"
proof -
  assume "u64 l" "u64 h"
  then have "0 \<le> l" "l < W" "0 \<le> h" "W * h \<le> W * (W - 1)"
    by (simp_all add: u64_def)
  moreover have "0 \<le> W * h"
    using \<open>0 \<le> h\<close> by (simp add: W_def)
  ultimately show "u128 (l + W * h)"
    unfolding u128_def right_diff_distrib by linarith
qed

lemma fold_low_u128: "u128 e \<Longrightarrow> u128 (fold_low e)"
  using u128_lanes [of 0 "e mod W"] unfolding fold_low_def
  by (intro u128_xor) (simp_all add: mult.commute u64_def [of 0])

lemma enh_u128: "u128 (enh t ka kb xa xb)"
  unfolding enh_def by (rule fold_low_u128) (simp add: u128_def W_def)

lemma shuffler_u128 [range_rules]: "u128 x \<Longrightarrow> u128 (shuffler n i x)"
  by (auto simp: shuffler_def pshift_def intro!: u128_xor u128_lanes)

lemma xor_upto_u128: "(\<And>p. p < n \<Longrightarrow> u128 (f p)) \<Longrightarrow> u128 (xor_upto n f)"
  by (induction n) (simp_all add: u128_xor u128_def [of 0] W_def)

lemma mixed_u128:
  assumes "block_ok x" "ks \<in> keys 34" "p < length x"
  shows "u128 (mixed_at ks t x p)"
proof -
  have "u64 (ks ! (2 * p))" "u64 (ks ! (2 * p + 1))"
    using assms pair_in_range [OF assms(1,3,2)] by (simp_all add: keys_def)
  then show ?thesis
    using chunk_words(1,2) [OF chunk_at_ok chunk_at_ok, OF assms(1,3) assms(1,3)]
    by (simp add: mixed_at_def enh_u128 ph_range_u128 ph_u128 u64_xor)
qed

lemma compressor_u128:
  assumes "block_ok x" "ks \<in> keys 34"
  shows "u128 (primary_at ks t x)" "u128 (shuffled_at ks t x)" "u128 (secondary_at ks t x)"
proof -
  show p: "u128 (primary_at ks t x)" and s: "u128 (shuffled_at ks t x)"
    unfolding primary_at_def shuffled_at_def
    by (intro xor_upto_u128 shuffler_u128 mixed_u128 [OF assms]; assumption)+
  have "u64 (ks ! 32)" "u64 (ks ! 33)"
    using assms(2) by (simp_all add: keys_def)
  then show "u128 (secondary_at ks t x)"
    unfolding secondary_at_def
    using check_u64 [OF assms] by (intro u128_xor [OF _ s] ph_range_u128 ph_u128 u64_xor) simp_all
qed

subsection \<open>Agreement with a value that does not depend on a pair of key words\<close>

lemma xor_image: "finite A \<Longrightarrow> card ((\<lambda>v. v XOR (c::int)) ` A) = card A"
  by (intro card_image inj_onI) simp

lemma card_agreeing_values:
  assumes "\<And>v. card (pairs (\<lambda>a b. f a b = v)) \<le> 2 ^ 65"
  shows "card (pairs (\<lambda>a b. f a b XOR r \<in> agreeing w)) \<le> 2 ^ (128 - 56)"
proof -
  let ?S = "(\<lambda>v. v XOR r) ` agreeing w"
  have "f a b \<in> ?S" if "f a b XOR r \<in> agreeing w" for a b
    using that by (intro rev_image_eqI [of "f a b XOR r"]) (simp_all add: xor.assoc)
  then have "card (pairs (\<lambda>a b. f a b XOR r \<in> agreeing w)) \<le> card (pairs (\<lambda>a b. f a b \<in> ?S))"
    by (intro card_pairs_mono)
  also have "\<dots> \<le> card ?S * 2 ^ 65"
    by (intro card_pairs_values assms finite_imageI agreeing(1))
  also have "\<dots> \<le> 81 * 2 ^ 65"
    using agreeing(2) [of w] by (intro mult_right_mono) (simp_all add: xor_image agreeing(1))
  finally show ?thesis by simp
qed

lemma primary_agrees_with:
  assumes ok: "block_ok x" and g: "\<And>ks a b. g (set_pair (length x - 1) a b ks) = g ks"
  shows "rare 34 56 (\<lambda>ks. halves_agree (primary_at ks t x) (g ks))"
proof (rule rare_fibre [OF last_words(3) [OF ok]])
  fix ks assume ks: "ks \<in> keys 34"
  let ?q = "length x - 1"
  let ?r = "xor_upto (length x) ((mixed_at ks t x)(?q := 0))"
  have "card (pairs (\<lambda>a b. halves_agree (primary_at (set_pair ?q a b ks) t x) (g (set_pair ?q a b ks)))) \<le>
      card (pairs (\<lambda>a b. enh t a b (lo_word (x ! ?q)) (hi_word (x ! ?q)) XOR ?r \<in> agreeing (g ks)))"
    using compressor_u128(1) [OF ok set_pair_keys [OF ks]]
    by (intro card_pairs_mono) (simp add: agreeing_def g del: One_nat_def flip: primary_own [OF ok ks])
  also have "\<dots> \<le> 2 ^ (128 - 56)"
    by (intro card_agreeing_values enh.spread last_words ok)
  finally show "card (pairs (\<lambda>a b. halves_agree (primary_at (set_pair ?q a b ks) t x)
      (g (set_pair ?q a b ks)))) \<le> 2 ^ (128 - 56)" .
qed simp

lemma ph_values:
  assumes u: "u64 xa" "u64 xb"
  shows "card (pairs (\<lambda>ka kb. ph ka kb xa xb = v)) \<le> 2 ^ 65"
proof -
  let ?z = "\<lambda>ka. xa XOR ka = 0"
  have zero: "card (pairs (\<lambda>ka kb. ?z ka)) \<le> 2 ^ 64"
    by (intro card_pairs_partner') simp
  have "b = b'" if h: "u64 a" "u64 b" "u64 b'" "ph a b xa xb = v \<and> \<not> ?z a" "ph a b' xa xb = v \<and> \<not> ?z a"
    for a b b'
  proof -
    have "gfmul (xa XOR a) (xb XOR b) = gfmul (xa XOR a) (xb XOR b')"
      using h(4,5) by (simp add: ph_def)
    then have "xb XOR b = xb XOR b'"
      using gfmul_inj_right [of "xa XOR a" "xb XOR b" "xb XOR b'"] h u by (simp add: u64_xor)
    then show ?thesis by simp
  qed
  then have nonzero: "card (pairs (\<lambda>ka kb. ph ka kb xa xb = v \<and> \<not> ?z ka)) \<le> 2 ^ 64"
    by (intro card_pairs_partner) blast
  have "pairs (\<lambda>ka kb. ph ka kb xa xb = v) \<subseteq>
      pairs (\<lambda>ka kb. ?z ka) \<union> pairs (\<lambda>ka kb. ph ka kb xa xb = v \<and> \<not> ?z ka)"
    by (auto simp: pairs_def)
  then have "card (pairs (\<lambda>ka kb. ph ka kb xa xb = v)) \<le>
      card (pairs (\<lambda>ka kb. ?z ka)) + card (pairs (\<lambda>ka kb. ph ka kb xa xb = v \<and> \<not> ?z ka))"
    by (rule order_trans [OF card_mono card_Un_le, rotated]) simp
  then show ?thesis
    using zero nonzero by simp
qed

lemma secondary_agrees_with:
  assumes ok: "block_ok x" and g: "\<And>ks a b. g (set_pair 16 a b ks) = g ks"
  shows "rare 34 56 (\<lambda>ks. halves_agree (secondary_at ks t x) (g ks))"
proof (rule rare_fibre [of 16])
  fix ks assume ks: "ks \<in> keys 34"
  have "card (pairs (\<lambda>a b. halves_agree (secondary_at (set_pair 16 a b ks) t x) (g (set_pair 16 a b ks)))) \<le>
      card (pairs (\<lambda>a b. ph a b (check_lo ks x) (check_hi ks x) XOR shuffled_at ks t x \<in> agreeing (g ks)))"
    using compressor_u128(3) [OF ok set_pair_keys [OF ks]]
    by (intro card_pairs_mono) (simp add: agreeing_def g flip: secondary_own [OF ok ks])
  also have "\<dots> \<le> 2 ^ (128 - 56)"
    by (intro card_agreeing_values ph_values check_u64 [OF ok ks])
  finally show "card (pairs (\<lambda>a b. halves_agree (secondary_at (set_pair 16 a b ks) t x)
      (g (set_pair 16 a b ks)))) \<le> 2 ^ (128 - 56)" .
qed simp_all

subsection \<open>Blocks that differ in a chunk that \<open>PH\<close> mixes\<close>

definition shifted_masks :: "int \<Rightarrow> int set" where
  "shifted_masks c = (\<lambda>v. v XOR c) ` value_masks"

lemma shifted_masks: "finite (shifted_masks c)" "card (shifted_masks c) \<le> 2 ^ 24"
  using value_masks by (simp_all add: shifted_masks_def xor_image)

lemma in_shifted_masks: "d \<in> shifted_masks c \<longleftrightarrow> d XOR c \<in> value_masks"
proof
  assume "d XOR c \<in> value_masks"
  then show "d \<in> shifted_masks c"
    unfolding shifted_masks_def by (rule rev_image_eqI) (simp add: xor.assoc)
qed (auto simp: shifted_masks_def xor.assoc)

lemma primary_xor:
  "length x = length y \<Longrightarrow>
     primary_at ks t x XOR primary_at ks t' y = xor_upto (length x) (delta t t' x y ks)"
  using xor_upto_xor [of "length x" "mixed_at ks t x" "mixed_at ks t' y"]
  by (simp add: primary_at_def delta_fun)

lemma shuffled_xor:
  "length x = length y \<Longrightarrow>
     shuffled_at ks t x XOR shuffled_at ks t' y =
     xor_upto (length x) (\<lambda>p. shuffler (length x) (p + 1) (delta t t' x y ks p))"
  using xor_upto_xor [of "length x" "\<lambda>p. shuffler (length x) (p + 1) (mixed_at ks t x p)"
      "\<lambda>p. shuffler (length x) (p + 1) (mixed_at ks t' y p)"]
  by (simp add: shuffled_at_def delta_def shuffler_xor)

lemma primary_ph_agree:
  assumes al: "aligned x y" and p: "p + 1 < length x" "x ! p \<noteq> y ! p"
  shows "rare 34 40 (\<lambda>ks. halves_agree (primary_at ks t x) (primary_at ks t' y))"
proof (rule rare_fibre [of p])
  have ok: "block_ok x" "block_ok y" "length x = length y" "p < length x"
    using al p by (simp_all add: aligned_def)
  show "2 * p + 1 < 34"
    using position_in_key [OF ok(1,4)] .
  fix ks assume ks: "ks \<in> keys 34"
  let ?d = "delta t t' x y"
  let ?r = "xor_upto (length x) ((?d ks)(p := 0))"
  have split: "primary_at (set_pair p a b ks) t x XOR primary_at (set_pair p a b ks) t' y =
      ?d (set_pair p a b ks) p XOR ?r" for a b
  proof -
    have "xor_upto (length x) ((?d (set_pair p a b ks))(p := 0)) = ?r"
      by (rule xor_upto_cong) simp
    then show ?thesis
      using xor_upto_split [OF ok(4), of "?d (set_pair p a b ks)"] by (simp add: primary_xor [OF ok(3)])
  qed
  have "card (pairs (\<lambda>a b. halves_agree (primary_at (set_pair p a b ks) t x) (primary_at (set_pair p a b ks) t' y)))
      \<le> card (pairs (\<lambda>a b. ?d (set_pair p a b ks) p \<in> shifted_masks ?r))"
    using agree_mask [OF compressor_u128(1) [OF ok(1) set_pair_keys [OF ks]]
        compressor_u128(1) [OF ok(2) set_pair_keys [OF ks]]]
    by (intro card_pairs_mono) (simp add: in_shifted_masks flip: split)
  also have "\<dots> \<le> card (shifted_masks ?r) * 2 ^ 64"
    by (rule delta_ph_values [OF al p ks shifted_masks(1)])
  also have "\<dots> \<le> 2 ^ 24 * 2 ^ 64"
    using shifted_masks(2) by (rule mult_right_mono) simp
  finally show "card (pairs (\<lambda>a b. halves_agree (primary_at (set_pair p a b ks) t x)
      (primary_at (set_pair p a b ks) t' y))) \<le> 2 ^ (128 - 40)"
    by simp
qed simp

lemma card_shuffler_preimages:
  assumes "i < n" "finite M"
  shows "card {d \<in> ph_range. shuffler n i d \<in> M} \<le> card M * 2"
proof -
  have "{d \<in> ph_range. shuffler n i d \<in> M} = (\<Union>v \<in> M. {d \<in> ph_range. shuffler n i d = v})"
    by blast
  then have "card {d \<in> ph_range. shuffler n i d \<in> M} \<le> (\<Sum>v \<in> M. card {d \<in> ph_range. shuffler n i d = v})"
    using card_UN_le [OF assms(2)] by simp
  also have "\<dots> \<le> (\<Sum>v \<in> M. 2)"
    by (intro sum_mono card_shuffler_preimage [OF assms(1)])
  finally show ?thesis by simp
qed

lemma shuffled_ph_agree:
  assumes al: "aligned x y" and p: "p + 1 < length x" "x ! p \<noteq> y ! p"
  shows "rare 34 39 (\<lambda>ks. shuffled_at ks t x XOR shuffled_at ks t' y \<in> value_masks)"
proof (rule rare_fibre [of p])
  have ok: "block_ok x" "length x = length y" "p < length x"
    using al p by (simp_all add: aligned_def)
  show "2 * p + 1 < 34"
    using position_in_key [OF ok(1,3)] .
  fix ks assume ks: "ks \<in> keys 34"
  let ?d = "delta t t' x y" and ?n = "length x"
  let ?s = "\<lambda>ks k. shuffler ?n (k + 1) (?d ks k)"
  let ?r = "xor_upto ?n ((?s ks)(p := 0))"
  let ?D = "{d \<in> ph_range. shuffler ?n (p + 1) d \<in> shifted_masks ?r}"
  have split: "shuffled_at (set_pair p a b ks) t x XOR shuffled_at (set_pair p a b ks) t' y =
      ?s (set_pair p a b ks) p XOR ?r" for a b
  proof -
    have "xor_upto ?n ((?s (set_pair p a b ks))(p := 0)) = ?r"
      by (rule xor_upto_cong) simp
    then show ?thesis
      using xor_upto_split [OF ok(3), of "?s (set_pair p a b ks)"] by (simp add: shuffled_xor [OF ok(2)])
  qed
  have "card (pairs (\<lambda>a b. shuffled_at (set_pair p a b ks) t x XOR shuffled_at (set_pair p a b ks) t' y \<in> value_masks))
      \<le> card (pairs (\<lambda>a b. ?d (set_pair p a b ks) p \<in> ?D))"
    using delta_range [OF al p(1) set_pair_keys [OF ks]]
    by (intro card_pairs_mono) (simp add: in_shifted_masks split)
  also have "\<dots> \<le> card ?D * 2 ^ 64"
    by (rule delta_ph_values [OF al p ks]) simp
  also have "\<dots> \<le> (2 ^ 24 * 2) * 2 ^ 64"
    using card_shuffler_preimages [OF p(1) shifted_masks(1), of ?r] shifted_masks(2) [of ?r]
    by (intro mult_right_mono) linarith+
  finally show "card (pairs (\<lambda>a b. shuffled_at (set_pair p a b ks) t x XOR
      shuffled_at (set_pair p a b ks) t' y \<in> value_masks)) \<le> 2 ^ (128 - 39)"
    by simp
qed simp

subsection \<open>Blocks with different checksums\<close>

lemma secondary_checked_agree:
  assumes ok: "block_ok x" "block_ok y"
  shows "rare 34 40 (\<lambda>ks. \<not> same_check ks x y \<and> halves_agree (secondary_at ks t x) (secondary_at ks t' y))"
proof -
  have "rare 34 (0 + 40) (\<lambda>ks. \<not> same_check ks x y \<and> halves_agree (secondary_at ks t x) (secondary_at ks t' y))"
  proof (rule rare_conj_fibre [OF rare_zero, of 16])
    show "ignores 16 (\<lambda>ks. \<not> same_check ks x y)"
      using ignores_check [OF ok] by (simp add: ignores_def)
    fix ks assume ks: "ks \<in> keys 34" and ne: "\<not> same_check ks x y"
    let ?r = "shuffled_at ks t x XOR shuffled_at ks t' y"
    let ?d = "\<lambda>a b. ph a b (check_lo ks x) (check_hi ks x) XOR ph a b (check_lo ks y) (check_hi ks y)"
    have split: "secondary_at (set_pair 16 a b ks) t x XOR secondary_at (set_pair 16 a b ks) t' y =
        ?d a b XOR ?r" for a b
      unfolding secondary_own [OF ok(1) ks] secondary_own [OF ok(2) ks] by (simp only: xor_ac)
    have "card (pairs (\<lambda>a b. halves_agree (secondary_at (set_pair 16 a b ks) t x)
        (secondary_at (set_pair 16 a b ks) t' y))) \<le> card (pairs (\<lambda>a b. ?d a b \<in> shifted_masks ?r))"
      using agree_mask [OF compressor_u128(3) [OF ok(1) set_pair_keys [OF ks]]
          compressor_u128(3) [OF ok(2) set_pair_keys [OF ks]]]
      by (intro card_pairs_mono) (simp add: in_shifted_masks flip: split)
    also have "\<dots> \<le> card (shifted_masks ?r) * 2 ^ 64"
      using ne by (intro ph.axu_values check_u64 [OF ok(1) ks] check_u64 [OF ok(2) ks] shifted_masks)
        (auto simp: same_check_def)
    also have "\<dots> \<le> 2 ^ 24 * 2 ^ 64"
      using shifted_masks(2) by (rule mult_right_mono) simp
    finally show "card (pairs (\<lambda>a b. halves_agree (secondary_at (set_pair 16 a b ks) t x)
        (secondary_at (set_pair 16 a b ks) t' y))) \<le> 2 ^ (128 - 40)"
      by simp
  qed simp_all
  then show ?thesis by simp
qed

lemma secondary_same_check_xor:
  "same_check ks x y \<Longrightarrow>
     secondary_at ks t x XOR secondary_at ks t' y = shuffled_at ks t x XOR shuffled_at ks t' y"
  by (simp add: secondary_at_def same_check_def xor_rules)

lemma secondary_chunks_agree:
  assumes ok: "block_ok x" "block_ok y" and diff: "x \<noteq> y" "length x = length y"
  shows "rare 34 39 (\<lambda>ks. halves_agree (secondary_at ks t x) (secondary_at ks t' y))"
proof (cases "same_check [] x y")
  case True
  have al: "aligned x y"
    using ok diff by (simp add: aligned_def)
  obtain p where p: "p + 1 < length x" "x ! p \<noteq> y ! p"
    using same_check_ph_position [OF al diff(1) True] .
  show ?thesis
  proof (rule rare_mono [OF shuffled_ph_agree [OF al p, of t t']])
    fix ks assume ks: "ks \<in> keys 34" and agree: "halves_agree (secondary_at ks t x) (secondary_at ks t' y)"
    have "same_check ks x y"
      using True unfolding same_check_constant [OF diff(2), of ks "[]"] .
    from agree_mask [OF compressor_u128(3) [OF ok(1) ks] compressor_u128(3) [OF ok(2) ks] agree]
    show "shuffled_at ks t x XOR shuffled_at ks t' y \<in> value_masks"
      unfolding secondary_same_check_xor [OF \<open>same_check ks x y\<close>] .
  qed simp
next
  case False
  then have "\<not> same_check ks x y" for ks
    unfolding same_check_constant [OF diff(2), of ks "[]"] .
  then show ?thesis
    by (intro rare_mono [OF secondary_checked_agree [OF ok, of t t']]) simp_all
qed

lemma secondary_longer_agree:
  assumes "block_ok x" "block_ok y" "length y < length x"
  shows "rare 34 39 (\<lambda>ks. halves_agree (secondary_at ks t x) (secondary_at ks t' y))"
proof -
  have "rare 34 39 (\<lambda>ks. (\<not> same_check ks x y \<and> halves_agree (secondary_at ks t x) (secondary_at ks t' y)) \<or>
      same_check ks x y)"
    using secondary_checked_agree [OF assms(1,2)] rare_mono [OF same_check_longer [OF assms]]
    by (intro rare_disj) simp_all
  then show ?thesis
    by (rule rare_mono) auto
qed

end
