(* ===== verification/Short_Hash.thy ===== *)
theory Short_Hash
  imports Permutations Keys
begin

text \<open>
  The short-input hash (\<open>vec_to_u64\<close> and \<open>umash_short\<close>, \<open>umash_reference.py\<close>): inputs of
  at most eight bytes become one word, which a SplitMix64 round with a key-dependent noise
  in its middle permutes.
\<close>

definition vec_to_u64 :: "bytes \<Rightarrow> int result" where
  "vec_to_u64 buf =
     (let n = length buf in
      py_assert (n \<le> 8)
        (bind_result
          (if n \<ge> 4 then
             bind_result (unpack_le 4 (take 4 buf)) (\<lambda>lo.
             bind_result (unpack_le 4 (last_items 4 buf)) (\<lambda>hi. Inr (lo, hi)))
           else
             bind_result (if n AND 1 \<noteq> 0
               then bind_result (py_get buf 0) (\<lambda>b. Inr (uint b)) else Inr 0) (\<lambda>lo.
             bind_result (if n AND 2 \<noteq> 0
               then unpack_le 2 (last_items 2 buf) else Inr 0) (\<lambda>hi. Inr (lo, hi))))
          (\<lambda>(lo, hi). Inr (push_bit 32 hi OR ((hi + lo) mod 2 ^ 32)))))"

definition umash_short :: "int list \<Rightarrow> int \<Rightarrow> bytes \<Rightarrow> int result" where
  "umash_short key seed buf =
     py_assert (length buf \<le> 8)
       (bind_result (py_get key (int (length buf))) (\<lambda>k.
          let noise = (seed + k) mod W in
          bind_result (vec_to_u64 buf) (\<lambda>h0.
            let h1 = h0 XOR drop_bit 30 h0;
                h2 = (h1 * 0xBF58476D1CE4E5B9) mod W;
                h3 = h2 XOR drop_bit 27 h2;
                h4 = h3 XOR noise;
                h5 = (h4 * 0x94D049BB133111EB) mod W;
                h6 = h5 XOR drop_bit 31 h5
            in Inr h6)))"

subsection \<open>Every size up to eight bytes is converted without loss\<close>

text \<open>The two halves \<open>(lo, hi)\<close> that \<open>vec_to_u64\<close> reads.\<close>

definition vec_halves :: "bytes \<Rightarrow> int \<times> int" where
  "vec_halves buf =
     (if length buf \<ge> 4 then (le_int (take 4 buf), le_int (last_items 4 buf))
      else (if odd (length buf) then uint (buf ! 0) else 0,
            if length buf \<ge> 2 then le_int (last_items 2 buf) else 0))"

lemma small_length_cases:
  "length buf < 4 \<Longrightarrow> length buf = 0 \<or> length buf = 1 \<or> length buf = 2 \<or> length buf = 3"
  by linarith

lemma vec_to_u64_halves:
  assumes "length buf \<le> 8"
  shows "vec_to_u64 buf =
    (case vec_halves buf of (lo, hi) \<Rightarrow> Inr (push_bit 32 hi OR ((hi + lo) mod 2 ^ 32)))"
proof (cases "length buf \<ge> 4")
  case True
  then show ?thesis
    using assms by (simp add: vec_to_u64_def vec_halves_def unpack_le_def Let_def)
next
  case False
  then consider "length buf = 0" | "length buf = 1" | "length buf = 2" | "length buf = 3"
    using small_length_cases [of buf] by auto
  then show ?thesis
    by cases (simp_all add: vec_to_u64_def vec_halves_def unpack_le_def Let_def py_get_def)
qed

lemma vec_halves_range:
  assumes "vec_halves buf = (lo, hi)"
  shows "0 \<le> lo" "lo < 2 ^ 32" "0 \<le> hi" "hi < 2 ^ 32"
proof -
  have le: "le_int bs < 2 ^ 32" if "length bs \<le> 4" for bs
  proof -
    have "(256::int) ^ length bs \<le> 256 ^ 4"
      using that by (intro power_increasing) auto
    then show ?thesis
      using le_int_less [of bs] by simp
  qed
  have "uint b < 2 ^ 32" for b :: "8 word"
    using uint_lt2p [of b] by (rule order_less_le_trans) simp
  then show "0 \<le> lo" "lo < 2 ^ 32" "0 \<le> hi" "hi < 2 ^ 32"
    using assms le [of "take 4 buf"] le [of "last_items 4 buf"] le [of "last_items 2 buf"]
    by (auto simp: vec_halves_def split: if_splits)
qed

text \<open>Equal halves at equal sizes mean equal buffers: every byte is in one of the halves.\<close>

lemma vec_halves_inj:
  assumes len: "length xs = length ys" "length xs \<le> 8"
    and eq: "vec_halves xs = vec_halves ys"
  shows "xs = ys"
proof (cases "length xs \<ge> 4")
  case True
  with eq len have "take 4 xs = take 4 ys" and "last_items 4 xs = last_items 4 ys"
    by (auto simp: vec_halves_def intro!: le_int_inj)
  then have t: "take 4 xs = take 4 ys" and "drop (length xs - 4) xs = drop (length xs - 4) ys"
    using len by (simp_all add: last_items_def)
  then have "drop 4 xs = drop 4 ys"
    using len by (metis add_diff_cancel_right' diff_le_mono drop_drop le_add_diff_inverse2
        numeral_Bit0)
  with t show ?thesis
    by (metis append_take_drop_id)
next
  case False
  then consider "length xs = 0" | "length xs = 1" | "length xs = 2" | "length xs = 3"
    using small_length_cases [of xs] by auto
  then show ?thesis
  proof cases
    case 2
    with eq len show ?thesis
      by (cases xs; cases ys) (auto simp: vec_halves_def word_uint_eq_iff)
  next
    case 3
    with eq len have "last_items 2 xs = last_items 2 ys"
      by (auto simp: vec_halves_def intro!: le_int_inj)
    with 3 len show ?thesis by (simp add: last_items_def)
  next
    case 4
    with eq len have "last_items 2 xs = last_items 2 ys" and h: "xs ! 0 = ys ! 0"
      by (auto simp: vec_halves_def word_uint_eq_iff intro!: le_int_inj)
    with 4 len show ?thesis
      by (cases xs; cases ys) (auto simp: last_items_def)
  qed (use len in auto)
qed

lemma or_shifted: "\<lbrakk>0 \<le> l; l < 2 ^ 32\<rbrakk> \<Longrightarrow> push_bit 32 h OR l = h * 2 ^ 32 + (l::int)"
  using concat_bit_eq [of 32 l h] concat_bit_def [of 32 l h]
  by (simp add: take_bit_int_eq_self push_bit_eq_mult or.commute)

lemma u64_vec_to_u64: "vec_to_u64 buf = Inr h \<Longrightarrow> u64 h"
proof -
  assume h: "vec_to_u64 buf = Inr h"
  then have len: "length buf \<le> 8"
    by (cases "length buf \<le> 8") (auto simp: vec_to_u64_def)
  obtain lo hi where v: "vec_halves buf = (lo, hi)" by fastforce
  have "h = hi * 2 ^ 32 + (hi + lo) mod 2 ^ 32"
    using h vec_to_u64_halves [OF len] v or_shifted [of "(hi + lo) mod 2 ^ 32" hi] by simp
  then show ?thesis
    using vec_halves_range [OF v] pos_mod_bound [of "2 ^ 32" "hi + lo"]
    by (simp add: u64_def W_def)
qed

lemma vec_to_u64_total: "length buf \<le> 8 \<Longrightarrow> \<exists>h. vec_to_u64 buf = Inr h"
  by (simp add: vec_to_u64_halves split: prod.split)

lemma vec_to_u64_inj:
  assumes len: "length xs = length ys" "length xs \<le> 8"
    and eq: "vec_to_u64 xs = vec_to_u64 ys"
  shows "xs = ys"
proof -
  obtain lo hi where x: "vec_halves xs = (lo, hi)" by fastforce
  obtain lo' hi' where y: "vec_halves ys = (lo', hi')" by fastforce
  have e: "hi * 2 ^ 32 + (hi + lo) mod 2 ^ 32 = hi' * 2 ^ 32 + (hi' + lo') mod 2 ^ 32"
    using eq len or_shifted [of "(hi + lo) mod 2 ^ 32" hi]
      or_shifted [of "(hi' + lo') mod 2 ^ 32" hi']
    by (simp add: vec_to_u64_halves x y)
  have "hi = hi'"
    using arg_cong [OF e, of "\<lambda>v. v div 2 ^ 32"] by simp
  then have "(hi + lo) mod 2 ^ 32 = (hi + lo') mod 2 ^ 32"
    using e by simp
  then have "(hi + lo - hi) mod 2 ^ 32 = (hi + lo' - hi) mod 2 ^ 32"
    by (rule mod_diff_cong) simp
  then have "lo = lo'"
    using vec_halves_range [OF x] vec_halves_range [OF y] by simp
  with \<open>hi = hi'\<close> show ?thesis
    using len x y by (auto intro: vec_halves_inj)
qed

subsection \<open>The SplitMix64 rounds around the noise\<close>

definition splitmix_head :: "int \<Rightarrow> int" where
  "splitmix_head h = xorshift 27 (modmul 0xBF58476D1CE4E5B9 (xorshift 30 h))"

definition splitmix_tail :: "int \<Rightarrow> int" where
  "splitmix_tail h = xorshift 31 (modmul 0x94D049BB133111EB h)"

definition splitmix_head_inv :: "int \<Rightarrow> int" where
  "splitmix_head_inv h = unxorshift 30 (modmul 10871156337175269513 (unxorshift 27 h))"

definition splitmix_tail_inv :: "int \<Rightarrow> int" where
  "splitmix_tail_inv h = modmul 3573116690164977347 (unxorshift 31 h)"

interpretation shift30: word_permutation "xorshift 30" "unxorshift 30"
  by (rule xorshift_permutation) simp

interpretation shift27: word_permutation "xorshift 27" "unxorshift 27"
  by (rule xorshift_permutation) simp

interpretation shift31: word_permutation "xorshift 31" "unxorshift 31"
  by (rule xorshift_permutation) simp

interpretation mul1: word_permutation "modmul 0xBF58476D1CE4E5B9" "modmul 10871156337175269513"
  by (rule modmul_permutation) (simp add: W_def)

interpretation mul2: word_permutation "modmul 0x94D049BB133111EB" "modmul 3573116690164977347"
  by (rule modmul_permutation) (simp add: W_def)

interpretation round1: word_permutation_pair "xorshift 30" "unxorshift 30"
  "modmul 0xBF58476D1CE4E5B9" "modmul 10871156337175269513" ..

interpretation head_pair: word_permutation_pair
  "\<lambda>x. modmul 0xBF58476D1CE4E5B9 (xorshift 30 x)"
  "\<lambda>y. unxorshift 30 (modmul 10871156337175269513 y)" "xorshift 27" "unxorshift 27" ..

interpretation tail_pair: word_permutation_pair
  "modmul 0x94D049BB133111EB" "modmul 3573116690164977347" "xorshift 31" "unxorshift 31" ..

interpretation head: word_permutation splitmix_head splitmix_head_inv
  unfolding splitmix_head_def splitmix_head_inv_def
  by (rule head_pair.composed.word_permutation_axioms)

interpretation tail: word_permutation splitmix_tail splitmix_tail_inv
  unfolding splitmix_tail_def splitmix_tail_inv_def
  by (rule tail_pair.composed.word_permutation_axioms)

lemma umash_short_eq:
  assumes "length buf < length key" and "vec_to_u64 buf = Inr v"
  shows "umash_short key seed buf =
    Inr (splitmix_tail (splitmix_head v XOR ((seed + key ! length buf) mod W)))"
proof -
  have "length buf \<le> 8"
    using assms(2) by (cases "length buf \<le> 8") (auto simp: vec_to_u64_def)
  then show ?thesis
    using assms
    by (simp add: umash_short_def Let_def splitmix_head_def splitmix_tail_def xorshift_def
        modmul_def)
qed

lemma umash_short_cases:
  assumes "length buf \<le> 8" and "length buf < length key"
  obtains v where "vec_to_u64 buf = Inr v" and "u64 v"
    and "umash_short key seed buf =
      Inr (splitmix_tail (splitmix_head v XOR ((seed + key ! length buf) mod W)))"
  using vec_to_u64_total [OF assms(1)] u64_vec_to_u64 umash_short_eq [OF assms(2)] by metis

lemma umash_short_u64:
  assumes "length buf \<le> 8" and "length buf < length key"
  shows "\<exists>h. umash_short key seed buf = Inr h \<and> u64 h"
proof -
  obtain v where "u64 v" and "umash_short key seed buf =
      Inr (splitmix_tail (splitmix_head v XOR ((seed + key ! length buf) mod W)))"
    using umash_short_cases [OF assms] .
  then show ?thesis
    by (auto intro!: tail.fwd_closed head.fwd_closed range_rules)
qed

lemma umash_short_key_short:
  "\<lbrakk>length buf \<le> 8; length key \<le> length buf\<rbrakk> \<Longrightarrow> umash_short key seed buf = Inl IndexError"
  by (simp add: umash_short_def)

lemma umash_short_long_input: "8 < length buf \<Longrightarrow> umash_short key seed buf = Inl AssertionError"
  by (simp add: umash_short_def)

subsection \<open>Collisions of short inputs\<close>

lemma umash_short_same_size:
  assumes "length xs = length ys" "length xs \<le> 8" "length xs < length key"
  shows "umash_short key seed xs = umash_short key seed ys \<longleftrightarrow> xs = ys"
proof
  assume eq: "umash_short key seed xs = umash_short key seed ys"
  obtain v where v: "vec_to_u64 xs = Inr v" "u64 v" "umash_short key seed xs =
      Inr (splitmix_tail (splitmix_head v XOR ((seed + key ! length xs) mod W)))"
    using umash_short_cases [OF assms(2,3)] .
  obtain w where w: "vec_to_u64 ys = Inr w" "u64 w" "umash_short key seed ys =
      Inr (splitmix_tail (splitmix_head w XOR ((seed + key ! length ys) mod W)))"
    using umash_short_cases [of ys key seed] assms by auto
  have "v = w"
    using eq v w assms(1)
    by (simp add: tail.fwd_inj head.fwd_inj head.fwd_closed u64_xor)
  then show "xs = ys"
    using vec_to_u64_inj assms v w by simp
qed simp

text \<open>The noise is a bijection of the key word, for every seed.\<close>

lemma noise_iff:
  assumes "u64 k" "u64 t"
  shows "(seed + k) mod W = t \<longleftrightarrow> k = (t - seed) mod W"
proof
  assume "(seed + k) mod W = t"
  then have "(t - seed) mod W = (seed + k - seed) mod W"
    by (metis mod_diff_left_eq)
  then show "k = (t - seed) mod W"
    using assms by (simp add: u64_mod_id)
next
  assume "k = (t - seed) mod W"
  then have "(seed + k) mod W = (seed + (t - seed)) mod W"
    by (simp add: mod_add_right_eq)
  then show "(seed + k) mod W = t"
    using assms by (simp add: u64_mod_id)
qed

lemma umash_short_reaches:
  assumes "length buf \<le> 8" "length buf < length key" "u64 h"
  shows "\<exists>!k. u64 k \<and> umash_short (key[length buf := k]) seed buf = Inr h"
proof -
  obtain v where v: "vec_to_u64 buf = Inr v" "u64 v"
    using umash_short_cases [OF assms(1,2)] by metis
  let ?t = "splitmix_head v XOR splitmix_tail_inv h"
  have t: "u64 ?t"
    using v assms(3) by (intro u64_xor head.fwd_closed tail.bwd_closed)
  have "umash_short (key[length buf := k]) seed buf = Inr h \<longleftrightarrow> k = (?t - seed) mod W"
    if "u64 k" for k
  proof -
    have "umash_short (key[length buf := k]) seed buf =
        Inr (splitmix_tail (splitmix_head v XOR ((seed + k) mod W)))"
      using umash_short_eq [of buf "key[length buf := k]" v seed] assms(2) v by simp
    also have "\<dots> = Inr h \<longleftrightarrow> splitmix_head v XOR ((seed + k) mod W) = splitmix_tail_inv h"
      using v assms(3) by (simp add: tail.fwd_eq_iff u64_xor head.fwd_closed)
    also have "\<dots> \<longleftrightarrow> (seed + k) mod W = ?t"
      by (rule xor_eq_swap)
    also have "\<dots> \<longleftrightarrow> k = (?t - seed) mod W"
      using that t by (rule noise_iff)
    finally show ?thesis .
  qed
  then show ?thesis
    by (metis u64_mod)
qed

end
