(* ===== verification/Chunking.thy ===== *)
theory Chunking
  imports Keys
begin

text \<open>
  Splitting the input (\<open>chunk_bytes\<close> and \<open>blockify_chunks\<close>, \<open>umash_reference.py\<close>): the two
  generators of the reference, the list of chunks and blocks they produce, and the inverse
  that recovers the input from the stream of blocks.
\<close>

type_synonym chunk = "bytes \<times> nat"
type_synonym block = "bytes list \<times> nat"

function chunk_loop :: "bytes \<Rightarrow> nat \<Rightarrow> chunk gen" where
  "chunk_loop buf i =
     (if i < length buf then
        Yield (if i + CHUNK_SIZE \<le> length buf
               then (take CHUNK_SIZE (drop i buf), CHUNK_SIZE)
               else (drop (length buf - CHUNK_SIZE) buf, length buf - i))
          (chunk_loop buf (i + CHUNK_SIZE))
      else Done)"
  by pat_completeness auto
termination
  by (relation "measure (\<lambda>(buf, i). length buf - i)") (auto simp: CHUNK_SIZE_def)

declare chunk_loop.simps [simp del]

definition chunk_bytes :: "bytes \<Rightarrow> chunk gen" where
  "chunk_bytes buf =
     (if \<not> CHUNK_SIZE div 2 \<le> length buf then Raise AssertionError
      else if length buf < CHUNK_SIZE then
        Yield (take (CHUNK_SIZE div 2) buf @ last_items (CHUNK_SIZE div 2) buf, length buf) Done
      else chunk_loop buf 0)"

fun blockify_loop :: "chunk gen \<Rightarrow> bytes list \<Rightarrow> nat \<Rightarrow> block gen" where
  "blockify_loop Done acc sz = (if acc \<noteq> [] then Yield (acc, sz) Done else Raise AssertionError)"
| "blockify_loop (Raise e) acc sz = Raise e"
| "blockify_loop (Yield (chunk, chunk_size) g) acc sz =
     (if length chunk \<noteq> CHUNK_SIZE then Raise AssertionError
      else if \<not> length acc \<le> BLOCK_SIZE then Raise AssertionError
      else if length acc = BLOCK_SIZE then
        (if sz \<noteq> CHUNK_SIZE * BLOCK_SIZE then Raise AssertionError
         else Yield (acc, sz) (blockify_loop g [chunk] chunk_size))
      else blockify_loop g (acc @ [chunk]) (sz + chunk_size))"

definition blockify_chunks :: "chunk gen \<Rightarrow> block gen" where
  "blockify_chunks chunks = blockify_loop chunks [] 0"

subsection \<open>The stream of chunks\<close>

definition chunk_at :: "bytes \<Rightarrow> nat \<Rightarrow> chunk" where
  "chunk_at buf j =
     (if 16 * j + 16 \<le> length buf then (take 16 (drop (16 * j) buf), 16)
      else (last_items 16 buf, length buf - 16 * j))"

definition chunk_count :: "bytes \<Rightarrow> nat" where
  "chunk_count buf = (length buf + 15) div 16"

definition chunk_list :: "bytes \<Rightarrow> chunk list" where
  "chunk_list buf =
     (if length buf < 16 then [(take 8 buf @ last_items 8 buf, length buf)]
      else map (chunk_at buf) [0..<chunk_count buf])"

lemma chunk_count_cases:
  "chunk_count buf =
     (if length buf mod 16 = 0 then length buf div 16 else Suc (length buf div 16))"
proof -
  have "length buf + 15 = (length buf mod 16 + 15) + length buf div 16 * 16"
    by simp
  then have "chunk_count buf = ((length buf mod 16 + 15) + length buf div 16 * 16) div 16"
    unfolding chunk_count_def by (rule arg_cong)
  also have "\<dots> = length buf div 16 + (length buf mod 16 + 15) div 16"
    by (rule div_mult_self1) simp
  finally have "chunk_count buf = length buf div 16 + (length buf mod 16 + 15) div 16" .
  moreover have "(r + 15) div 16 = (if r = 0 then 0 else 1)" if "r < 16" for r :: nat
    using that by (simp add: div_nat_eqI)
  ultimately show ?thesis
    by simp
qed

lemma less_chunk_count: "j < chunk_count buf \<longleftrightarrow> 16 * j < length buf"
  unfolding chunk_count_def by linarith

lemma chunk_loop_list:
  "chunk_loop buf (16 * j) = gen_of_list (map (chunk_at buf) [j..<chunk_count buf])"
proof (induction "chunk_count buf - j" arbitrary: j)
  case 0
  then show ?case
    by (simp add: chunk_loop.simps less_chunk_count [symmetric])
next
  case (Suc d)
  then have j: "16 * j < length buf" and up: "[j..<chunk_count buf] = j # [Suc j..<chunk_count buf]"
    by (simp_all add: less_chunk_count [symmetric] upt_conv_Cons)
  have "chunk_loop buf (16 * Suc j) = gen_of_list (map (chunk_at buf) [Suc j..<chunk_count buf])"
    using Suc by (intro Suc.hyps) simp
  with j show ?case
    by (subst chunk_loop.simps)
      (simp add: up chunk_at_def last_items_def CHUNK_SIZE_def add.commute)
qed

lemma chunk_bytes_list:
  "8 \<le> length buf \<Longrightarrow> chunk_bytes buf = gen_of_list (chunk_list buf)"
  using chunk_loop_list [of buf 0]
  by (simp add: chunk_bytes_def chunk_list_def CHUNK_SIZE_def)

lemma chunk_bytes_too_short: "length buf < 8 \<Longrightarrow> chunk_bytes buf = Raise AssertionError"
  by (simp add: chunk_bytes_def CHUNK_SIZE_def)

lemma chunk_list_lengths:
  "\<lbrakk>8 \<le> length buf; (c, s) \<in> set (chunk_list buf)\<rbrakk> \<Longrightarrow> length c = 16"
  by (auto simp: chunk_list_def chunk_at_def split: if_splits)

lemma chunk_list_nonempty: "8 \<le> length buf \<Longrightarrow> chunk_list buf \<noteq> []"
  by (auto simp: chunk_list_def chunk_count_def)

lemma length_chunk_list: "8 \<le> length buf \<Longrightarrow> length (chunk_list buf) = chunk_count buf"
  by (auto simp: chunk_list_def chunk_count_def)

text \<open>All chunks but the last have the full size; the sizes add up to the input's.\<close>

lemma butlast_upt0: "butlast [0..<n] = [0..<n - 1]"
  by (cases n) auto

lemma butlast_chunk_sizes:
  "\<forall>s \<in> set (butlast (map snd (chunk_list buf))). s = 16"
proof (cases "length buf < 16")
  case False
  have "snd (chunk_at buf j) = 16" if "j < chunk_count buf - 1" for j
    using that False unfolding chunk_at_def chunk_count_def by auto
  then show ?thesis
    using False by (auto simp: chunk_list_def map_butlast [symmetric] butlast_upt0)
qed (simp add: chunk_list_def)

lemma sum_chunk_at:
  "k \<le> chunk_count buf \<Longrightarrow> 16 \<le> length buf \<Longrightarrow>
     sum_list (map snd (map (chunk_at buf) [0..<k])) = min (16 * k) (length buf)"
proof (induction k)
  case (Suc k)
  then have "16 * k < length buf"
    using less_chunk_count [of k buf] by simp
  with Suc show ?case
    by (auto simp: chunk_at_def)
qed simp

lemma sum_chunk_sizes: "8 \<le> length buf \<Longrightarrow> sum_list (map snd (chunk_list buf)) = length buf"
proof (cases "length buf < 16")
  case False
  have "length buf \<le> 16 * chunk_count buf"
    unfolding chunk_count_def by linarith
  with False show ?thesis
    using sum_chunk_at [of "chunk_count buf" buf] by (simp add: chunk_list_def)
qed (simp add: chunk_list_def)

subsection \<open>Grouping into blocks\<close>

text \<open>\<open>chop k xs\<close> cuts \<open>xs\<close> in consecutive pieces of \<open>k\<close> items, the last of which may be short.\<close>

fun chop :: "nat \<Rightarrow> 'a list \<Rightarrow> 'a list list" where
  "chop k [] = []"
| "chop k (x # xs) = take k (x # xs) # chop k (drop (k - 1) xs)"

lemma chop_short: "\<lbrakk>xs \<noteq> []; length xs \<le> k\<rbrakk> \<Longrightarrow> chop k xs = [xs]"
  by (cases xs) auto

lemma chop_append: "\<lbrakk>length g = k; 0 < k\<rbrakk> \<Longrightarrow> chop k (g @ xs) = g # chop k xs"
  by (cases g) auto

lemma concat_chop [simp]: "0 < k \<Longrightarrow> concat (chop k xs) = xs"
proof (induction k xs rule: chop.induct)
  case (2 k x xs)
  then show ?case by (cases k) auto
qed simp

lemma length_chop: "0 < k \<Longrightarrow> length (chop k xs) = (length xs + k - 1) div k"
proof (induction k xs rule: chop.induct)
  case (2 k x xs)
  show ?case
  proof (cases "length xs < k - 1")
    case True
    then have "chop k (drop (k - 1) xs) = []" by simp
    moreover have "(length (x # xs) + k - 1) div k = 1"
    proof -
      have "k \<le> length (x # xs) + k - 1" "length (x # xs) + k - 1 < 2 * k"
        using True by auto
      then show ?thesis
        by (simp add: div_nat_eqI)
    qed
    ultimately show ?thesis by simp
  next
    case False
    have "length (x # xs) + k - 1 = (length (drop (k - 1) xs) + k - 1) + k"
      using False 2 by simp
    moreover have "length (chop k (x # xs)) = Suc ((length (drop (k - 1) xs) + k - 1) div k)"
      using "2.IH" "2.prems" by simp
    ultimately show ?thesis
      using "2.prems" by (simp only: div_add_self2 Suc_eq_plus1)
  qed
qed simp

lemma chop_nonempty: "\<lbrakk>0 < k; g \<in> set (chop k xs)\<rbrakk> \<Longrightarrow> g \<noteq> []"
  by (induction k xs rule: chop.induct) auto

lemma chop_length_le: "g \<in> set (chop k xs) \<Longrightarrow> length g \<le> k"
  by (induction k xs rule: chop.induct) auto

lemma chop_eq_Nil_iff [simp]: "chop k xs = [] \<longleftrightarrow> xs = []"
  by (cases xs) auto

lemma chop_butlast_full: "\<lbrakk>0 < k; g \<in> set (butlast (chop k xs))\<rbrakk> \<Longrightarrow> length g = k"
proof (induction k xs rule: chop.induct)
  case (2 k x xs)
  then show ?case
    by (auto split: if_splits)
qed simp

lemma sum_list_const: "\<forall>x \<in> set xs. x = (c::nat) \<Longrightarrow> sum_list xs = c * length xs"
  by (induction xs) auto

definition make_block :: "chunk list \<Rightarrow> block" where
  "make_block g = (map fst g, sum_list (map snd g))"

definition block_list :: "bytes \<Rightarrow> block list" where
  "block_list buf = map make_block (chop 16 (chunk_list buf))"

text \<open>The loop, started in the middle of a group: no assertion fires.\<close>

lemma blockify_loop_list:
  assumes "\<forall>(c, s) \<in> set (acc @ cs). length c = 16"
    and "\<forall>s \<in> set (butlast (map snd (acc @ cs))). s = 16"
    and "length acc \<le> 16" and "acc @ cs \<noteq> []"
  shows "blockify_loop (gen_of_list cs) (map fst acc) (sum_list (map snd acc)) =
    gen_of_list (map make_block (chop 16 (acc @ cs)))"
  using assms
proof (induction cs arbitrary: acc)
  case Nil
  then show ?case
    by (simp add: chop_short make_block_def)
next
  case (Cons p cs)
  obtain c s where p: "p = (c, s)" by fastforce
  have len: "length c = 16"
    using Cons.prems(1) by (simp add: p)
  show ?case
  proof (cases "length acc = 16")
    case True
    have "\<forall>s \<in> set (map snd acc). s = 16"
      using Cons.prems(2) by (auto simp: butlast_append)
    then have "sum_list (map snd acc) = 16 * 16"
      using True sum_list_const [of "map snd acc" 16] by simp
    moreover have "blockify_loop (gen_of_list cs) (map fst [p]) (sum_list (map snd [p])) =
        gen_of_list (map make_block (chop 16 ([p] @ cs)))"
      using Cons.prems by (intro Cons.IH) (auto simp: butlast_append)
    ultimately show ?thesis
      using True len
      by (simp add: p CHUNK_SIZE_def BLOCK_SIZE_def chop_append make_block_def [of acc]
          del: chop.simps)
  next
    case False
    have "blockify_loop (gen_of_list cs) (map fst (acc @ [p])) (sum_list (map snd (acc @ [p]))) =
        gen_of_list (map make_block (chop 16 ((acc @ [p]) @ cs)))"
      using Cons.prems False by (intro Cons.IH) auto
    then show ?thesis
      using False Cons.prems(3) len by (simp add: p CHUNK_SIZE_def BLOCK_SIZE_def)
  qed
qed

lemma blockify_chunks_list:
  assumes "8 \<le> length buf"
  shows "blockify_chunks (chunk_bytes buf) = gen_of_list (block_list buf)"
  using blockify_loop_list [of "[]" "chunk_list buf"] assms chunk_list_lengths
    butlast_chunk_sizes chunk_list_nonempty
  by (fastforce simp: blockify_chunks_def chunk_bytes_list block_list_def)

subsection \<open>Shape of the blocks\<close>

lemma sum_list_make_block:
  "sum_list (map (snd \<circ> make_block) gs) = sum_list (map snd (concat gs))"
  by (induction gs) (auto simp: make_block_def)

lemma sum_block_sizes: "8 \<le> length buf \<Longrightarrow> sum_list (map snd (block_list buf)) = length buf"
  by (simp add: block_list_def sum_list_make_block sum_chunk_sizes)

lemma length_block_list: "8 \<le> length buf \<Longrightarrow> length (block_list buf) = (length buf + 255) div 256"
proof -
  assume "8 \<le> length buf"
  then have "length (block_list buf) = (chunk_count buf + 15) div 16"
    by (simp add: block_list_def length_chop length_chunk_list)
  also have "\<dots> = (length buf + 255) div 256"
    unfolding chunk_count_def by linarith
  finally show ?thesis .
qed

lemma block_list_nonempty: "8 \<le> length buf \<Longrightarrow> block_list buf \<noteq> []"
  by (simp add: block_list_def chunk_list_nonempty)

lemma butlast_concat_subset:
  "\<lbrakk>g \<in> set (butlast gs); \<forall>h \<in> set gs. h \<noteq> []\<rbrakk> \<Longrightarrow> set g \<subseteq> set (butlast (concat gs))"
proof (induction gs)
  case (Cons h gs)
  then show ?case
    by (cases gs) (auto simp: butlast_append dest: in_set_butlastD)
qed simp

lemma block_chunk_lengths:
  "\<lbrakk>8 \<le> length buf; (cs, s) \<in> set (block_list buf); c \<in> set cs\<rbrakk> \<Longrightarrow> length c = 16"
proof -
  assume a: "8 \<le> length buf" "(cs, s) \<in> set (block_list buf)" "c \<in> set cs"
  then obtain g p where "g \<in> set (chop 16 (chunk_list buf))" "p \<in> set g" "c = fst p"
    by (auto simp: block_list_def make_block_def)
  then have "p \<in> set (concat (chop 16 (chunk_list buf)))"
    by (simp only: set_concat) blast
  then have "p \<in> set (chunk_list buf)"
    by simp
  then show "length c = 16"
    using chunk_list_lengths [OF a(1), of "fst p" "snd p"] \<open>c = fst p\<close> by simp
qed

lemma block_chunk_count:
  "(cs, s) \<in> set (block_list buf) \<Longrightarrow> cs \<noteq> [] \<and> length cs \<le> 16"
  using chop_nonempty [of 16] chop_length_le [of _ 16]
  by (fastforce simp: block_list_def make_block_def)

text \<open>Every block but the last is full: sixteen chunks, 256 bytes.\<close>

lemma full_blocks:
  assumes "8 \<le> length buf" and "(cs, s) \<in> set (butlast (block_list buf))"
  shows "length cs = 16 \<and> s = 256"
proof -
  let ?gs = "chop 16 (chunk_list buf)"
  obtain g where g: "g \<in> set (butlast ?gs)" "cs = map fst g" "s = sum_list (map snd g)"
    using assms(2) by (auto simp: block_list_def make_block_def map_butlast [symmetric])
  have len: "length g = 16"
    by (rule chop_butlast_full [OF _ g(1)]) simp
  have "set g \<subseteq> set (butlast (concat ?gs))"
    using g(1) chop_nonempty [of 16 _ "chunk_list buf"] by (intro butlast_concat_subset) auto
  then have "\<forall>n \<in> set (map snd g). n = 16"
    using butlast_chunk_sizes [of buf] by (auto simp: map_butlast [symmetric])
  then show ?thesis
    using sum_list_const [of "map snd g" 16] len g by simp
qed

lemma last_block_size:
  assumes "8 \<le> length buf"
  shows "snd (last (block_list buf)) = length buf - 256 * ((length buf - 1) div 256)"
proof -
  let ?bs = "block_list buf"
  have "\<forall>n \<in> set (map snd (butlast ?bs)). n = 256"
    using full_blocks [OF assms] by auto
  then have "sum_list (map snd (butlast ?bs)) = 256 * length (butlast ?bs)"
    using sum_list_const [of "map snd (butlast ?bs)" 256] by simp
  moreover have "length (butlast ?bs) = (length buf - 1) div 256"
  proof -
    have "length buf + 255 = (length buf - 1) + 256"
      using assms by simp
    then have "(length buf + 255) div 256 = (length buf - 1) div 256 + 1"
      by (simp only: div_add_self2)
    then show ?thesis
      using length_block_list [OF assms] by simp
  qed
  moreover have "sum_list (map snd ?bs)
      = sum_list (map snd (butlast ?bs)) + snd (last ?bs)"
  proof -
    have "map snd (butlast ?bs @ [last ?bs]) = map snd ?bs"
      using block_list_nonempty [OF assms] by (simp only: append_butlast_last_id not_False_eq_True)
    then show ?thesis
      by (metis sum_list_append map_append list.map sum_list.Cons sum_list.Nil add_0_right)
  qed
  ultimately show ?thesis
    using sum_block_sizes [OF assms] by linarith
qed

text \<open>The size tag of the last block is the input's size modulo 256.\<close>

lemma last_block_tag:
  "8 \<le> length buf \<Longrightarrow> snd (last (block_list buf)) mod 256 = length buf mod 256"
proof -
  assume a: "8 \<le> length buf"
  let ?q = "(length buf - 1) div 256"
  have "256 * ?q \<le> length buf" by linarith
  then have "(length buf - 256 * ?q + 256 * ?q) mod 256 = length buf mod 256"
    by simp
  then show ?thesis
    by (simp only: last_block_size [OF a] mod_mult_self2)
qed

subsection \<open>Recovering the input\<close>

definition recover :: "block list \<Rightarrow> bytes" where
  "recover bs =
     (let n = sum_list (map snd bs); full = concat (concat (map fst bs))
      in if n < 16 then take 8 full @ last_items (n - 8) full
         else take (16 * (n div 16)) full @ last_items (n mod 16) full)"

lemma concat_block_chunks:
  "concat (map fst (block_list buf)) = map fst (chunk_list buf)"
proof -
  have "concat (map (fst \<circ> make_block) gs) = map fst (concat gs)" for gs
    by (induction gs) (auto simp: make_block_def)
  then show ?thesis
    by (simp add: block_list_def)
qed

lemma concat_full_chunks:
  "16 * k \<le> length buf \<Longrightarrow> concat (map (fst \<circ> chunk_at buf) [0..<k]) = take (16 * k) buf"
proof (induction k)
  case (Suc k)
  then show ?case
    by (simp add: chunk_at_def take_add [of "16 * k" 16, symmetric] add.commute)
qed simp

lemma recover_blocks:
  assumes "8 \<le> length buf"
  shows "recover (block_list buf) = buf"
proof (cases "length buf < 16")
  case True
  then show ?thesis
    using assms
    by (simp add: recover_def Let_def sum_block_sizes concat_block_chunks chunk_list_def
        last_items_def)
next
  case False
  let ?q = "length buf div 16"
  have q: "16 * ?q \<le> length buf" by simp
  show ?thesis
  proof (cases "length buf mod 16 = 0")
    case True
    then have "chunk_count buf = ?q" by (simp add: chunk_count_cases)
    moreover have "16 * ?q = length buf"
      using True mult_div_mod_eq [of 16 "length buf"] by simp
    ultimately show ?thesis
      using True False assms concat_full_chunks [OF q]
      by (simp add: recover_def Let_def sum_block_sizes concat_block_chunks chunk_list_def
          last_items_def)
  next
    case m: False
    then have c: "chunk_count buf = Suc ?q" by (simp add: chunk_count_cases)
    have "chunk_at buf ?q = (last_items 16 buf, length buf mod 16)"
      using m by (auto simp: chunk_at_def minus_mult_div_eq_mod [symmetric])
    then have full: "concat (concat (map fst (block_list buf))) = take (16 * ?q) buf @ last_items 16 buf"
      using False concat_full_chunks [OF q]
      by (simp add: concat_block_chunks chunk_list_def c)
    have "last_items (length buf mod 16) (take (16 * ?q) buf @ last_items 16 buf) = drop (16 * ?q) buf"
      using False by (simp add: last_items_def minus_mod_eq_mult_div)
    then show ?thesis
      using assms False by (simp add: recover_def sum_block_sizes full)
  qed
qed

end
