(* ===== verification/Umash.thy ===== *)
theory Umash
  imports Short_Hash Chunking OH Poly
begin

text \<open>
  The hash function (\<open>umash_long\<close> and \<open>umash\<close>, \<open>umash_reference.py\<close>): the dispatch on the
  size of the input and the pipeline of chunking, block compression, polynomial hashing and
  finalization. For a usable key no call raises, and a long hash is the finalizer of the
  polynomial of the compressed blocks.
\<close>

definition umash_long :: "umash_key \<Rightarrow> int \<Rightarrow> bytes \<Rightarrow> bool \<Rightarrow> int result" where
  "umash_long key seed buf secondary =
     py_assert (CHUNK_SIZE \<le> 2 * length buf)
       (let blocks = blockify_chunks (chunk_bytes buf);
            oh_values = oh_compress (oh key) seed blocks secondary
        in bind_result (poly_reduce (poly key) (length buf) oh_values 0) (\<lambda>poly_acc.
             Inr (finalize poly_acc)))"

definition umash :: "umash_key \<Rightarrow> int \<Rightarrow> bytes \<Rightarrow> bool \<Rightarrow> int result" where
  "umash key seed buf secondary =
     (if 2 * length buf \<le> CHUNK_SIZE
      then umash_short (if \<not> secondary then oh key else drop SHORT_KEY_SHIFT (oh key)) seed buf
      else umash_long key seed buf secondary)"

subsection \<open>The compressed blocks\<close>

definition block_tag :: "int \<Rightarrow> nat \<Rightarrow> int" where
  "block_tag seed size_tag = (seed XOR int (size_tag mod 256)) * W"

definition oh_value :: "int list \<Rightarrow> int \<Rightarrow> bool \<Rightarrow> block \<Rightarrow> int" where
  "oh_value key seed secondary b =
     (if secondary then oh_secondary key (block_tag seed (snd b)) (fst b)
      else oh_primary key (block_tag seed (snd b)) (fst b))"

definition oh_values :: "umash_key \<Rightarrow> int \<Rightarrow> bytes \<Rightarrow> bool \<Rightarrow> int list" where
  "oh_values key seed buf secondary = map (oh_value (oh key) seed secondary) (block_list buf)"

lemma oh_compress_list:
  assumes "\<forall>(cs, s) \<in> set bs. (\<forall>c \<in> set cs. length c = 16) \<and> 2 * length cs \<le> length key"
    and "2 \<le> length key"
  shows "oh_compress key seed (gen_of_list bs) secondary =
    gen_of_list (map (oh_value key seed secondary) bs)"
  using assms
proof (induction bs)
  case (Cons b bs)
  obtain cs s where b: "b = (cs, s)" by fastforce
  have "\<forall>c \<in> set cs. length c = 16" "2 * length cs \<le> length key"
    using Cons.prems b by auto
  note facts = oh_compress_primary [OF this Cons.prems(2)] oh_compress_secondary [OF this Cons.prems(2)]
  have "oh_compress_one_block key cs ((seed XOR int (s mod 256)) * W) secondary =
      Inr (oh_value key seed secondary b)"
    using facts by (cases secondary) (simp_all add: oh_value_def block_tag_def b)
  then show ?case
    using Cons by (simp add: b CHUNK_SIZE_def BLOCK_SIZE_def)
qed simp

lemma umash_long_blocks:
  assumes "8 \<le> length buf" "length (oh key) = 34"
  shows "umash_long key seed buf secondary =
    Inr (finalize (poly_acc (poly key) 0 (oh_values key seed buf secondary)))"
proof -
  have "\<forall>(cs, s) \<in> set (block_list buf). (\<forall>c \<in> set cs. length c = 16) \<and>
      2 * length cs \<le> length (oh key)"
    using block_chunk_lengths [OF assms(1)] block_chunk_count [of _ _ buf] assms(2) by fastforce
  then have "oh_compress (oh key) seed (blockify_chunks (chunk_bytes buf)) secondary =
      gen_of_list (oh_values key seed buf secondary)"
    unfolding blockify_chunks_list [OF assms(1)] oh_values_def
    using oh_compress_list assms(2) by simp
  then show ?thesis
    using assms(1) by (simp add: umash_long_def CHUNK_SIZE_def poly_reduce_eq)
qed

lemma length_oh_values:
  "8 \<le> length buf \<Longrightarrow> length (oh_values key seed buf secondary) = (length buf + 255) div 256"
  by (simp add: oh_values_def length_block_list)

lemma poly_acc_u64: "u64 (poly_acc m 0 vs)"
  using poly_acc_range [of 0 m vs] W8_pos by (simp add: u64_def W_def)

lemma umash_long_u64:
  assumes "8 \<le> length buf" "length (oh key) = 34"
  shows "\<exists>h. umash_long key seed buf secondary = Inr h \<and> u64 h"
  unfolding umash_long_blocks [OF assms] using poly_acc_u64 finalizer.fwd_closed by blast

lemma usable_key_length: "usable_key key \<Longrightarrow> length (oh key) = 34"
  by (simp add: usable_key_def BLOCK_SIZE_def TWISTING_COUNT_def)

lemma umash_short_case:
  "length buf \<le> 8 \<Longrightarrow> umash key seed buf secondary =
     umash_short (drop (if secondary then 4 else 0) (oh key)) seed buf"
  by (simp add: umash_def CHUNK_SIZE_def SHORT_KEY_SHIFT_def)

lemma umash_long_case:
  "8 < length buf \<Longrightarrow> umash key seed buf secondary = umash_long key seed buf secondary"
  by (simp add: umash_def CHUNK_SIZE_def)

lemma umash_returns_u64:
  assumes "usable_key key"
  shows "\<exists>h. umash key seed buf secondary = Inr h \<and> u64 h"
proof (cases "length buf \<le> 8")
  case True
  then show ?thesis
    using umash_short_u64 [of buf "drop (if secondary then 4 else 0) (oh key)"]
      usable_key_length [OF assms] by (simp add: umash_short_case)
next
  case False
  then show ?thesis
    using umash_long_u64 usable_key_length [OF assms] by (simp add: umash_long_case)
qed

text \<open>The finalizer merges nothing: long hashes collide where the polynomials do.\<close>

lemma umash_long_collision:
  assumes "8 \<le> length xs" "8 \<le> length ys" "length (oh key) = 34"
  shows "umash_long key seed xs secondary = umash_long key seed' ys secondary' \<longleftrightarrow>
    poly_acc (poly key) 0 (oh_values key seed xs secondary) =
    poly_acc (poly key) 0 (oh_values key seed' ys secondary')"
  unfolding umash_long_blocks [OF assms(1,3)] umash_long_blocks [OF assms(2,3)]
  using finalizer.fwd_inj poly_acc_u64 by auto

text \<open>Multipliers for which two long inputs collide although their compressed blocks differ.\<close>

lemma umash_long_multipliers:
  assumes len: "8 \<le> length xs" "8 \<le> length ys" "length ohs = 34"
    and diff: "distinguishable
      (map (oh_value ohs seed secondary) (block_list xs))
      (map (oh_value ohs seed secondary) (block_list ys))"
  shows "card {m. is_acceptable_multiplier m \<and>
      umash_long \<lparr>poly = m, oh = ohs\<rparr> seed xs secondary =
      umash_long \<lparr>poly = m, oh = ohs\<rparr> seed ys secondary}
    \<le> 2 * ((max (length xs) (length ys) + 255) div 256) - 1"
proof -
  have "(max (length xs) (length ys) + 255) div 256 =
      max ((length xs + 255) div 256) ((length ys + 255) div 256)"
    by (auto simp: max_def intro: antisym div_le_mono)
  moreover have "umash_long \<lparr>poly = m, oh = ohs\<rparr> seed xs secondary =
      umash_long \<lparr>poly = m, oh = ohs\<rparr> seed ys secondary \<longleftrightarrow>
      poly_acc m 0 (map (oh_value ohs seed secondary) (block_list xs)) =
      poly_acc m 0 (map (oh_value ohs seed secondary) (block_list ys))" for m
    using umash_long_collision [of xs ys "\<lparr>poly = m, oh = ohs\<rparr>"] len
    by (simp add: oh_values_def)
  ultimately show ?thesis
    using poly_collisions [OF diff] length_block_list len by simp
qed

end
