(* ===== verification/Universality.thy ===== *)
theory Universality
  imports Compression Umash
begin

text \<open>
  From blocks to inputs: two different inputs of the same number of blocks differ in the chunks
  or in the tag of some block, so the bounds on block collisions hold for the whole streams of
  compressed values that \<open>umash_long\<close> hands to the polynomial hash.
\<close>

subsection \<open>Blocks and tags of an input\<close>

lemma block_list_ok: "\<lbrakk>8 \<le> length buf; (cs, s) \<in> set (block_list buf)\<rbrakk> \<Longrightarrow> block_ok cs"
  using block_chunk_count block_chunk_lengths unfolding block_ok_def by blast

lemma block_sizes:
  assumes "8 \<le> length buf" "(cs, s) \<in> set (block_list buf)"
  shows "1 \<le> s \<and> s \<le> 256"
proof -
  have "(cs, s) \<in> set (butlast (block_list buf)) \<or> (cs, s) = last (block_list buf)"
    using assms(2) by (metis append_butlast_last_id in_set_conv_nth length_greater_0_conv
        less_nat_zero_code list.size(3) rotate1.simps(2) set_ConsD set_rotate1)
  then show ?thesis
  proof
    assume "(cs, s) = last (block_list buf)"
    then have s: "s = length buf - 256 * ((length buf - 1) div 256)"
      using last_block_size [OF assms(1)] by (metis snd_conv)
    have "length buf - 1 = 256 * ((length buf - 1) div 256) + (length buf - 1) mod 256"
      by simp
    moreover have "(length buf - 1) mod 256 < 256" by simp
    ultimately show ?thesis
      using s assms(1) by linarith
  next
    assume "(cs, s) \<in> set (butlast (block_list buf))"
    then show ?thesis
      using full_blocks [OF assms(1), of cs s] by simp
  qed
qed

lemma block_tags_differ:
  assumes "1 \<le> s" "s \<le> 256" "1 \<le> s'" "s' \<le> 256" "s \<noteq> s'"
  shows "tags_differ (block_tag seed s) (block_tag seed s')"
  unfolding tags_differ_def
proof
  have low: "(x * W) mod (W * W) = (x mod W) * W" for x
    by (simp add: mult_mod_left)
  assume "block_tag seed s mod (W * W) = block_tag seed s' mod (W * W)"
  then have "(seed XOR int (s mod 256)) mod W = (seed XOR int (s' mod 256)) mod W"
    by (simp add: block_tag_def low)
  then have "int (s mod 256) mod W = int (s' mod 256) mod W"
    unfolding W_mod take_bit_xor by simp
  moreover have "int (k mod 256) mod W = int (k mod 256)" for k
  proof -
    have "int (k mod 256) < 256"
      using mod_less_divisor [of 256 k] by linarith
    then show ?thesis by (simp add: W_def)
  qed
  ultimately have "s mod 256 = s' mod 256"
    by simp
  then show False
    using assms by (cases "s = 256"; cases "s' = 256") simp_all
qed

text \<open>The input determines its blocks, and the blocks the input.\<close>

lemma block_list_inj: "\<lbrakk>8 \<le> length xs; 8 \<le> length ys\<rbrakk> \<Longrightarrow> block_list xs = block_list ys \<longleftrightarrow> xs = ys"
  by (metis recover_blocks)

lemma differing_block:
  assumes "8 \<le> length xs" "8 \<le> length ys" "xs \<noteq> ys" "length (block_list xs) = length (block_list ys)"
  obtains i cs s cs' s' where "i < length (block_list xs)" "block_list xs ! i = (cs, s)"
    "block_list ys ! i = (cs', s')" "block_ok cs" "block_ok cs'"
    "cs \<noteq> cs' \<or> tags_differ (block_tag seed s) (block_tag seed s')"
proof -
  obtain i where i: "i < length (block_list xs)" "block_list xs ! i \<noteq> block_list ys ! i"
    using assms block_list_inj nth_equalityI by metis
  obtain cs s cs' s' where b: "block_list xs ! i = (cs, s)" "block_list ys ! i = (cs', s')"
    by fastforce
  then have mem: "(cs, s) \<in> set (block_list xs)" "(cs', s') \<in> set (block_list ys)"
    using i(1) assms(4) by (metis nth_mem)+
  have "cs \<noteq> cs' \<or> tags_differ (block_tag seed s) (block_tag seed s')"
    using i(2) b block_sizes [OF assms(1) mem(1)] block_sizes [OF assms(2) mem(2)]
      block_tags_differ [of s s' seed] by auto
  then show ?thesis
    using that [OF i(1) b] block_list_ok [OF assms(1) mem(1)] block_list_ok [OF assms(2) mem(2)] by blast
qed

subsection \<open>Streams of compressed values\<close>

definition compressed :: "int list \<Rightarrow> int \<Rightarrow> bytes \<Rightarrow> bool \<Rightarrow> int list" where
  "compressed ohs seed buf secondary = map (oh_value ohs seed secondary) (block_list buf)"

lemma compressed_at:
  assumes "ks \<in> keys 34" "i < length (block_list buf)" "block_list buf ! i = (cs, s)" "block_ok cs"
  shows "compressed ks seed buf False ! i = primary_at ks (block_tag seed s) cs"
    and "compressed ks seed buf True ! i = secondary_at ks (block_tag seed s) cs"
  using assms oh_primary_at [OF assms(1,4)] oh_secondary_at [OF assms(1,4)]
  by (simp_all add: compressed_def oh_value_def)

lemma length_compressed [simp]: "length (compressed ks seed buf secondary) = length (block_list buf)"
  by (simp add: compressed_def)

text \<open>A block whose collision both streams depend on.\<close>

lemma colliding_block:
  assumes "8 \<le> length xs" "8 \<le> length ys" "xs \<noteq> ys" "length (block_list xs) = length (block_list ys)"
  obtains t t' cs cs' where "block_ok cs" "block_ok cs'" "cs \<noteq> cs' \<or> tags_differ t t'"
    "\<And>ks. \<lbrakk>ks \<in> keys 34; compressed ks seed xs False = compressed ks seed ys False\<rbrakk> \<Longrightarrow>
      primary_at ks t cs = primary_at ks t' cs'"
    "\<And>ks. \<lbrakk>ks \<in> keys 34; compressed ks seed xs True = compressed ks seed ys True\<rbrakk> \<Longrightarrow>
      secondary_at ks t cs = secondary_at ks t' cs'"
proof -
  obtain i cs s cs' s' where i: "i < length (block_list xs)" "block_list xs ! i = (cs, s)"
    "block_list ys ! i = (cs', s')" "block_ok cs" "block_ok cs'"
    "cs \<noteq> cs' \<or> tags_differ (block_tag seed s) (block_tag seed s')"
    using differing_block [OF assms] .
  note at = compressed_at [OF _ i(1,2,4), of _ seed]
    compressed_at [OF _ i(1) [unfolded assms(4)] i(3,5), of _ seed]
  have "primary_at ks (block_tag seed s) cs = primary_at ks (block_tag seed s') cs'"
    if "ks \<in> keys 34" "compressed ks seed xs False = compressed ks seed ys False" for ks
    using arg_cong [OF that(2), of "\<lambda>l. l ! i"] at(1,3) [OF that(1)] by simp
  moreover have "secondary_at ks (block_tag seed s) cs = secondary_at ks (block_tag seed s') cs'"
    if "ks \<in> keys 34" "compressed ks seed xs True = compressed ks seed ys True" for ks
    using arg_cong [OF that(2), of "\<lambda>l. l ! i"] at(2,4) [OF that(1)] by simp
  ultimately show ?thesis
    using that [OF i(4-6)] by blast
qed

text \<open>Streams of different lengths are different.\<close>

lemma rare_lengths:
  assumes "length (block_list xs) \<noteq> length (block_list ys)"
  shows "rare n e (\<lambda>ks. compressed ks seed xs secondary = compressed ks seed ys secondary \<and> P ks)"
proof -
  have "\<not> (compressed ks seed xs secondary = compressed ks seed ys secondary \<and> P ks)" for ks
    using assms by (metis length_compressed)
  then show ?thesis by (rule rare_never)
qed

lemma compressed_collisions:
  assumes len: "8 \<le> length xs" "8 \<le> length ys" and diff: "xs \<noteq> ys"
  shows "rare 34 63 (\<lambda>ks. compressed ks seed xs secondary = compressed ks seed ys secondary)"
    and "rare 34 99 (\<lambda>ks. compressed ks seed xs False = compressed ks seed ys False \<and>
      compressed ks seed xs True = compressed ks seed ys True)"
proof -
  have "rare 34 63 (\<lambda>ks. compressed ks seed xs secondary = compressed ks seed ys secondary) \<and>
    rare 34 99 (\<lambda>ks. compressed ks seed xs False = compressed ks seed ys False \<and>
      compressed ks seed xs True = compressed ks seed ys True)"
  proof (cases "length (block_list xs) = length (block_list ys)")
    case True
    obtain t t' cs cs' where b: "block_ok cs" "block_ok cs'" "cs \<noteq> cs' \<or> tags_differ t t'"
      and f: "\<And>ks. \<lbrakk>ks \<in> keys 34; compressed ks seed xs False = compressed ks seed ys False\<rbrakk> \<Longrightarrow>
        primary_at ks t cs = primary_at ks t' cs'"
      and g: "\<And>ks. \<lbrakk>ks \<in> keys 34; compressed ks seed xs True = compressed ks seed ys True\<rbrakk> \<Longrightarrow>
        secondary_at ks t cs = secondary_at ks t' cs'"
      using colliding_block [OF len diff True] by metis
    have "rare 34 63 (\<lambda>ks. compressed ks seed xs secondary = compressed ks seed ys secondary)"
    proof (cases secondary)
      case True
      then show ?thesis
        using g by (intro rare_mono [OF secondary_collisions [OF b]]) simp_all
    next
      case False
      then show ?thesis
        using f by (intro rare_mono [OF primary_collisions [OF b]]) simp_all
    qed
    moreover have "rare 34 99 (\<lambda>ks. compressed ks seed xs False = compressed ks seed ys False \<and>
        compressed ks seed xs True = compressed ks seed ys True)"
      using f g by (intro rare_mono [OF both_collisions [OF b]]) simp_all
    ultimately show ?thesis ..
  next
    case False
    then show ?thesis
      using rare_lengths [OF False, of _ _ _ _ "\<lambda>ks. True"] rare_lengths [OF False] by simp
  qed
  then show "rare 34 63 (\<lambda>ks. compressed ks seed xs secondary = compressed ks seed ys secondary)"
    and "rare 34 99 (\<lambda>ks. compressed ks seed xs False = compressed ks seed ys False \<and>
      compressed ks seed xs True = compressed ks seed ys True)"
    by simp_all
qed

lemma oh_compress_compressed:
  assumes "ks \<in> keys 34" "8 \<le> length buf"
  shows "oh_compress ks seed (blockify_chunks (chunk_bytes buf)) secondary =
    gen_of_list (compressed ks seed buf secondary)"
proof -
  have "\<forall>(cs, s) \<in> set (block_list buf). (\<forall>c \<in> set cs. length c = 16) \<and> 2 * length cs \<le> length ks"
    using block_list_ok [OF assms(2)] assms(1) by (fastforce simp: block_ok_def keys_def)
  then show ?thesis
    using oh_compress_list [of "block_list buf" ks] assms
    by (simp add: blockify_chunks_list compressed_def keys_def)
qed

lemma gen_of_list_eq_iff [simp]: "gen_of_list xs = gen_of_list ys \<longleftrightarrow> xs = ys"
  by (metis drain_gen_of_list sum.inject(2))

subsection \<open>Short inputs of different sizes\<close>

lemma short_key_word:
  assumes "length xs < length ys" "length ys \<le> 8" "length ys < length key" "u64 a" "u64 a'"
    and "umash_short (key[length ys := a]) seed xs = umash_short (key[length ys := a]) seed ys"
    and "umash_short (key[length ys := a']) seed xs = umash_short (key[length ys := a']) seed ys"
  shows "a = a'"
proof -
  have x: "length xs \<le> 8" "length xs < length key" "length xs \<noteq> length ys"
    using assms(1-3) by simp_all
  obtain h where h: "umash_short key seed xs = Inr h" "u64 h"
    using umash_short_u64 [OF x(1,2)] by blast
  obtain v where "vec_to_u64 xs = Inr v"
    using umash_short_cases [OF x(1,2)] by metis
  then have "umash_short (key[length ys := c]) seed xs = Inr h" for c
    using umash_short_eq [of xs key v seed] umash_short_eq [of xs "key[length ys := c]" v seed] x h(1)
    by simp
  then show ?thesis
    using assms(4-7) umash_short_reaches [OF assms(2,3) h(2), of seed] by metis
qed

lemma umash_short_word:
  fixes secondary :: bool
  assumes "length xs < length ys" "length ys \<le> 8" "ks \<in> keys 34" "u64 a" "u64 a'"
  defines "w \<equiv> length ys + (if secondary then 4 else 0)"
  assumes "umash \<lparr>poly = m, oh = ks[w := a]\<rparr> seed xs secondary = umash \<lparr>poly = m, oh = ks[w := a]\<rparr> seed ys secondary"
    and "umash \<lparr>poly = m, oh = ks[w := a']\<rparr> seed xs secondary = umash \<lparr>poly = m, oh = ks[w := a']\<rparr> seed ys secondary"
  shows "a = a'"
proof -
  let ?d = "if secondary then 4 else (0::nat)"
  have "drop ?d (ks[w := c]) = (drop ?d ks)[length ys := c]" for c
    by (simp add: w_def drop_update_swap)
  moreover have "length xs \<le> 8" "length ys < length (drop ?d ks)"
    using assms(1-3) by (auto simp: keys_def)
  ultimately show ?thesis
    using short_key_word [OF assms(1,2) _ assms(4,5), of "drop ?d ks" seed] assms(7,8)
    by (simp add: umash_short_case assms(2))
qed

lemma umash_short_ignores:
  assumes "length buf \<le> k" "k \<le> 8"
  shows "umash \<lparr>poly = m, oh = set_pair ((k + 4) div 2) a b ks\<rparr> seed buf False =
    umash \<lparr>poly = m, oh = ks\<rparr> seed buf False"
proof -
  let ?q = "(k + 4) div 2"
  have b: "length buf \<le> 8" "length buf \<noteq> 2 * ?q" "length buf \<noteq> 2 * ?q + 1"
    using assms by presburger+
  then have g: "py_get (set_pair ?q a b ks) (int (length buf)) = py_get ks (int (length buf))"
    by (simp add: set_pair_def del: of_nat_numeral)
  have "umash_short (set_pair ?q a b ks) seed buf = umash_short ks seed buf"
    unfolding umash_short_def g ..
  then show ?thesis
    by (simp add: umash_short_case [OF b(1)])
qed

lemma umash_short_sizes:
  assumes len: "length xs < length ys" "length ys \<le> 8"
  shows "rare 34 64 (\<lambda>ks. umash \<lparr>poly = m, oh = ks\<rparr> seed xs secondary = umash \<lparr>poly = m, oh = ks\<rparr> seed ys secondary)"
    and "rare 34 128 (\<lambda>ks. umash \<lparr>poly = m, oh = ks\<rparr> seed xs False = umash \<lparr>poly = m, oh = ks\<rparr> seed ys False \<and>
      umash \<lparr>poly = m, oh = ks\<rparr> seed xs True = umash \<lparr>poly = m, oh = ks\<rparr> seed ys True)"
proof -
  let ?C = "\<lambda>secondary ks. umash \<lparr>poly = m, oh = ks\<rparr> seed xs secondary = umash \<lparr>poly = m, oh = ks\<rparr> seed ys secondary"
  let ?w = "\<lambda>secondary. length ys + (if secondary then 4 else 0)"
  have w: "?w secondary < 34" for secondary
    using len(2) by simp
  have few: "card (pairs (\<lambda>a b. ?C secondary (set_pair (?w secondary div 2) a b ks))) \<le> 2 ^ (128 - 64)"
    if "ks \<in> keys 34" for ks secondary
    using umash_short_word [OF len, where secondary = secondary and m = m and seed = seed] w
    by (intro pairs_one_word [OF _ _ that]) auto
  then have r: "rare 34 64 (?C secondary)" for secondary
    using w by (intro rare_fibre [OF pair_of_word]) simp_all
  then show "rare 34 64 (?C secondary)" .
  have "ignores (?w True div 2) (?C False)"
    unfolding ignores_def using umash_short_ignores [of _ "length ys"] len by simp
  then have "rare 34 (64 + 64) (\<lambda>ks. ?C False ks \<and> ?C True ks)"
    using few [of _ True] w [of True]
    by (intro rare_conj_fibre [OF r pair_of_word [of "?w True"]]) simp_all
  then show "rare 34 128 (\<lambda>ks. ?C False ks \<and> ?C True ks)"
    by simp
qed

end
