(* ===== verification/Tag_Agreement.thy ===== *)
theory Tag_Agreement
  imports Truncated Universality
begin

text \<open>
  Blocks with the same chunks and different sizes: only the tag that \<open>ENH\<close> adds tells them
  apart, by less than 256 in the high word of a product. Their halves agree only when that word
  lies within 256 of a multiple of \<open>2 ** 60\<close>, and the high word of a product of two random words
  takes each value rarely.
\<close>

subsection \<open>The high word of a product\<close>

lemma division_sum: "(\<Sum>a = 1..<2 ^ n. 2 ^ m div a + 1) \<le> n * 2 ^ m + (2::nat) ^ n"
proof (induction n)
  case (Suc n)
  have "{1..<2 ^ Suc n :: nat} = {1..<2 ^ n} \<union> {2 ^ n..<2 ^ Suc n}"
    by (intro ivl_disj_un_two(3) [symmetric]) simp_all
  then have "(\<Sum>a = 1..<2 ^ Suc n. 2 ^ m div a + 1) =
      (\<Sum>a = 1..<2 ^ n. 2 ^ m div a + 1) + (\<Sum>a = 2 ^ n..<2 ^ Suc n. 2 ^ m div a + (1::nat))"
    by (simp only:) (intro sum.union_disjoint; auto)
  also have "(\<Sum>a = 2 ^ n..<2 ^ Suc n. 2 ^ m div a + (1::nat)) \<le> (\<Sum>a \<in> {2 ^ n..<2 ^ Suc n :: nat}. 2 ^ m div 2 ^ n + (1::nat))"
    by (intro sum_mono add_right_mono div_le_mono2) simp_all
  also have "\<dots> = 2 ^ n * (2 ^ m div 2 ^ n) + 2 ^ n"
    by simp
  also have "\<dots> \<le> 2 ^ m + 2 ^ n"
    by simp
  finally show ?case
    using Suc.IH by simp
qed simp

lemma high_word_partners:
  assumes "0 < A"
  shows "card {b \<in> words. A * b div W = h} \<le> 2 ^ 64 div nat A + 1"
proof -
  let ?l = "(h * W + A - 1) div A"
  have "{b \<in> words. A * b div W = h} \<subseteq> {?l..?l + int (2 ^ 64 div nat A)}"
  proof
    fix b assume "b \<in> {b \<in> words. A * b div W = h}"
    then have "h * W + A * b mod W = A * b" by auto
    then have b: "h * W \<le> A * b" "A * b < h * W + W"
      using pos_mod_bound [OF W_pos(1), of "A * b"] pos_mod_sign [OF W_pos(1), of "A * b"] by linarith+
    have "?l \<le> b"
    proof -
      have "h * W + A - 1 < (b + 1) * A"
        using b(1) by (simp add: algebra_simps)
      then have "?l < b + 1"
        using assms by (rule div_less_of_less_mult)
      then show ?thesis by simp
    qed
    moreover have "b - ?l \<le> W div A"
    proof -
      have "h * W \<le> ?l * A"
        using div_mult_mod_eq [of "h * W + A - 1" A] pos_mod_bound [OF assms, of "h * W + A - 1"]
        by linarith
      then have "(b - ?l) * A \<le> W"
        using b(2) by (simp add: algebra_simps)
      then show ?thesis
        using zdiv_mono1 [of "(b - ?l) * A" W A] assms by simp
    qed
    moreover have "int (2 ^ 64 div nat A) = W div A"
      using assms by (simp add: zdiv_int W_def)
    ultimately show "b \<in> {?l..?l + int (2 ^ 64 div nat A)}"
      by simp
  qed
  from card_mono [OF _ this] show ?thesis
    by simp
qed

lemma sum_from_zero: "0 < N \<Longrightarrow> (\<Sum>n < N. f n) = f (0::nat) + (\<Sum>n = 1..<N. f n :: nat)"
  by (simp add: lessThan_atLeast0 sum.atLeast_Suc_lessThan)

lemma high_words:
  assumes u: "u64 xa" "u64 xb"
  shows "card (pairs (\<lambda>ka kb. nh ka kb xa xb div W = h)) \<le> 2 ^ 71"
proof -
  let ?s = "\<lambda>x k. (x + k) mod W"
  have bij: "bij_betw (?s x) words words" if "u64 x" for x
  proof -
    have "inj_on (?s x) words"
      unfolding inj_on_def words_def using shifted_words_inj by blast
    moreover have "?s x ` words \<subseteq> words"
      by (auto simp: words_def)
    ultimately show ?thesis
      by (simp add: bij_betw_def endo_inj_surj)
  qed
  have row: "card {b \<in> words. nh a b xa xb div W = h} = card {b \<in> words. ?s xa a * b div W = h}" for a
  proof -
    have "bij_betw (?s xb) {b \<in> words. nh a b xa xb div W = h} {b \<in> words. ?s xa a * b div W = h}"
      unfolding nh_def
      by (rule bij_betw_Collect [OF bij [OF u(2)]]) simp
    then show ?thesis by (rule bij_betw_same_card)
  qed
  have "card (pairs (\<lambda>ka kb. nh ka kb xa xb div W = h)) =
      (\<Sum>a \<in> words. card {b \<in> words. ?s xa a * b div W = h})"
    unfolding pairs_Sigma by (simp add: card_SigmaI row)
  also have "\<dots> = (\<Sum>A \<in> words. card {b \<in> words. A * b div W = h})"
    by (rule sum.reindex_bij_betw [OF bij [OF u(1)]])
  also have "\<dots> = (\<Sum>n < 2 ^ 64. card {b \<in> words. int n * b div W = h})"
    by (rule sum.reindex_bij_witness [of _ int nat]) (auto simp: words_def u64_def W_def)
  also have "\<dots> = card {b \<in> words. 0 * b div W = h} + (\<Sum>n = 1..<2 ^ 64. card {b \<in> words. int n * b div W = h})"
    using sum_from_zero [of "2 ^ 64" "\<lambda>n. card {b \<in> words. int n * b div W = h}"] by simp
  also have "\<dots> \<le> 2 ^ 64 + (\<Sum>n = 1..<2 ^ 64. 2 ^ 64 div n + 1)"
  proof (intro add_mono sum_mono)
    show "card {b \<in> words. 0 * b div W = h} \<le> 2 ^ 64"
      unfolding card_words [symmetric] by (intro card_mono) auto
    show "card {b \<in> words. int n * b div W = h} \<le> 2 ^ 64 div n + 1" if "n \<in> {1..<2 ^ 64}" for n
      using high_word_partners [of "int n" h] that by simp
  qed
  also have "\<dots> \<le> 2 ^ 64 + (64 * 2 ^ 64 + 2 ^ 64)"
    using division_sum [of 64 64] by (intro add_left_mono)
  finally show ?thesis by simp
qed

subsection \<open>Values near a multiple of \<open>2 ** 60\<close>\<close>

definition edge_words :: "int set" where
  "edge_words = {x. u64 x \<and> (x + 256) mod 2 ^ 60 < 512}"

lemma edge_words: "finite edge_words" "card edge_words \<le> 2 ^ 14"
proof -
  let ?A = "{0..16::int} \<times> {0..<512::int}"
  have fin: "finite ?A" by simp
  have sub: "edge_words \<subseteq> (\<lambda>(q, r). q * 2 ^ 60 + r - 256) ` ?A"
  proof
    fix x assume x: "x \<in> edge_words"
    let ?q = "(x + 256) div 2 ^ 60" and ?r = "(x + 256) mod 2 ^ 60"
    have "0 \<le> x + 256" "x + 256 < 17 * 2 ^ 60"
      using x by (auto simp: edge_words_def u64_def W_def)
    then have "0 \<le> ?q" "?q < 17"
      using div_less_of_less_mult [of "x + 256" 17 "2 ^ 60"] by (simp_all add: pos_imp_zdiv_nonneg_iff)
    moreover have "0 \<le> ?r" "?r < 512"
      using x by (simp_all add: edge_words_def)
    moreover have "x = ?q * 2 ^ 60 + ?r - 256"
      using div_mult_mod_eq [of "x + 256" "2 ^ 60"] by linarith
    ultimately show "x \<in> (\<lambda>(q, r). q * 2 ^ 60 + r - 256) ` ?A"
      by (intro rev_image_eqI [of "(?q, ?r)"]) simp_all
  qed
  show "finite edge_words"
    by (rule finite_subset [OF sub]) simp
  have "card edge_words \<le> card ?A"
    using card_mono [OF finite_imageI [OF fin] sub] card_image_le [OF fin] le_trans by blast
  then show "card edge_words \<le> 2 ^ 14"
    by (simp add: card_cartesian_product)
qed

lemma in_last_segment:
  fixes x q r e :: int
  assumes "x = q * 2 ^ 60 + r" "256 \<le> r" "r < 2 ^ 60 - 256" "- 256 < e" "e < 256" "0 \<le> q" "q \<le> 15"
  shows "0 \<le> x + e" "x + e < W"
  using assms by (simp_all add: W_def)

text \<open>Away from the edges, a small step stays in the same segment of \<open>2 ** 60\<close> words.\<close>

lemma inner_step:
  assumes "u64 x" "u64 y" "x \<notin> edge_words" "(y - x) mod W = e mod W" "\<bar>e\<bar> < 256"
  shows "y = x + e" "x div 2 ^ 60 = y div 2 ^ 60"
proof -
  let ?q = "x div 2 ^ 60" and ?r = "x mod 2 ^ 60"
  have x: "x = ?q * 2 ^ 60 + ?r" "0 \<le> ?r" "?r < 2 ^ 60"
    by simp_all
  have e: "- 256 < e" "e < 256"
    using assms(5) by auto
  have r: "256 \<le> ?r" "?r < 2 ^ 60 - 256"
  proof -
    have "512 \<le> (x + 256) mod 2 ^ 60"
      using assms(1,3) by (simp add: edge_words_def)
    also have "(x + 256) mod 2 ^ 60 = (?r + 256) mod 2 ^ 60"
      by (simp add: mod_add_left_eq)
    finally have m: "512 \<le> (?r + 256) mod 2 ^ 60" .
    show "256 \<le> ?r"
      using m x(2,3) by (cases "?r + 256 < 2 ^ 60") (auto simp: not_less)
    show "?r < 2 ^ 60 - 256"
    proof (rule ccontr)
      assume "\<not> ?r < 2 ^ 60 - 256"
      then have "0 \<le> ?r + 256 - 2 ^ 60" "?r + 256 - 2 ^ 60 < 2 ^ 60"
        using x(3) by simp_all
      then have "(?r + 256 - 2 ^ 60) mod 2 ^ 60 = ?r + 256 - 2 ^ 60"
        by (rule mod_pos_pos_trivial)
      then have "(?r + 256) mod 2 ^ 60 = ?r + 256 - 2 ^ 60"
        unfolding minus_mod_self2 .
      then show False
        using m x(3) by linarith
    qed
  qed
  have q: "0 \<le> ?q" "?q \<le> 15"
    using assms(1) by (auto simp: u64_def W_def)
  have in_W: "0 \<le> x + e" "x + e < W"
    using in_last_segment [OF x(1) r e q] by simp_all
  have "y mod W = (x + e) mod W"
    using assms(4) by (simp add: mod_eq_dvd_iff algebra_simps)
  then show y: "y = x + e"
    using in_W assms(2) by (simp add: u64_def)
  have "y = ?r + e + ?q * 2 ^ 60"
    using x(1) y by linarith
  also have "\<dots> div 2 ^ 60 = ?q + (?r + e) div 2 ^ 60"
    by (rule div_mult_self1) simp
  also have "(?r + e) div 2 ^ 60 = 0"
    using r e by (intro div_pos_pos_trivial) linarith+
  finally have "y div 2 ^ 60 = ?q" by simp
  then show "x div 2 ^ 60 = y div 2 ^ 60" ..
qed

lemma congruent_segments:
  assumes "z mod M61 = w mod M61" "z div 2 ^ 60 = w div 2 ^ 60"
  shows "z = (w::int)"
proof -
  have "\<bar>z - w\<bar> < 2 ^ 60"
    using assms(2) div_mult_mod_eq [of z "2 ^ 60"] div_mult_mod_eq [of w "2 ^ 60"]
      pos_mod_bound [of "2 ^ 60" z] pos_mod_bound [of "2 ^ 60" w]
      pos_mod_sign [of "2 ^ 60" z] pos_mod_sign [of "2 ^ 60" w] by simp
  then have "\<bar>z - w\<bar> < M61"
    by (simp add: M61_def)
  moreover have "M61 dvd z - w"
    using assms(1) by (simp add: mod_eq_dvd_iff)
  ultimately show ?thesis
    using zdvd_not_zless [of "\<bar>z - w\<bar>" M61] by (cases "z = w") simp_all
qed

subsection \<open>Tags of blocks of different sizes\<close>

text \<open>The high word of an \<open>ENH\<close> value under a block tag, before the fold.\<close>

lemma enh_halves:
  "enh (d * W) ka kb xa xb mod W = nh ka kb xa xb mod W"
  "enh (d * W) ka kb xa xb div W = (nh ka kb xa xb div W + d) mod W XOR nh ka kb xa xb mod W"
proof -
  let ?n = "nh ka kb xa xb"
  let ?e = "(?n + d * W) mod (W * W)"
  have e: "?e mod W = ?n mod W" "?e div W = (?n div W + d) mod W"
  proof -
    show "?e mod W = ?n mod W"
      by (simp add: mod_mod_cancel)
    have "?e = W * ((?n + d * W) div W mod W) + (?n + d * W) mod W"
      by (rule zmod_zmult2_eq) (simp add: W_def)
    also have "\<dots> div W = (?n + d * W) div W mod W"
      by simp
    finally show "?e div W = (?n div W + d) mod W"
      by (simp add: add.commute)
  qed
  have fold: "fold_low v div W = v div W XOR v mod W" for v
    unfolding fold_low_def xor_div_W by simp
  show "enh (d * W) ka kb xa xb mod W = ?n mod W"
    unfolding enh_def fold_low_low e ..
  show "enh (d * W) ka kb xa xb div W = (?n div W + d) mod W XOR ?n mod W"
    unfolding enh_def fold e ..
qed

definition near_words :: "int \<Rightarrow> int set" where
  "near_words d = {m. u64 m \<and> (m + d) mod W \<in> edge_words}"

lemma near_words: "finite (near_words d)" "card (near_words d) \<le> 2 ^ 14"
proof -
  show "finite (near_words d)"
    by (rule finite_subset [OF _ finite_words]) (auto simp: near_words_def words_def)
  have "inj_on (\<lambda>m. (m + d) mod W) (near_words d)"
    unfolding inj_on_def near_words_def add.commute [of _ d] using shifted_words_inj by blast
  then have "card (near_words d) \<le> card edge_words"
    by (rule card_inj_on_le) (auto simp: near_words_def edge_words)
  then show "card (near_words d) \<le> 2 ^ 14"
    using edge_words(2) by linarith
qed

lemma enh_tags_agree:
  assumes "u128 r" "halves_agree (enh (d * W) ka kb xa xb XOR r) (enh (d' * W) ka kb xa xb XOR r)"
    and near: "\<bar>d' - d\<bar> < 256" "d \<noteq> d'"
  shows "nh ka kb xa xb div W \<in> near_words d"
proof (rule ccontr)
  let ?m = "nh ka kb xa xb div W" and ?u = "nh ka kb xa xb mod W XOR r div W"
  let ?x = "(?m + d) mod W" and ?y = "(?m + d') mod W"
  assume "?m \<notin> near_words d"
  moreover have "u64 ?m"
    using u128_div nh_range by (simp add: u128_def)
  ultimately have inner: "?x \<notin> edge_words"
    by (simp add: near_words_def)
  have "(?y - ?x) mod W = (d' - d) mod W"
    by (simp add: mod_diff_eq)
  from inner_step [OF u64_mod u64_mod inner this near(1)] have step: "?y = ?x + (d' - d)" "?x div 2 ^ 60 = ?y div 2 ^ 60" .
  have "(?x XOR ?u) div 2 ^ 60 = (?y XOR ?u) div 2 ^ 60"
    using step(2) unfolding drop_bit_eq_div [symmetric] drop_bit_xor by (rule arg_cong)
  moreover have "(?x XOR ?u) mod M61 = (?y XOR ?u) mod M61"
    using assms(2) unfolding halves_agree_def xor_div_W enh_halves by (simp only: xor.assoc)
  ultimately have "?x XOR ?u = ?y XOR ?u"
    using congruent_segments by blast
  then show False
    using step(1) near(2) by simp
qed

lemma block_tags_near:
  assumes "1 \<le> s" "s \<le> 256" "1 \<le> s'" "s' \<le> 256" "s \<noteq> s'"
  obtains d d' where "block_tag seed s = d * W" "block_tag seed s' = d' * W" "\<bar>d' - d\<bar> < 256" "d \<noteq> d'"
proof -
  have "(seed XOR int (k mod 256)) div 256 = seed div 256" for k
    using drop_bit_xor [of 8 seed "int (k mod 256)"] by (simp add: drop_bit_eq_div)
  then have "(seed XOR int (s mod 256)) div 256 = (seed XOR int (s' mod 256)) div 256"
    by simp
  then have "\<bar>(seed XOR int (s' mod 256)) - (seed XOR int (s mod 256))\<bar> < 256"
    by linarith
  moreover have "s mod 256 \<noteq> s' mod 256"
    using assms by (cases "s = 256"; cases "s' = 256") simp_all
  then have "seed XOR int (s mod 256) \<noteq> seed XOR int (s' mod 256)"
    by simp
  ultimately show ?thesis
    using that by (simp add: block_tag_def)
qed

text \<open>
  A compressor that adds, to the last position, something the tag does not touch.
\<close>

lemma tags_agree:
  assumes ok: "block_ok x" and sizes: "1 \<le> s" "s \<le> 256" "1 \<le> s'" "s' \<le> 256" "s \<noteq> s'"
    and form: "\<And>ks z. ks \<in> keys 34 \<Longrightarrow> u128 (r ks) \<and> f ks (block_tag seed z) =
      mixed_at ks (block_tag seed z) x (length x - 1) XOR r ks"
  shows "rare 34 43 (\<lambda>ks. halves_agree (f ks (block_tag seed s)) (f ks (block_tag seed s')))"
proof -
  let ?q = "length x - 1"
  let ?n = "\<lambda>ks. nh (ks ! (2 * ?q)) (ks ! (2 * ?q + 1)) (lo_word (x ! ?q)) (hi_word (x ! ?q)) div W"
  obtain d d' where d: "block_tag seed s = d * W" "block_tag seed s' = d' * W" "\<bar>d' - d\<bar> < 256" "d \<noteq> d'"
    using block_tags_near [OF sizes] .
  have "rare 34 43 (\<lambda>ks. ?n ks \<in> near_words d)"
  proof (rule rare_fibre [OF last_words(3) [OF ok]])
    fix ks assume "ks \<in> keys 34"
    then have len: "2 * ?q + 1 < length ks"
      using last_words(3) [OF ok] by (simp add: keys_def)
    have "card (pairs (\<lambda>a b. ?n (set_pair ?q a b ks) \<in> near_words d)) \<le> card (near_words d) * 2 ^ 71"
      unfolding set_pair_nth(1,2) [OF len]
      by (intro card_pairs_values near_words high_words last_words ok)
    also have "\<dots> \<le> 2 ^ 14 * 2 ^ 71"
      using near_words(2) by (rule mult_right_mono) simp
    finally show "card (pairs (\<lambda>a b. ?n (set_pair ?q a b ks) \<in> near_words d)) \<le> 2 ^ (128 - 43)"
      by simp
  qed simp
  moreover have "?n ks \<in> near_words d"
    if ks: "ks \<in> keys 34" "halves_agree (f ks (block_tag seed s)) (f ks (block_tag seed s'))" for ks
  proof -
    have "?q + 1 = length x"
      using ok by (simp add: block_ok_def)
    then have "mixed_at ks t x ?q =
        enh t (ks ! (2 * ?q)) (ks ! (2 * ?q + 1)) (lo_word (x ! ?q)) (hi_word (x ! ?q))" for t
      unfolding mixed_at_def by (simp only: refl if_True)
    with form [OF ks(1)] have "f ks (block_tag seed z) = enh (block_tag seed z) (ks ! (2 * ?q))
        (ks ! (2 * ?q + 1)) (lo_word (x ! ?q)) (hi_word (x ! ?q)) XOR r ks" for z
      by (simp only:)
    from ks(2) [unfolded this] form [OF ks(1)] show ?thesis
      unfolding d(1,2) by (intro enh_tags_agree [OF _ _ d(3,4)]) simp_all
  qed
  ultimately show ?thesis
    by (rule rare_mono) simp_all
qed

end
