(* ===== verification/Hash_Collisions.thy ===== *)
theory Hash_Collisions
  imports Tag_Agreement Keys
begin

text \<open>
  Collisions of whole hashes over a random key: multiplier and \<open>OH\<close> words together. Two different
  inputs rarely compress to streams that agree modulo \<open>2 ** 61 - 1\<close>, and when the streams differ
  there, few multipliers make the polynomials agree.
\<close>

subsection \<open>Blocks\<close>

lemma primary_tags_agree:
  assumes ok: "block_ok x" and sizes: "1 \<le> s" "s \<le> 256" "1 \<le> s'" "s' \<le> 256" "s \<noteq> s'"
  shows "rare 34 43 (\<lambda>ks. halves_agree (primary_at ks (block_tag seed s) x) (primary_at ks (block_tag seed s') x))"
proof (rule tags_agree [OF ok sizes, where f = "\<lambda>ks t. primary_at ks t x"])
  let ?q = "length x - 1"
  have q: "?q < length x" "?q + 1 = length x"
    using ok by (simp_all add: block_ok_def)
  fix ks :: "int list" and z assume ks: "ks \<in> keys 34"
  let ?r = "\<lambda>ks. xor_upto (length x) ((mixed_at ks 0 x)(?q := 0))"
  have "xor_upto (length x) ((mixed_at ks t x)(?q := 0)) = ?r ks" for t
    using q by (intro xor_upto_cong) (auto simp: mixed_at_def)
  then have "primary_at ks t x = mixed_at ks t x ?q XOR ?r ks" for t
    using xor_upto_split [OF q(1), of "mixed_at ks t x"] by (simp add: primary_at_def)
  moreover have "u128 (?r ks)"
    using mixed_u128 [OF ok ks] by (intro xor_upto_u128) (simp add: u128_def [of 0] W_def)
  ultimately show "u128 (?r ks) \<and> primary_at ks (block_tag seed z) x =
      mixed_at ks (block_tag seed z) x ?q XOR ?r ks" by blast
qed

lemma secondary_tags_agree:
  assumes ok: "block_ok x" and sizes: "1 \<le> s" "s \<le> 256" "1 \<le> s'" "s' \<le> 256" "s \<noteq> s'"
  shows "rare 34 43 (\<lambda>ks. halves_agree (secondary_at ks (block_tag seed s) x) (secondary_at ks (block_tag seed s') x))"
proof (rule tags_agree [OF ok sizes, where f = "\<lambda>ks t. secondary_at ks t x"])
  let ?q = "length x - 1" and ?s = "\<lambda>ks t p. shuffler (length x) (p + 1) (mixed_at ks t x p)"
  have q: "?q < length x" "?q + 1 = length x"
    using ok by (simp_all add: block_ok_def)
  fix ks :: "int list" and z assume ks: "ks \<in> keys 34"
  let ?c = "\<lambda>ks. ph (ks ! (2 * 16)) (ks ! (2 * 16 + 1)) (check_lo ks x) (check_hi ks x)"
  let ?r = "\<lambda>ks. ?c ks XOR xor_upto (length x) ((?s ks 0)(?q := 0))"
  have "xor_upto (length x) ((?s ks t)(?q := 0)) = xor_upto (length x) ((?s ks 0)(?q := 0))" for t
    using q by (intro xor_upto_cong) (auto simp: mixed_at_def)
  moreover have "?s ks t ?q = mixed_at ks t x ?q" for t
    unfolding q(2) by simp
  ultimately have "secondary_at ks t x = mixed_at ks t x ?q XOR ?r ks" for t
    using xor_upto_split [OF q(1), of "?s ks t"] by (simp add: secondary_at_def shuffled_at_def xor_ac)
  moreover have "u128 (?r ks)"
  proof (rule u128_xor)
    have "u64 (ks ! 32)" "u64 (ks ! 33)"
      using ks by (simp_all add: keys_def)
    then show "u128 (?c ks)"
      using check_u64 [OF ok ks] by (intro ph_range_u128 ph_u128 u64_xor) simp_all
    show "u128 (xor_upto (length x) ((?s ks 0)(?q := 0)))"
      using mixed_u128 [OF ok ks] by (intro xor_upto_u128) (simp add: shuffler_u128 u128_def [of 0] W_def)
  qed
  ultimately show "u128 (?r ks) \<and> secondary_at ks (block_tag seed z) x =
      mixed_at ks (block_tag seed z) x ?q XOR ?r ks" by blast
qed

lemma rare_agree_commute: "rare n e (\<lambda>ks. halves_agree (f ks) (g ks)) \<longleftrightarrow> rare n e (\<lambda>ks. halves_agree (g ks) (f ks))"
  by (simp add: halves_agree_commute)

lemma primary_longer_agree:
  assumes "block_ok x" "length y < length x"
  shows "rare 34 40 (\<lambda>ks. halves_agree (primary_at ks t x) (primary_at ks t' y))"
proof -
  have "primary_at (set_pair (length x - 1) a b ks) t' y = primary_at ks t' y" for ks a b
    using assms(2) by (intro primary_at_ignores) simp
  from primary_agrees_with [OF assms(1) this] show ?thesis
    by (rule rare_mono) simp_all
qed

lemma butlast_differ:
  assumes "length x = length y" "butlast x \<noteq> butlast y"
  obtains p where "p + 1 < length x" "x ! p \<noteq> y ! p"
proof -
  have "length (butlast x) = length (butlast y)"
    using assms(1) by simp
  then obtain p where p: "p < length (butlast x)" "butlast x ! p \<noteq> butlast y ! p"
    using assms(2) nth_equalityI by metis
  then have "p < length (butlast y)" "p + 1 < length x"
    using assms(1) by simp_all
  then show ?thesis
    using that [of p] p by (simp add: nth_butlast)
qed

text \<open>
  The primary compressor, for blocks that differ in a chunk that \<open>PH\<close> mixes, in the number of
  chunks, or in the tag alone.
\<close>

lemma primary_blocks_agree:
  assumes ok: "block_ok x" "block_ok y" and sizes: "1 \<le> s" "s \<le> 256" "1 \<le> s'" "s' \<le> 256"
    and diff: "butlast x \<noteq> butlast y \<or> x = y \<and> s \<noteq> s'"
  shows "rare 34 40 (\<lambda>ks. halves_agree (primary_at ks (block_tag seed s) x) (primary_at ks (block_tag seed s') y))"
proof (cases "length x" "length y" rule: linorder_cases)
  case less
  then show ?thesis
    by (intro rare_agree_commute [THEN iffD1, OF primary_longer_agree [OF ok(2)]])
next
  case greater
  then show ?thesis
    by (rule primary_longer_agree [OF ok(1)])
next
  case equal
  show ?thesis
  proof (cases "x = y")
    case True
    then have ne: "s \<noteq> s'"
      using diff by blast
    show ?thesis
      unfolding True by (rule rare_mono [OF primary_tags_agree [OF ok(2) sizes ne, of seed]]) simp_all
  next
    case False
    then obtain p where "p + 1 < length x" "x ! p \<noteq> y ! p"
      using diff butlast_differ [OF equal] by blast
    then show ?thesis
      using ok equal by (intro primary_ph_agree) (simp_all add: aligned_def)
  qed
qed

text \<open>The secondary compressor, for any two blocks.\<close>

lemma secondary_blocks_agree:
  assumes ok: "block_ok x" "block_ok y" and sizes: "1 \<le> s" "s \<le> 256" "1 \<le> s'" "s' \<le> 256"
    and diff: "x \<noteq> y \<or> s \<noteq> s'"
  shows "rare 34 39 (\<lambda>ks. halves_agree (secondary_at ks (block_tag seed s) x) (secondary_at ks (block_tag seed s') y))"
proof (cases "length x" "length y" rule: linorder_cases)
  case less
  then show ?thesis
    by (intro rare_agree_commute [THEN iffD1, OF secondary_longer_agree [OF ok(2,1)]])
next
  case greater
  then show ?thesis
    by (rule secondary_longer_agree [OF ok])
next
  case equal
  show ?thesis
  proof (cases "x = y")
    case True
    then have ne: "s \<noteq> s'"
      using diff by blast
    show ?thesis
      unfolding True by (rule rare_mono [OF secondary_tags_agree [OF ok(2) sizes ne, of seed]]) simp_all
  next
    case False
    then show ?thesis
      by (intro secondary_chunks_agree ok equal)
  qed
qed

subsection \<open>Streams\<close>

lemma word_halves_at:
  "i < length vs \<Longrightarrow> word_halves vs ! (2 * i) = vs ! i mod W \<and> word_halves vs ! (2 * i + 1) = vs ! i div W"
proof (induction vs arbitrary: i rule: word_halves.induct)
  case (2 v vs)
  then show ?case by (cases i) simp_all
qed simp

lemma indistinguishable:
  "\<not> distinguishable vs ws \<Longrightarrow> j < 2 * max (length vs) (length ws) \<Longrightarrow>
     pad_front (2 * max (length vs) (length ws)) (word_halves vs) ! j mod M61 =
     pad_front (2 * max (length vs) (length ws)) (word_halves ws) ! j mod M61"
proof -
  let ?n = "2 * max (length vs) (length ws)"
  assume "\<not> distinguishable vs ws" "j < ?n"
  moreover have "length (pad_front ?n (word_halves vs)) = ?n" "length (pad_front ?n (word_halves ws)) = ?n"
    by (rule length_pad_front; simp)+
  ultimately show ?thesis
    unfolding distinguishable_def Let_def not_not by (metis nth_map)
qed

lemma indistinguishable_same_length:
  assumes "\<not> distinguishable vs ws" "length vs = length ws" "i < length vs"
  shows "halves_agree (vs ! i) (ws ! i)"
proof -
  have "pad_front (2 * length ws) (word_halves vs) = word_halves vs"
    "pad_front (2 * length ws) (word_halves ws) = word_halves ws"
    using assms(2) by (simp_all add: pad_front_def)
  then show ?thesis
    using indistinguishable [OF assms(1), of "2 * i"] indistinguishable [OF assms(1), of "2 * i + 1"]
      word_halves_at [OF assms(3)] word_halves_at [of i ws] assms(2,3)
    by (simp add: halves_agree_def)
qed

lemma indistinguishable_longer:
  assumes "\<not> distinguishable vs ws" "length ws < length vs"
  shows "halves_agree (vs ! 0) 0"
proof -
  let ?n = "2 * max (length vs) (length ws)"
  have n: "?n = 2 * length vs"
    using assms(2) by simp
  have "2 \<le> 2 * length vs - 2 * length ws"
    using assms(2) by linarith
  then have "pad_front ?n (word_halves ws) ! j = 0" if "j < 2" for j
    using that unfolding n by (simp add: pad_front_def nth_append)
  moreover have "pad_front ?n (word_halves vs) = word_halves vs"
    unfolding n by (simp add: pad_front_def)
  moreover have "0 < length vs"
    using assms(2) by linarith
  moreover have "0 < ?n" "1 < ?n"
    using assms(2) unfolding n by linarith+
  ultimately show ?thesis
    using indistinguishable [OF assms(1), of 0] indistinguishable [OF assms(1), of 1] word_halves_at [of 0 vs]
    by (simp add: halves_agree_def)
qed

lemma distinguishable_commute: "distinguishable vs ws \<longleftrightarrow> distinguishable ws vs"
  by (simp add: distinguishable_def Let_def max.commute) metis

text \<open>
  Inputs that do not differ in the last chunks of their blocks alone: the chunks that \<open>PH\<close> mixes
  or the numbers of chunks differ in some block, or no chunk differs at all.
\<close>

definition ph_chunks :: "bytes \<Rightarrow> bytes list list" where
  "ph_chunks buf = map (butlast \<circ> fst) (block_list buf)"

definition ph_apart :: "bytes \<Rightarrow> bytes \<Rightarrow> bool" where
  "ph_apart xs ys \<longleftrightarrow> length xs \<le> 8 \<or> length ys \<le> 8 \<or> ph_chunks xs \<noteq> ph_chunks ys \<or>
     map fst (block_list xs) = map fst (block_list ys)"

lemma compressed_block:
  assumes "ks \<in> keys 34" "8 \<le> length buf" "i < length (block_list buf)" "block_list buf ! i = (cs, s)"
  shows "compressed ks seed buf secondary ! i =
    (if secondary then secondary_at ks (block_tag seed s) cs else primary_at ks (block_tag seed s) cs)"
proof -
  have "block_ok cs"
    using block_list_ok [OF assms(2)] assms(3,4) nth_mem by metis
  then show ?thesis
    using compressed_at [OF assms(1,3,4)] by simp
qed

lemma block_at:
  assumes "8 \<le> length buf" "i < length (block_list buf)" "block_list buf ! i = (cs, s)"
  shows "block_ok cs" "1 \<le> s" "s \<le> 256"
proof -
  have "(cs, s) \<in> set (block_list buf)"
    using assms(2,3) nth_mem by metis
  then show "block_ok cs" "1 \<le> s" "s \<le> 256"
    using block_list_ok [OF assms(1)] block_sizes [OF assms(1)] by blast+
qed

lemma apart_block:
  assumes "xs \<noteq> ys" "8 < length xs" "8 < length ys" "length (block_list xs) = length (block_list ys)"
    and "secondary \<or> ph_apart xs ys"
  obtains i cs s cs' s' where "i < length (block_list xs)" "block_list xs ! i = (cs, s)"
    "block_list ys ! i = (cs', s')" "cs \<noteq> cs' \<or> s \<noteq> s'"
    "secondary \<or> butlast cs \<noteq> butlast cs' \<or> cs = cs' \<and> s \<noteq> s'"
proof -
  have ne: "block_list xs \<noteq> block_list ys"
    using block_list_inj [of xs ys] assms(1-3) by simp
  show ?thesis
  proof (cases "\<not> secondary \<and> ph_chunks xs \<noteq> ph_chunks ys")
    case True
    then obtain i where i: "i < length (block_list xs)" "ph_chunks xs ! i \<noteq> ph_chunks ys ! i"
      using assms(4) nth_equalityI [of "ph_chunks xs" "ph_chunks ys"] by (auto simp: ph_chunks_def)
    obtain cs s cs' s' where b: "block_list xs ! i = (cs, s)" "block_list ys ! i = (cs', s')"
      by fastforce
    then have "butlast cs \<noteq> butlast cs'"
      using i assms(4) by (simp add: ph_chunks_def)
    then show ?thesis
      using that [OF i(1) b] by blast
  next
    case False
    obtain i where i: "i < length (block_list xs)" "block_list xs ! i \<noteq> block_list ys ! i"
      using ne assms(4) nth_equalityI by metis
    obtain cs s cs' s' where b: "block_list xs ! i = (cs, s)" "block_list ys ! i = (cs', s')"
      by fastforce
    have d: "cs \<noteq> cs' \<or> s \<noteq> s'"
      using i(2) b by simp
    have "cs = cs'" if "\<not> secondary"
    proof -
      have "map fst (block_list xs) ! i = map fst (block_list ys) ! i"
        using that False assms(2,3,5) by (simp add: ph_apart_def)
      then show ?thesis
        using i(1) b assms(4) by simp
    qed
    then show ?thesis
      using that [OF i(1) b d] d by blast
  qed
qed

lemma first_value_vanishes:
  assumes "8 < length xs"
  shows "rare 34 56 (\<lambda>ks. halves_agree (compressed ks seed xs secondary ! 0) 0)"
proof -
  have len: "8 \<le> length xs"
    using assms by simp
  then have z: "0 < length (block_list xs)"
    using length_block_list [OF len] by linarith
  obtain cs s where b: "block_list xs ! 0 = (cs, s)" by fastforce
  note ok = block_at [OF len z b]
  have "rare 34 56 (\<lambda>ks. halves_agree (if secondary then secondary_at ks (block_tag seed s) cs
      else primary_at ks (block_tag seed s) cs) 0)"
    using primary_agrees_with [OF ok(1), of "\<lambda>ks. 0"] secondary_agrees_with [OF ok(1), of "\<lambda>ks. 0"]
    by (cases secondary) simp_all
  then show ?thesis
    by (rule rare_mono) (simp_all add: compressed_block [OF _ len z b])
qed

lemma streams_merge_longer:
  assumes "8 < length xs" "length (block_list ys) < length (block_list xs)"
  shows "rare 34 56 (\<lambda>ks. \<not> distinguishable (compressed ks seed xs secondary) (compressed ks seed ys secondary))"
  by (rule rare_mono [OF first_value_vanishes [OF assms(1), of seed secondary]]) (use indistinguishable_longer assms(2) in auto)

lemma streams_merge:
  assumes "xs \<noteq> ys" "8 < length xs" "8 < length ys" "secondary \<or> ph_apart xs ys"
  shows "rare 34 39 (\<lambda>ks. \<not> distinguishable (compressed ks seed xs secondary) (compressed ks seed ys secondary))"
proof (cases "length (block_list xs)" "length (block_list ys)" rule: linorder_cases)
  case less
  show ?thesis
    by (rule rare_mono [OF streams_merge_longer [OF assms(3) less]]) (use distinguishable_commute in auto)
next
  case greater
  show ?thesis
    by (rule rare_mono [OF streams_merge_longer [OF assms(2) greater]]) auto
next
  case equal
  obtain i cs s cs' s' where i: "i < length (block_list xs)" "block_list xs ! i = (cs, s)"
    "block_list ys ! i = (cs', s')" "cs \<noteq> cs' \<or> s \<noteq> s'"
    "secondary \<or> butlast cs \<noteq> butlast cs' \<or> cs = cs' \<and> s \<noteq> s'"
    using apart_block [OF assms(1-3) equal assms(4)] .
  have len: "8 \<le> length xs" "8 \<le> length ys" "i < length (block_list ys)"
    using assms(2,3) i(1) equal by simp_all
  note x = block_at [OF len(1) i(1,2)] and y = block_at [OF len(2,3) i(3)]
  have "rare 34 39 (\<lambda>ks. halves_agree (compressed ks seed xs secondary ! i) (compressed ks seed ys secondary ! i))"
  proof (cases secondary)
    case True
    show ?thesis
      by (rule rare_mono [OF secondary_blocks_agree [OF x(1) y(1) x(2,3) y(2,3) i(4), of seed]])
        (simp_all add: compressed_block [OF _ len(1) i(1,2)] compressed_block [OF _ len(2,3) i(3)] True)
  next
    case False
    have diff: "butlast cs \<noteq> butlast cs' \<or> cs = cs' \<and> s \<noteq> s'"
      using i(5) False by blast
    show ?thesis
      by (rule rare_mono [OF primary_blocks_agree [OF x(1) y(1) x(2,3) y(2,3) diff, of seed]])
        (simp_all add: compressed_block [OF _ len(1) i(1,2)] compressed_block [OF _ len(2,3) i(3)] False)
  qed
  then show ?thesis
    by (rule rare_mono) (use indistinguishable_same_length equal i(1) in auto)
qed

subsection \<open>Multipliers\<close>

lemma card_acceptable: "card {m. is_acceptable_multiplier m} = 2 ^ 61 - 3" "finite {m. is_acceptable_multiplier m}"
proof -
  have "{m. is_acceptable_multiplier m} = {2..<2 ^ 61 - 1}"
    by (auto simp: is_acceptable_multiplier_def)
  then show "card {m. is_acceptable_multiplier m} = 2 ^ 61 - 3" "finite {m. is_acceptable_multiplier m}"
    by simp_all
qed

text \<open>Few bad keys, and for every other key few bad multipliers.\<close>

lemma product_bound:
  assumes fin: "finite M" "finite K" and bad: "card {k \<in> K. B k} \<le> b"
    and good: "\<And>k. \<lbrakk>k \<in> K; \<not> B k\<rbrakk> \<Longrightarrow> card {m \<in> M. E m k} \<le> g"
  shows "card {(m, k). m \<in> M \<and> k \<in> K \<and> E m k} \<le> card M * b + g * card K"
proof -
  let ?bad = "M \<times> {k \<in> K. B k}" and ?good = "Sigma {k \<in> K. \<not> B k} (\<lambda>k. {m \<in> M. E m k})"
  have "{(m, k). m \<in> M \<and> k \<in> K \<and> E m k} \<subseteq> ?bad \<union> prod.swap ` ?good"
    by (auto simp: image_def)
  then have "card {(m, k). m \<in> M \<and> k \<in> K \<and> E m k} \<le> card (?bad \<union> prod.swap ` ?good)"
    using fin by (intro card_mono) auto
  also have "\<dots> \<le> card ?bad + card (prod.swap ` ?good)"
    by (rule card_Un_le)
  also have "card (prod.swap ` ?good) \<le> card ?good"
    using fin by (intro card_image_le) auto
  also have "card ?good = (\<Sum>k \<in> {k \<in> K. \<not> B k}. card {m \<in> M. E m k})"
    using fin by (intro card_SigmaI) auto
  also have "\<dots> \<le> (\<Sum>k \<in> {k \<in> K. \<not> B k}. g)"
    using good by (intro sum_mono) simp
  also have "\<dots> \<le> g * card K"
    using fin by (simp add: mult.commute card_mono)
  also have "card ?bad \<le> card M * b"
    using bad by (simp add: card_cartesian_product)
  finally show ?thesis by simp
qed

lemma rare_bad: "rare 34 e B \<Longrightarrow> d \<le> e \<Longrightarrow> d \<le> 64 * 34 \<Longrightarrow> card {ks \<in> keys 34. B ks} \<le> 2 ^ (64 * 34 - d)"
  using rare_count [OF rare_mono [of 34 e B B d]] by simp

text \<open>A polynomial in the multiplier with a prescribed value.\<close>

lemma horner_values:
  assumes "j < length ys" "\<not> M61 dvd ys ! j"
  shows "card {m. is_acceptable_multiplier m \<and> horner m 0 ys mod M61 = u mod M61} \<le> length ys"
proof -
  let ?cs = "- u # rev ys"
  have "ys ! j \<in> set ?cs"
    using assms(1) by simp
  then have roots: "card (f61.roots ?cs) \<le> length ?cs - 1"
    using assms(2) by (intro f61.roots_bound) blast
  have "{m. is_acceptable_multiplier m \<and> horner m 0 ys mod M61 = u mod M61} \<subseteq> f61.roots ?cs"
  proof (rule subsetI, drule CollectD)
    fix m assume m: "is_acceptable_multiplier m \<and> horner m 0 ys mod M61 = u mod M61"
    then have "0 \<le> m" "m < M61"
      by (simp_all add: is_acceptable_multiplier_def M61_def)
    moreover have "M61 dvd horner m 0 ys - u"
      using m by (simp add: mod_eq_dvd_iff)
    moreover have "horner m 0 ys - u = poly_val ?cs m"
      by (simp add: horner_poly_val)
    ultimately show "m \<in> f61.roots ?cs"
      unfolding f61.roots_def by simp
  qed
  from card_mono [OF f61.finite_roots this] roots show ?thesis
    by simp
qed

subsection \<open>Whole hashes\<close>

lemma long_multipliers:
  assumes len: "8 < length xs" "8 < length ys" and ks: "ks \<in> keys 34"
    and diff: "distinguishable (compressed ks seed xs secondary) (compressed ks seed ys secondary)"
  shows "card {m. is_acceptable_multiplier m \<and>
      umash \<lparr>poly = m, oh = ks\<rparr> seed xs secondary = umash \<lparr>poly = m, oh = ks\<rparr> seed ys secondary}
    \<le> 2 * ((max (length xs) (length ys) + 255) div 256)"
  unfolding umash_long_case [OF len(1)] umash_long_case [OF len(2)]
  using umash_long_multipliers [of xs ys ks seed secondary] len ks diff
  by (simp add: compressed_def keys_def)

lemma mixed_multipliers:
  assumes len: "length xs \<le> 8" "8 < length ys" and ks: "ks \<in> keys 34"
    and diff: "\<not> halves_agree (compressed ks seed ys secondary ! 0) 0"
  shows "card {m. is_acceptable_multiplier m \<and>
      umash \<lparr>poly = m, oh = ks\<rparr> seed xs secondary = umash \<lparr>poly = m, oh = ks\<rparr> seed ys secondary}
    \<le> 2 * ((length ys + 255) div 256)"
proof -
  let ?vs = "compressed ks seed ys secondary" and ?k = "drop (if secondary then 4 else 0) ks"
  have keylen: "length ks = 34" "8 \<le> length ys"
    using ks len by (simp_all add: keys_def)
  have "length xs < length ?k"
    using keylen(1) len(1) by simp
  then obtain h where h: "umash_short ?k seed xs = Inr h" "u64 h"
    using umash_short_u64 [OF len(1)] by blast
  obtain u where u: "u64 u" "finalize u = h"
    using finalizer.fwd_bwd [OF h(2)] finalizer.bwd_closed [OF h(2)] by blast
  have eq: "umash \<lparr>poly = m, oh = ks\<rparr> seed xs secondary = umash \<lparr>poly = m, oh = ks\<rparr> seed ys secondary \<longleftrightarrow>
      poly_acc m 0 ?vs = u" for m
    unfolding umash_short_case [OF len(1)] umash_long_case [OF len(2)]
    using umash_long_blocks [of ys "\<lparr>poly = m, oh = ks\<rparr>" seed secondary] keylen h(1) u
      finalizer.fwd_inj [OF u(1) poly_acc_u64, of m ?vs]
    by (auto simp: oh_values_def compressed_def)
  have n: "0 < length ?vs" "length (word_halves ?vs) = 2 * ((length ys + 255) div 256)"
    using length_block_list [OF keylen(2)] len(2) by simp_all
  obtain j where j: "j < 2" "\<not> M61 dvd word_halves ?vs ! j"
  proof (cases "?vs ! 0 mod W mod M61 = 0")
    case True
    then have "?vs ! 0 div W mod M61 \<noteq> 0"
      using diff by (simp add: halves_agree_def)
    then show ?thesis
      using that [of 1] word_halves_at [OF n(1)] by (simp add: dvd_eq_mod_eq_0)
  next
    case False
    then show ?thesis
      using that [of 0] word_halves_at [OF n(1)] by (simp add: dvd_eq_mod_eq_0)
  qed
  have "card {m. is_acceptable_multiplier m \<and> poly_acc m 0 ?vs = u} \<le>
      card {m. is_acceptable_multiplier m \<and> horner m 0 (word_halves ?vs) mod M61 = u mod M61}"
    using poly_acc_horner [of _ 0 ?vs]
    by (intro card_mono finite_subset [OF _ card_acceptable(2)]) auto
  also have "\<dots> \<le> length (word_halves ?vs)"
  proof (rule horner_values [OF _ j(2)])
    show "j < length (word_halves ?vs)"
      using j(1) n(1) unfolding length_word_halves by linarith
  qed
  finally show ?thesis
    unfolding eq n(2) .
qed

lemma short_never:
  assumes "xs \<noteq> ys" "length xs = length ys" "length xs \<le> 8" "ks \<in> keys 34"
  shows "umash \<lparr>poly = m, oh = ks\<rparr> seed xs secondary \<noteq> umash \<lparr>poly = m, oh = ks\<rparr> seed ys secondary"
  unfolding umash_short_case [OF assms(3)] umash_short_case [OF assms(3) [unfolded assms(2)]]
  using assms umash_short_same_size [OF assms(2,3)] by (auto simp: keys_def)

text \<open>
  The keys that have to be excluded, for two inputs of any sizes, and the multipliers left over for
  the other keys.
\<close>

abbreviation collides :: "int \<Rightarrow> int list \<Rightarrow> int \<Rightarrow> bytes \<Rightarrow> bytes \<Rightarrow> bool \<Rightarrow> bool" where
  "collides m ks seed xs ys secondary \<equiv>
     umash \<lparr>poly = m, oh = ks\<rparr> seed xs secondary = umash \<lparr>poly = m, oh = ks\<rparr> seed ys secondary"

lemma bad_keys:
  assumes ne: "xs \<noteq> ys" and le: "length xs \<le> length ys" and apart: "secondary \<or> ph_apart xs ys"
  obtains B where "rare 34 39 B"
    "\<And>ks. \<lbrakk>ks \<in> keys 34; \<not> B ks\<rbrakk> \<Longrightarrow> card {m. is_acceptable_multiplier m \<and> collides m ks seed xs ys secondary}
      \<le> 2 * ((length ys + 255) div 256)"
proof -
  consider "length ys \<le> 8" "length xs = length ys" | "length ys \<le> 8" "length xs < length ys"
    | "length xs \<le> 8" "8 < length ys" | "8 < length xs" "8 < length ys"
    using le by linarith
  then show ?thesis
  proof cases
    case 1
    then have "\<not> collides m ks seed xs ys secondary" if "ks \<in> keys 34" for m ks
      using short_never [OF ne 1(2) _ that] by simp
    then show ?thesis
      using that [of "\<lambda>ks. False"] by (simp add: rare_False)
  next
    case 2
    let ?B = "\<lambda>ks. collides 2 ks seed xs ys secondary"
    have eq: "collides m ks seed xs ys secondary \<longleftrightarrow> ?B ks" for m ks
      using 2 by (simp add: umash_short_case)
    show ?thesis
    proof (rule that)
      show "rare 34 39 ?B"
        by (rule rare_mono [OF umash_short_sizes(1) [OF 2(2,1)]]) simp_all
      fix ks assume "\<not> ?B ks"
      then have "{m. is_acceptable_multiplier m \<and> collides m ks seed xs ys secondary} = {}"
        using eq by blast
      then show "card {m. is_acceptable_multiplier m \<and> collides m ks seed xs ys secondary}
          \<le> 2 * ((length ys + 255) div 256)"
        by (simp only: card.empty)
    qed
  next
    case 3
    let ?B = "\<lambda>ks. halves_agree (compressed ks seed ys secondary ! 0) 0"
    have "rare 34 39 ?B"
      by (rule rare_mono [OF first_value_vanishes [OF 3(2)]]) simp_all
    then show ?thesis
      using that mixed_multipliers [OF 3] by blast
  next
    case 4
    then show ?thesis
      using that [OF streams_merge [OF ne 4 apart, of seed]] long_multipliers [OF 4] le
      by (simp add: max_absorb2)
  qed
qed

lemma ph_apart_commute: "ph_apart xs ys \<longleftrightarrow> ph_apart ys xs"
  by (auto simp: ph_apart_def)

lemma hash_collisions_ordered:
  assumes "xs \<noteq> ys" "length xs \<le> length ys" "secondary \<or> ph_apart xs ys"
  shows "card {(m, ks). is_acceptable_multiplier m \<and> ks \<in> keys 34 \<and> collides m ks seed xs ys secondary}
    \<le> (2 ^ 61 - 3) * 2 ^ (64 * 34 - 39) + 2 * ((length ys + 255) div 256) * 2 ^ (64 * 34)"
proof -
  obtain B where B: "rare 34 39 B"
    "\<And>ks. \<lbrakk>ks \<in> keys 34; \<not> B ks\<rbrakk> \<Longrightarrow> card {m. is_acceptable_multiplier m \<and> collides m ks seed xs ys secondary}
      \<le> 2 * ((length ys + 255) div 256)"
    by (rule bad_keys [OF assms, where seed = seed]) blast
  have "card {ks \<in> keys 34. B ks} \<le> 2 ^ (64 * 34 - 39)"
    by (rule rare_count [OF B(1)]) simp
  from product_bound [OF card_acceptable(2) finite_keys this, of
      "\<lambda>m ks. collides m ks seed xs ys secondary" "2 * ((length ys + 255) div 256)"]
  show ?thesis
    unfolding card_acceptable(1) card_keys mem_Collect_eq using B(2) by blast
qed

lemma hash_collisions:
  assumes "xs \<noteq> ys" "secondary \<or> ph_apart xs ys"
  shows "card {(m, ks). is_acceptable_multiplier m \<and> ks \<in> keys 34 \<and> collides m ks seed xs ys secondary}
    \<le> (2 ^ 61 - 3) * 2 ^ (64 * 34 - 39) + 2 * ((max (length xs) (length ys) + 255) div 256) * 2 ^ (64 * 34)"
proof (cases "length xs \<le> length ys")
  case True
  from hash_collisions_ordered [OF assms(1) True assms(2)] show ?thesis
    unfolding max_absorb2 [OF True] .
next
  case False
  then have le: "length ys \<le> length xs" by simp
  have "secondary \<or> ph_apart ys xs"
    using assms(2) ph_apart_commute by blast
  from hash_collisions_ordered [OF assms(1) [symmetric] le this, of seed] show ?thesis
    unfolding max_absorb1 [OF le] by (subst eq_commute)
qed

end
