(* ===== verification/Doubles.thy ===== *)
theory Doubles
  imports Prelude
begin

text \<open>
  Python floats: IEEE 754 doubles as 64-bit words, with the arithmetic that CPython performs
  on them (round to nearest, ties to even; signed zeros, infinities and NaNs; a division by
  zero raises). The exact value of a finite double is an integer multiple of \<open>2 ** -1074\<close>;
  \<open>sval\<close> is that integer, so exact results are integers or quotients of integers and
  rounding is integer arithmetic.

  What depends on the platform is a parameter, the record \<open>platform\<close>: the functions of the
  C mathematics library, and the NaN an invalid operation returns.
\<close>

type_synonym f64 = "64 word"

record platform =
  libm_log :: "f64 \<Rightarrow> f64"
  libm_log1p :: "f64 \<Rightarrow> f64"
  libm_exp :: "f64 \<Rightarrow> f64"
  nan_of :: "f64 \<Rightarrow> f64 \<Rightarrow> f64"

subsection \<open>Representation\<close>

text \<open>The sign and the magnitude, the lower 63 bits: exponent field above mantissa field.\<close>

definition sign_mask :: int where
  "sign_mask = 2 ^ 63"

definition negative :: "f64 \<Rightarrow> bool" where
  "negative x \<longleftrightarrow> sign_mask \<le> uint x"

definition magnitude :: "f64 \<Rightarrow> int" where
  "magnitude x = uint x mod sign_mask"

definition make_f64 :: "bool \<Rightarrow> int \<Rightarrow> f64" where
  "make_f64 neg m = word_of_int (if neg then sign_mask + m else m)"

definition inf_mag :: int where
  "inf_mag = 2047 * 2 ^ 52"

definition is_nan :: "f64 \<Rightarrow> bool" where "is_nan x \<longleftrightarrow> inf_mag < magnitude x"
definition is_inf :: "f64 \<Rightarrow> bool" where "is_inf x \<longleftrightarrow> magnitude x = inf_mag"
definition is_finite :: "f64 \<Rightarrow> bool" where "is_finite x \<longleftrightarrow> magnitude x < inf_mag"

text \<open>
  The value of a magnitude in units of \<open>2 ** -1074\<close>. The first two exponents share the
  smallest spacing; each later one doubles it. The formula extends to the magnitude of an
  infinity, where it gives the first power of two that is not representable.
\<close>

definition mag_val :: "int \<Rightarrow> int" where
  "mag_val b = (if b < 2 ^ 53 then b else (b - (b div 2 ^ 52 - 1) * 2 ^ 52) * 2 ^ nat (b div 2 ^ 52 - 1))"

definition sval :: "f64 \<Rightarrow> int" where
  "sval x = (if negative x then - mag_val (magnitude x) else mag_val (magnitude x))"

subsection \<open>Rounding\<close>

function bit_length :: "int \<Rightarrow> nat" where
  "bit_length n = (if n \<le> 0 then 0 else Suc (bit_length (n div 2)))"
  by auto
termination by (relation "measure nat") auto

declare bit_length.simps [simp del]

text \<open>
  Rounding of the quotient \<open>num / den\<close>: the binary exponent \<open>k\<close> leaves 53 bits, the rest is
  rounded to nearest with ties to even, and a result past the largest double is infinite.
\<close>

definition round_div :: "int \<Rightarrow> int \<Rightarrow> int" where
  "round_div p q =
     (let m = p div q; r = 2 * (p mod q)
      in if r < q \<or> r = q \<and> even m then m else m + 1)"

definition round_mag :: "int \<Rightarrow> int \<Rightarrow> int" where
  "round_mag num den =
     (let k = bit_length (num div den) - 53
      in min inf_mag (int k * 2 ^ 52 + round_div num (den * 2 ^ k)))"

definition unit_scale :: int where
  "unit_scale = 2 ^ 1074"

subsection \<open>Arithmetic\<close>

definition fneg :: "f64 \<Rightarrow> f64" where
  "fneg x = make_f64 (\<not> negative x) (magnitude x)"

definition fabs :: "f64 \<Rightarrow> f64" where
  "fabs x = make_f64 False (magnitude x)"

definition add_core :: "f64 \<Rightarrow> f64 \<Rightarrow> f64 \<Rightarrow> f64" where
  "add_core nan x y =
     (if is_nan x \<or> is_nan y \<or> is_inf x \<and> is_inf y \<and> negative x \<noteq> negative y then nan
      else if is_inf x then x
      else if is_inf y then y
      else let s = sval x + sval y in
        make_f64 (s < 0 \<or> s = 0 \<and> negative x \<and> negative y) (round_mag \<bar>s\<bar> 1))"

definition fadd :: "platform \<Rightarrow> f64 \<Rightarrow> f64 \<Rightarrow> f64" where
  "fadd pf x y = add_core (nan_of pf x y) x y"

definition fsub :: "platform \<Rightarrow> f64 \<Rightarrow> f64 \<Rightarrow> f64" where
  "fsub pf x y = add_core (nan_of pf x y) x (fneg y)"

definition fmul :: "platform \<Rightarrow> f64 \<Rightarrow> f64 \<Rightarrow> f64" where
  "fmul pf x y =
     (let neg = (negative x \<noteq> negative y) in
      if is_nan x \<or> is_nan y \<or> is_inf x \<and> magnitude y = 0 \<or> magnitude x = 0 \<and> is_inf y
      then nan_of pf x y
      else if is_inf x \<or> is_inf y then make_f64 neg inf_mag
      else make_f64 neg (round_mag (\<bar>sval x\<bar> * \<bar>sval y\<bar>) unit_scale))"

definition fdiv :: "platform \<Rightarrow> f64 \<Rightarrow> f64 \<Rightarrow> f64 result" where
  "fdiv pf x y =
     (let neg = (negative x \<noteq> negative y) in
      if magnitude y = 0 then Inl ZeroDivisionError
      else if is_nan x \<or> is_nan y \<or> is_inf x \<and> is_inf y then Inr (nan_of pf x y)
      else if is_inf x then Inr (make_f64 neg inf_mag)
      else if is_inf y then Inr (make_f64 neg 0)
      else Inr (make_f64 neg (round_mag (\<bar>sval x\<bar> * unit_scale) \<bar>sval y\<bar>)))"

text \<open>Comparisons are false on NaNs and identify the two zeros.\<close>

definition order_key :: "f64 \<Rightarrow> int" where
  "order_key x = (if negative x then - magnitude x else magnitude x)"

definition flt :: "f64 \<Rightarrow> f64 \<Rightarrow> bool" where
  "flt x y \<longleftrightarrow> \<not> is_nan x \<and> \<not> is_nan y \<and> order_key x < order_key y"

definition fle :: "f64 \<Rightarrow> f64 \<Rightarrow> bool" where
  "fle x y \<longleftrightarrow> \<not> is_nan x \<and> \<not> is_nan y \<and> order_key x \<le> order_key y"

definition feq :: "f64 \<Rightarrow> f64 \<Rightarrow> bool" where
  "feq x y \<longleftrightarrow> \<not> is_nan x \<and> \<not> is_nan y \<and> order_key x = order_key y"

text \<open>The built-in \<open>min\<close> and \<open>max\<close> keep their first argument unless the second wins.\<close>

definition fmin :: "f64 \<Rightarrow> f64 \<Rightarrow> f64" where "fmin x y = (if flt y x then y else x)"
definition fmax :: "f64 \<Rightarrow> f64 \<Rightarrow> f64" where "fmax x y = (if flt x y then y else x)"

text \<open>Conversion of an integer, and a decimal literal \<open>p / q\<close> of the source.\<close>

definition of_int_f64 :: "int \<Rightarrow> f64 result" where
  "of_int_f64 n =
     (let m = round_mag (\<bar>n\<bar> * unit_scale) 1
      in if m = inf_mag then Inl OverflowError else Inr (make_f64 (n < 0) m))"

definition literal :: "int \<Rightarrow> int \<Rightarrow> f64" where
  "literal p q = make_f64 False (round_mag (p * unit_scale) q)"

text \<open>
  How the \<open>math\<close> module calls a function of the C library: a NaN that the argument did not
  have is a domain error, an infinity that it did not have a range error.
\<close>

definition math_1 :: "(f64 \<Rightarrow> f64) \<Rightarrow> bool \<Rightarrow> f64 \<Rightarrow> f64 result" where
  "math_1 f can_overflow x =
     (let r = f x in
      if is_nan r \<and> \<not> is_nan x then Inl ValueError
      else if is_inf r \<and> is_finite x
        then Inl (if can_overflow then OverflowError else ValueError)
      else Inr r)"

subsection \<open>The representation is a bijection\<close>

lemma sign_mask_pos [simp]: "0 < sign_mask" "sign_mask \<noteq> 0"
  by (simp_all add: sign_mask_def)

lemma uint_f64: "0 \<le> uint (x::f64)" "uint (x::f64) < 2 * sign_mask"
  using uint_lt2p [of x] by (simp_all add: sign_mask_def)

lemma magnitude_range: "0 \<le> magnitude x" "magnitude x < sign_mask"
  by (simp_all add: magnitude_def)

lemma uint_magnitude: "uint x = (if negative x then sign_mask + magnitude x else magnitude x)"
proof (cases "negative x")
  case True
  then have "(uint x - sign_mask) mod sign_mask = uint x - sign_mask"
    using uint_f64(2) [of x] unfolding negative_def by (intro mod_pos_pos_trivial) auto
  then show ?thesis
    using True by (simp add: magnitude_def minus_mod_self2)
next
  case False
  then show ?thesis
    using uint_f64(1) [of x] by (simp add: negative_def magnitude_def mod_pos_pos_trivial)
qed

lemma uint_make_f64:
  assumes "0 \<le> m" "m < sign_mask"
  shows "uint (make_f64 neg m) = (if neg then sign_mask + m else m)"
proof -
  let ?v = "if neg then sign_mask + m else m"
  have "0 \<le> ?v" "?v < 2 ^ 64"
    using assms by (auto simp: sign_mask_def)
  then show ?thesis
    unfolding make_f64_def uint_word_of_int by (simp add: mod_pos_pos_trivial)
qed

lemma make_f64_decode [simp]:
  assumes "0 \<le> m" "m < sign_mask"
  shows "negative (make_f64 neg m) = neg" and "magnitude (make_f64 neg m) = m"
proof -
  show "negative (make_f64 neg m) = neg"
    unfolding negative_def uint_make_f64 [OF assms] using assms by simp
  show "magnitude (make_f64 neg m) = m"
    unfolding magnitude_def uint_make_f64 [OF assms] using assms by simp
qed

lemmas make_f64_magnitude [simp] = make_f64_decode [OF magnitude_range]

lemma make_f64_parts [simp]: "make_f64 (negative x) (magnitude x) = x"
  using uint_magnitude [of x] uint_make_f64 [OF magnitude_range, of "negative x" x]
  by (simp add: word_uint_eq_iff)

lemma f64_eqI:
  assumes "negative x = negative y" "magnitude x = magnitude y"
  shows "x = y"
proof -
  have "x = make_f64 (negative x) (magnitude x)"
    by (rule make_f64_parts [symmetric])
  also have "\<dots> = y"
    unfolding assms by (rule make_f64_parts)
  finally show ?thesis .
qed

lemma inf_mag_less: "inf_mag < sign_mask" "0 < inf_mag"
  by (simp_all add: inf_mag_def sign_mask_def)

lemma fneg_decode [simp]: "negative (fneg x) \<longleftrightarrow> \<not> negative x" "magnitude (fneg x) = magnitude x"
  by (simp_all add: fneg_def)

lemma fabs_decode [simp]: "\<not> negative (fabs x)" "magnitude (fabs x) = magnitude x"
  by (simp_all add: fabs_def)

lemma sval_fneg [simp]: "sval (fneg x) = - sval x"
  by (simp add: sval_def)

subsection \<open>Values of magnitudes\<close>

text \<open>The value of \<open>k\<close> doublings and a significand \<open>m\<close>; both readings of a power of two agree.\<close>

lemma mag_val_normal:
  assumes "2 ^ 52 \<le> m" "m \<le> 2 ^ 53"
  shows "mag_val (int k * 2 ^ 52 + m) = m * 2 ^ k"
proof (cases "m = 2 ^ 53")
  case True
  have "int k * 2 ^ 52 + 2 ^ 53 = (int k + 2) * 2 ^ 52"
    by (simp add: algebra_simps)
  then have d: "(int k * 2 ^ 52 + 2 ^ 53) div 2 ^ 52 = int k + 2"
    by (simp only:) simp
  have "nat (int k + 1) = Suc k" by simp
  then show ?thesis
    unfolding True mag_val_def d by (simp add: algebra_simps)
next
  case False
  then have m: "m div 2 ^ 52 = 1"
    using assms by (intro div_pos_geq [THEN trans]) (auto simp: div_pos_pos_trivial)
  have "(int k * 2 ^ 52 + m) div 2 ^ 52 = int k + 1"
    unfolding m [symmetric] by (simp add: add.commute)
  moreover have "m < 2 ^ 53"
    using assms False by simp
  moreover have "nat (int k + 1 - 1) = k" by simp
  moreover have "int k * 2 ^ 52 + m = m \<longleftrightarrow> k = 0" by simp
  moreover have "\<not> int k * 2 ^ 52 + m < 2 ^ 53" if "k \<noteq> 0"
    using that assms(1) by (cases k) auto
  ultimately show ?thesis
    unfolding mag_val_def by (cases "k = 0") simp_all
qed

lemma mag_val_small: "b \<le> 2 ^ 53 \<Longrightarrow> mag_val b = b"
  using mag_val_normal [of "2 ^ 53" 0] by (cases "b = 2 ^ 53") (auto simp: mag_val_def)

text \<open>Every magnitude has such a reading.\<close>

lemma magnitude_cases:
  fixes b :: int
  assumes "0 \<le> b"
  obtains (subnormal) "b < 2 ^ 52"
    | (normal) k m where "b = int k * 2 ^ 52 + m" "2 ^ 52 \<le> m" "m < 2 ^ 53"
proof (cases "b < 2 ^ 52")
  case False
  let ?k = "nat (b div 2 ^ 52 - 1)"
  have "1 \<le> b div 2 ^ 52"
    using False zdiv_mono1 [of "2 ^ 52" b "2 ^ 52"] by simp
  then have "b = int ?k * 2 ^ 52 + (b mod 2 ^ 52 + 2 ^ 52)"
    using div_mult_mod_eq [of b "2 ^ 52"] by (simp add: algebra_simps)
  then show ?thesis
    by (rule normal) (simp_all add: pos_mod_bound [THEN order_less_le_trans])
qed (use assms subnormal in auto)

lemma mag_val_step:
  assumes "0 \<le> b"
  shows "mag_val b < mag_val (b + 1)"
  using assms
proof (cases b rule: magnitude_cases)
  case subnormal
  then show ?thesis by (simp add: mag_val_small)
next
  case (normal k m)
  then have "mag_val b = m * 2 ^ k" "mag_val (b + 1) = (m + 1) * 2 ^ k"
    using mag_val_normal [of m k] mag_val_normal [of "m + 1" k] by (auto simp: add.assoc)
  then show ?thesis by simp
qed

lemma mag_val_mono_strict: "\<lbrakk>0 \<le> a; a < b\<rbrakk> \<Longrightarrow> mag_val a < mag_val b"
proof (induction "nat (b - a)" arbitrary: b)
  case (Suc n)
  show ?case
  proof (cases "b = a + 1")
    case False
    then have "mag_val a < mag_val (b - 1)"
      using Suc by (intro Suc.hyps) auto
    then show ?thesis
      using mag_val_step [of "b - 1"] Suc.prems by simp
  qed (use Suc.prems mag_val_step in simp)
qed simp

lemma mag_val_less_iff: "\<lbrakk>0 \<le> a; 0 \<le> b\<rbrakk> \<Longrightarrow> mag_val a < mag_val b \<longleftrightarrow> a < b"
  using mag_val_mono_strict [of a b] mag_val_mono_strict [of b a]
  by (cases a b rule: linorder_cases) auto

lemma mag_val_le_iff: "\<lbrakk>0 \<le> a; 0 \<le> b\<rbrakk> \<Longrightarrow> mag_val a \<le> mag_val b \<longleftrightarrow> a \<le> b"
  using mag_val_less_iff [of b a] by auto

lemma mag_val_0 [simp]: "mag_val 0 = 0"
  by (simp add: mag_val_small)

lemma mag_val_nonneg: "0 \<le> b \<Longrightarrow> 0 \<le> mag_val b"
  using mag_val_le_iff [of 0 b] by simp

subsection \<open>What rounding guarantees\<close>

lemma bit_length_bounds: "0 < n \<Longrightarrow> 2 ^ (bit_length n - 1) \<le> n \<and> n < 2 ^ bit_length n"
proof (induction n rule: bit_length.induct)
  case (1 n)
  show ?case
  proof (cases "n = 1")
    case True
    then show ?thesis
      by (simp add: bit_length.simps [of 1] bit_length.simps [of 0])
  next
    case False
    then have "0 < n div 2" and l: "bit_length n = Suc (bit_length (n div 2))"
      using 1(2) by (auto simp: bit_length.simps [of n] pos_imp_zdiv_pos_iff)
    then have IH: "2 ^ (bit_length (n div 2) - 1) \<le> n div 2" "n div 2 < 2 ^ bit_length (n div 2)"
      using 1 by auto
    have "0 < bit_length (n div 2)"
      using IH \<open>0 < n div 2\<close> by (cases "bit_length (n div 2)") auto
    then have "(2::int) ^ bit_length (n div 2) = 2 * 2 ^ (bit_length (n div 2) - 1)"
      by (cases "bit_length (n div 2)") auto
    moreover have "n = 2 * (n div 2) + n mod 2" "0 \<le> n mod 2" "n mod 2 < 2"
      by simp_all
    moreover have "Suc (bit_length (n div 2)) - 1 = bit_length (n div 2)" by simp
    ultimately show ?thesis
      unfolding l power_Suc using IH by (intro conjI; simp only:; linarith)
  qed
qed

definition round_exp :: "int \<Rightarrow> int \<Rightarrow> nat" where
  "round_exp num den = bit_length (num div den) - 53"

definition round_floor :: "int \<Rightarrow> int \<Rightarrow> int" where
  "round_floor num den = num div (den * 2 ^ round_exp num den)"

definition round_raw :: "int \<Rightarrow> int \<Rightarrow> int" where
  "round_raw num den =
     int (round_exp num den) * 2 ^ 52 + round_div num (den * 2 ^ round_exp num den)"

lemma round_mag_raw: "round_mag num den = min inf_mag (round_raw num den)"
  by (simp add: round_mag_def round_raw_def round_exp_def Let_def)

lemma round_floor_range:
  assumes "0 \<le> num" "0 < den"
  shows "0 \<le> round_floor num den" "round_floor num den < 2 ^ 53"
    and "0 < round_exp num den \<Longrightarrow> 2 ^ 52 \<le> round_floor num den"
proof -
  let ?t = "num div den" and ?k = "round_exp num den"
  have t: "0 \<le> ?t"
    using assms by (simp add: pos_imp_zdiv_nonneg_iff)
  have f: "round_floor num den = ?t div 2 ^ ?k"
    using assms by (simp add: round_floor_def zdiv_zmult2_eq)
  show "0 \<le> round_floor num den"
    unfolding f using t by (simp add: pos_imp_zdiv_nonneg_iff)
  show "round_floor num den < 2 ^ 53"
  proof (cases "?t = 0")
    case False
    then have "?t < 2 ^ bit_length ?t"
      using t bit_length_bounds [of ?t] by simp
    also have "\<dots> \<le> 2 ^ (53 + ?k)"
      by (intro power_increasing) (auto simp: round_exp_def)
    finally have less: "?t < 2 ^ 53 * 2 ^ ?k"
      by (simp add: power_add)
    have "?t div 2 ^ ?k * 2 ^ ?k \<le> ?t"
      by (simp add: minus_mod_eq_div_mult [symmetric])
    then have "\<not> 2 ^ 53 * 2 ^ ?k \<le> ?t div 2 ^ ?k * 2 ^ ?k"
      using less by linarith
    then show ?thesis
      unfolding f by (meson mult_right_mono not_le zero_le_numeral zero_le_power)
  qed (simp add: f)
  show "2 ^ 52 \<le> round_floor num den" if k: "0 < ?k"
  proof -
    have b: "53 < bit_length ?t"
      using k by (simp add: round_exp_def)
    then have "?t \<noteq> 0"
      by (auto simp: bit_length.simps [of 0])
    then have "2 ^ (bit_length ?t - 1) \<le> ?t"
      using t bit_length_bounds [of ?t] by simp
    moreover have "bit_length ?t - 1 = 52 + ?k"
      using b by (simp add: round_exp_def)
    ultimately have "2 ^ 52 * 2 ^ ?k \<le> ?t"
      by (simp add: power_add)
    then show ?thesis
      unfolding f using zdiv_mono1 [of "2 ^ 52 * 2 ^ ?k" ?t "2 ^ ?k"] by simp
  qed
qed

text \<open>Rounding lands on one of the two magnitudes around the exact value.\<close>

lemma mag_val_round:
  assumes "0 \<le> num" "0 < den"
  shows "mag_val (int (round_exp num den) * 2 ^ 52 + round_floor num den) =
      round_floor num den * 2 ^ round_exp num den"
    and "mag_val (int (round_exp num den) * 2 ^ 52 + round_floor num den + 1) =
      (round_floor num den + 1) * 2 ^ round_exp num den"
proof -
  let ?k = "round_exp num den" and ?m = "round_floor num den"
  note r = round_floor_range [OF assms]
  show "mag_val (int ?k * 2 ^ 52 + ?m) = ?m * 2 ^ ?k"
    using r mag_val_normal [of ?m ?k] by (cases "?k = 0") (simp_all add: mag_val_small)
  show "mag_val (int ?k * 2 ^ 52 + ?m + 1) = (?m + 1) * 2 ^ ?k"
    using r mag_val_normal [of "?m + 1" ?k]
    by (cases "?k = 0") (simp_all add: mag_val_small add.assoc)
qed

lemma round_raw_cases:
  assumes "0 \<le> num" "0 < den"
  obtains (down) b where "round_raw num den = b" "0 \<le> b"
      "den * mag_val b \<le> num" "2 * num \<le> den * (mag_val b + mag_val (b + 1))"
      "2 * num = den * (mag_val b + mag_val (b + 1)) \<Longrightarrow> even b"
    | (up) b where "round_raw num den = b + 1" "0 \<le> b"
      "num < den * mag_val (b + 1)" "den * (mag_val b + mag_val (b + 1)) \<le> 2 * num"
      "2 * num = den * (mag_val b + mag_val (b + 1)) \<Longrightarrow> odd b"
proof -
  let ?k = "round_exp num den" and ?m = "round_floor num den"
  let ?b = "int ?k * 2 ^ 52 + ?m" and ?q = "den * 2 ^ ?k" and ?r = "num mod (den * 2 ^ ?k)"
  note v = mag_val_round [OF assms] and range = round_floor_range [OF assms]
  have q: "0 < ?q" and num: "num = ?q * ?m + ?r" and r: "0 \<le> ?r" "?r < ?q"
    using assms by (simp_all add: round_floor_def)
  have par: "even ?b \<longleftrightarrow> even ?m" by simp
  have lo: "den * mag_val ?b = ?q * ?m" and hi: "den * mag_val (?b + 1) = ?q * ?m + ?q"
    unfolding v by (simp_all add: algebra_simps)
  have sum: "den * (mag_val ?b + mag_val (?b + 1)) = 2 * (?q * ?m) + ?q"
    unfolding distrib_left lo hi by simp
  have raw: "round_raw num den = int ?k * 2 ^ 52 +
      (if 2 * ?r < ?q \<or> 2 * ?r = ?q \<and> even ?m then ?m else ?m + 1)"
    by (simp add: round_raw_def round_div_def round_floor_def Let_def)
  show ?thesis
  proof (cases "2 * ?r < ?q \<or> 2 * ?r = ?q \<and> even ?m")
    case True
    show ?thesis
    proof (rule down [of ?b])
      show "round_raw num den = ?b" using True raw by simp
      show "0 \<le> ?b" using range by simp
      show "den * mag_val ?b \<le> num" unfolding lo using num r by linarith
      show "2 * num \<le> den * (mag_val ?b + mag_val (?b + 1))"
        unfolding sum using num True by linarith
      show "even ?b" if "2 * num = den * (mag_val ?b + mag_val (?b + 1))"
        using that True num unfolding sum par by linarith
    qed
  next
    case False
    show ?thesis
    proof (rule up [of ?b])
      show "round_raw num den = ?b + 1" using False raw by simp
      show "0 \<le> ?b" using range by simp
      show "num < den * mag_val (?b + 1)" unfolding hi using num r by linarith
      show "den * (mag_val ?b + mag_val (?b + 1)) \<le> 2 * num"
        unfolding sum using num False by linarith
      show "odd ?b" if "2 * num = den * (mag_val ?b + mag_val (?b + 1))"
        using that False num unfolding sum par by linarith
    qed
  qed
qed

lemma round_raw_nonneg: "\<lbrakk>0 \<le> num; 0 < den\<rbrakk> \<Longrightarrow> 0 \<le> round_raw num den"
  by (cases rule: round_raw_cases [of num den]) auto

lemma round_raw_above:
  assumes "0 \<le> num" "0 < den"
  shows "num < den * mag_val (round_raw num den + 1)"
    and "2 * num \<le> den * (mag_val (round_raw num den) + mag_val (round_raw num den + 1))"
    and "2 * num = den * (mag_val (round_raw num den) + mag_val (round_raw num den + 1)) \<Longrightarrow>
      even (round_raw num den)"
proof -
  let ?P = "\<lambda>b. num < den * mag_val (b + 1) \<and>
    2 * num \<le> den * (mag_val b + mag_val (b + 1)) \<and>
    (2 * num = den * (mag_val b + mag_val (b + 1)) \<longrightarrow> even b)"
  have "?P (round_raw num den)"
  proof (cases rule: round_raw_cases [OF assms])
    case (1 b)
    have "den * mag_val b < den * mag_val (b + 1)"
      using mag_val_step [OF 1(2)] assms(2) by simp
    then show ?thesis
      unfolding 1(1) using 1(4,5) by (auto simp: distrib_left)
  next
    case (2 b)
    have "den * mag_val (b + 1) < den * mag_val (b + 1 + 1)"
      using mag_val_step [of "b + 1"] 2(2) assms(2) by simp
    then show ?thesis
      unfolding 2(1) using 2(3) by (auto simp: distrib_left)
  qed
  then show "num < den * mag_val (round_raw num den + 1)"
    and "2 * num \<le> den * (mag_val (round_raw num den) + mag_val (round_raw num den + 1))"
    and "2 * num = den * (mag_val (round_raw num den) + mag_val (round_raw num den + 1)) \<Longrightarrow>
      even (round_raw num den)"
    by blast+
qed

lemma round_raw_below:
  assumes "0 \<le> num" "0 < den" "0 < round_raw num den"
  shows "den * mag_val (round_raw num den - 1) < num"
    and "den * (mag_val (round_raw num den - 1) + mag_val (round_raw num den)) \<le> 2 * num"
    and "2 * num = den * (mag_val (round_raw num den - 1) + mag_val (round_raw num den)) \<Longrightarrow>
      even (round_raw num den)"
proof -
  let ?P = "\<lambda>b. den * mag_val (b - 1) < num \<and>
    den * (mag_val (b - 1) + mag_val b) \<le> 2 * num \<and>
    (2 * num = den * (mag_val (b - 1) + mag_val b) \<longrightarrow> even b)"
  have "?P (round_raw num den)"
  proof (cases rule: round_raw_cases [OF assms(1,2)])
    case (1 b)
    have "den * mag_val (b - 1) < den * mag_val b"
      using mag_val_step [of "b - 1"] 1 assms(2,3) by simp
    then show ?thesis
      unfolding 1(1) using 1(3) by (auto simp: distrib_left)
  next
    case (2 b)
    have "den * mag_val b < den * mag_val (b + 1)"
      using mag_val_step [OF 2(2)] assms(2) by simp
    then show ?thesis
      unfolding 2(1) using 2(4,5) by (auto simp: distrib_left)
  qed
  then show "den * mag_val (round_raw num den - 1) < num"
    and "den * (mag_val (round_raw num den - 1) + mag_val (round_raw num den)) \<le> 2 * num"
    and "2 * num = den * (mag_val (round_raw num den - 1) + mag_val (round_raw num den)) \<Longrightarrow>
      even (round_raw num den)"
    by blast+
qed

text \<open>Rounding is the identity on values of doubles, and monotone.\<close>

lemma round_raw_exact:
  assumes "0 \<le> b" "0 < den"
  shows "round_raw (den * mag_val b) den = b"
proof -
  let ?r = "round_raw (den * mag_val b) den"
  have num: "0 \<le> den * mag_val b"
    using assms mag_val_nonneg by simp
  have "mag_val b < mag_val (?r + 1)"
    using round_raw_above(1) [OF num assms(2)] assms(2) by simp
  then have "b < ?r + 1"
    using assms round_raw_nonneg [OF num assms(2)] by (simp add: mag_val_less_iff)
  moreover have "?r - 1 < b" if "0 < ?r"
  proof -
    have "mag_val (?r - 1) < mag_val b"
      using round_raw_below(1) [OF num assms(2) that] assms(2) by simp
    then show ?thesis
      using assms that by (simp add: mag_val_less_iff)
  qed
  ultimately show ?thesis
    using assms by linarith
qed

lemma round_raw_mono:
  assumes "0 \<le> num" "0 < den" "0 \<le> num'" "0 < den'" and le: "num * den' \<le> num' * den"
  shows "round_raw num den \<le> round_raw num' den'"
proof (rule ccontr)
  let ?a = "round_raw num den" and ?b = "round_raw num' den'"
  assume "\<not> ?a \<le> ?b"
  then have ab: "?b < ?a" and b0: "0 \<le> ?b" and a0: "0 < ?a"
    using round_raw_nonneg [OF assms(3,4)] by auto
  have lo: "den * (mag_val (?a - 1) + mag_val ?a) \<le> 2 * num"
    and hi: "2 * num' \<le> den' * (mag_val ?b + mag_val (?b + 1))"
    using round_raw_below(2) [OF assms(1,2) a0] round_raw_above(2) [OF assms(3,4)] by simp_all
  have "den' * (den * (mag_val (?a - 1) + mag_val ?a)) \<le> den' * (2 * num)"
    using lo assms(4) by simp
  also have "\<dots> \<le> den * (2 * num')"
    using le by (simp add: mult.commute)
  also have "\<dots> \<le> den * (den' * (mag_val ?b + mag_val (?b + 1)))"
    using hi assms(2) by simp
  finally have "(den * den') * (mag_val (?a - 1) + mag_val ?a) \<le>
      (den * den') * (mag_val ?b + mag_val (?b + 1))"
    by (simp add: algebra_simps)
  then have s: "mag_val (?a - 1) + mag_val ?a \<le> mag_val ?b + mag_val (?b + 1)"
    using assms(2,4) by simp
  have "mag_val ?b \<le> mag_val (?a - 1)" "mag_val (?b + 1) \<le> mag_val ?a"
    using ab b0 by (simp_all add: mag_val_le_iff)
  with s have "mag_val (?a - 1) = mag_val ?b" by linarith
  then have a: "?a = ?b + 1"
    using ab b0 mag_val_less_iff [of ?b "?a - 1"] by auto
  have "2 * num * den' \<le> 2 * num' * den" using le by simp
  moreover have "(den * (mag_val ?b + mag_val (?b + 1))) * den' \<le> 2 * num * den'"
    using lo assms(4) unfolding a by (intro mult_right_mono) auto
  moreover have "2 * num' * den \<le> (den' * (mag_val ?b + mag_val (?b + 1))) * den"
    using hi assms(2) by (intro mult_right_mono) auto
  ultimately have "2 * num * den' = (den * (mag_val ?b + mag_val (?b + 1))) * den'"
    "2 * num' * den = (den' * (mag_val ?b + mag_val (?b + 1))) * den"
    by (simp_all add: algebra_simps)
  then have "even ?a" "even ?b"
    using round_raw_below(3) [OF assms(1,2) a0] round_raw_above(3) [OF assms(3,4)] assms(2,4)
    unfolding a by auto
  then show False
    using a by simp
qed

text \<open>A literal that is exactly a double, and a product of doubles that is one.\<close>

lemma round_mag_exact: "\<lbrakk>0 \<le> b; b \<le> inf_mag; 0 < den\<rbrakk> \<Longrightarrow> round_mag (den * mag_val b) den = b"
  by (simp add: round_mag_raw round_raw_exact)

lemma literal_exact:
  assumes "p * unit_scale = q * mag_val b" "0 \<le> b" "b < inf_mag" "0 < q"
  shows "literal p q = make_f64 False b" and "negative (literal p q) = False"
    and "is_finite (literal p q)" and "q * sval (literal p q) = p * unit_scale"
proof -
  show l: "literal p q = make_f64 False b"
    using assms round_mag_exact [of b q] by (simp add: literal_def)
  have "b < sign_mask"
    using assms(3) inf_mag_less(1) by simp
  then show "negative (literal p q) = False" "is_finite (literal p q)"
    "q * sval (literal p q) = p * unit_scale"
    using assms by (simp_all add: l is_finite_def sval_def)
qed

text \<open>The powers of two among the normal doubles.\<close>

lemma mag_val_power: "mag_val (int k * 2 ^ 52 + 2 ^ 52) = 2 ^ (52 + k)"
  using mag_val_normal [of "2 ^ 52" k] by (simp add: power_add)

end
