(* ===== verification/Ulp.thy ===== *)
theory Ulp
  imports Doubles
begin

text \<open>
  Steps along the line of doubles (\<open>float_bits\<close>, \<open>bits_float\<close>, \<open>next\<close> and \<open>prev\<close>, \<open>t/csm.py\<close>)
  and the logarithms rounded to one side with them. \<open>float_bits\<close> numbers the doubles in
  increasing order, \<open>-0.0\<close> just before \<open>0.0\<close>; one step up from a rounded result is an upper
  bound of the exact one.
\<close>

definition float_bits :: "f64 \<Rightarrow> int" where
  "float_bits x =
     (let bits = sint x; significand = bits mod 2 ^ 63
      in if 0 \<le> bits then significand else NOT significand)"

definition bits_float :: "int \<Rightarrow> f64 result" where
  "bits_float bits =
     (let bits' = (if bits < 0 then NOT (bits mod 2 ^ 63) else bits)
      in if - (2 ^ 63) \<le> bits' \<and> bits' < 2 ^ 63 then Inr (word_of_int bits') else Inl StructError)"

definition next_float :: "f64 \<Rightarrow> int \<Rightarrow> f64 result" where
  "next_float x delta = bits_float (float_bits x + delta)"

definition prev_float :: "f64 \<Rightarrow> int \<Rightarrow> f64 result" where
  "prev_float x delta = bits_float (float_bits x - delta)"

definition LIBM_ERROR_LIMIT :: int where
  "LIBM_ERROR_LIMIT = 4"

definition log_up :: "platform \<Rightarrow> f64 \<Rightarrow> f64 result" where
  "log_up pf x = bind_result (math_1 (libm_log pf) False x) (\<lambda>r. next_float r LIBM_ERROR_LIMIT)"

definition log_down :: "platform \<Rightarrow> f64 \<Rightarrow> f64 result" where
  "log_down pf x = bind_result (math_1 (libm_log pf) False x) (\<lambda>r. prev_float r LIBM_ERROR_LIMIT)"

definition log1p_up :: "platform \<Rightarrow> f64 \<Rightarrow> f64 result" where
  "log1p_up pf x = bind_result (math_1 (libm_log1p pf) False x) (\<lambda>r. next_float r LIBM_ERROR_LIMIT)"

definition log1p_down :: "platform \<Rightarrow> f64 \<Rightarrow> f64 result" where
  "log1p_down pf x = bind_result (math_1 (libm_log1p pf) False x) (\<lambda>r. prev_float r LIBM_ERROR_LIMIT)"

subsection \<open>The numbering of the doubles\<close>

lemma sint_magnitude: "sint (x::f64) = (if negative x then magnitude x - sign_mask else magnitude x)"
proof -
  have s: "sint x = (uint x + sign_mask) mod (2 * sign_mask) - sign_mask"
  proof -
    have l: "LENGTH(64) - Suc 0 = 63" by simp
    have m: "take_bit (Suc 63) k = k mod (2 * sign_mask)" for k :: int
      by (simp add: take_bit_eq_mod sign_mask_def)
    show ?thesis
      unfolding sint_uint l signed_take_bit_eq_take_bit_shift m by (simp only: sign_mask_def)
  qed
  show ?thesis
  proof (cases "negative x")
    case True
    have "uint x + sign_mask = magnitude x + 2 * sign_mask"
      using True by (simp add: uint_magnitude)
    moreover have "(magnitude x + 2 * sign_mask) mod (2 * sign_mask) = magnitude x"
      using magnitude_range [of x] sign_mask_pos by (simp add: mod_pos_pos_trivial)
    ultimately show ?thesis
      using True s by simp
  next
    case False
    then show ?thesis
      using magnitude_range [of x] by (simp add: s uint_magnitude mod_pos_pos_trivial)
  qed
qed

lemma float_bits_magnitude:
  "float_bits x = (if negative x then - 1 - magnitude x else magnitude x)"
proof (cases "negative x")
  case True
  have "sint x mod 2 ^ 63 = (magnitude x - sign_mask) mod sign_mask"
    using True by (simp add: sint_magnitude sign_mask_def)
  also have "\<dots> = magnitude x"
    using magnitude_range [of x] by (simp add: minus_mod_self2 mod_pos_pos_trivial)
  finally show ?thesis
    using True magnitude_range(2) [of x]
    by (simp add: float_bits_def sint_magnitude not_int_def Let_def)
next
  case False
  have "sint x mod 2 ^ 63 = magnitude x mod sign_mask"
    using False by (simp add: sint_magnitude sign_mask_def)
  also have "\<dots> = magnitude x"
    using magnitude_range [of x] by (simp add: mod_pos_pos_trivial)
  finally show ?thesis
    using False magnitude_range(1) [of x] by (simp add: float_bits_def sint_magnitude Let_def)
qed

text \<open>The double at a position; positions past both ends hold NaNs, the last ones none.\<close>

definition double_at :: "int \<Rightarrow> f64" where
  "double_at i = (if 0 \<le> i then make_f64 False i else make_f64 True (- 1 - i))"

lemma bits_float_at: "\<lbrakk>- sign_mask \<le> i; i < sign_mask\<rbrakk> \<Longrightarrow> bits_float i = Inr (double_at i)"
proof (cases "i < 0")
  case True
  assume r: "- sign_mask \<le> i"
  have "i mod 2 ^ 63 = (i + sign_mask) mod sign_mask"
    by (simp add: sign_mask_def)
  also have "\<dots> = i + sign_mask"
    using True r by (intro mod_pos_pos_trivial) auto
  finally have n: "NOT (i mod 2 ^ 63) = (- 1 - i) - sign_mask"
    by (simp add: not_int_def)
  have "(word_of_int ((- 1 - i) - sign_mask) :: f64) = word_of_int (sign_mask + (- 1 - i))"
    by (simp add: word_of_int_eq_iff take_bit_eq_mod sign_mask_def mod_eq_dvd_iff)
  then show ?thesis
    using True r n unfolding bits_float_def double_at_def make_f64_def Let_def
    by (simp add: sign_mask_def)
next
  case False
  assume "i < sign_mask"
  with False show ?thesis
    by (simp add: bits_float_def double_at_def make_f64_def sign_mask_def)
qed

lemma float_bits_range: "- sign_mask \<le> float_bits x" "float_bits x < sign_mask"
  using magnitude_range [of x] unfolding float_bits_magnitude by simp_all

lemma double_at_float_bits [simp]: "double_at (float_bits x) = x"
  using make_f64_parts [of x] magnitude_range(1) [of x]
  by (cases "negative x") (simp_all add: double_at_def float_bits_magnitude)

lemma float_bits_double_at:
  "\<lbrakk>- sign_mask \<le> i; i < sign_mask\<rbrakk> \<Longrightarrow> float_bits (double_at i) = i"
  by (simp add: double_at_def float_bits_magnitude)

lemma bits_float_bits: "bits_float (float_bits x) = Inr x"
  using bits_float_at [OF float_bits_range] by simp

lemma float_bits_of: "\<lbrakk>- sign_mask \<le> i; i < sign_mask; bits_float i = Inr x\<rbrakk> \<Longrightarrow> float_bits x = i"
  by (auto simp: bits_float_at float_bits_double_at)

lemma next_float_at:
  "\<lbrakk>- sign_mask \<le> float_bits x + d; float_bits x + d < sign_mask\<rbrakk> \<Longrightarrow>
     next_float x d = Inr (double_at (float_bits x + d))"
  by (simp add: next_float_def bits_float_at)

lemma prev_float_next: "prev_float x d = next_float x (- d)"
  by (simp add: prev_float_def next_float_def)

text \<open>Order: positions refine the comparison of the values, zeros apart.\<close>

lemma flt_float_bits:
  assumes "\<not> is_nan x" "\<not> is_nan y"
  shows "flt x y \<longleftrightarrow> float_bits x < float_bits y \<and> \<not> (float_bits x = - 1 \<and> float_bits y = 0)"
  using assms magnitude_range [of x] magnitude_range [of y]
  by (auto simp: flt_def order_key_def float_bits_magnitude)

text \<open>The value at a position.\<close>

definition position_val :: "int \<Rightarrow> int" where
  "position_val i = (if 0 \<le> i then mag_val i else - mag_val (- 1 - i))"

lemma sval_position: "sval x = position_val (float_bits x)"
  using magnitude_range(1) [of x]
  by (simp add: sval_def position_val_def float_bits_magnitude)

lemma position_val_mono: "i \<le> j \<Longrightarrow> position_val i \<le> position_val j"
  using mag_val_nonneg [of "- 1 - i"] mag_val_nonneg [of j]
  by (auto simp: position_val_def mag_val_le_iff)

lemma is_finite_position: "is_finite x \<longleftrightarrow> - 1 - inf_mag < float_bits x \<and> float_bits x < inf_mag"
  using magnitude_range [of x] inf_mag_less by (auto simp: is_finite_def float_bits_magnitude)

lemma finite_next:
  assumes "is_finite x"
  shows "next_float x 1 = Inr (double_at (float_bits x + 1))"
    and "prev_float x 1 = Inr (double_at (float_bits x - 1))"
  using assms inf_mag_less is_finite_position [of x] next_float_at [of x 1] next_float_at [of x "-1"]
  by (auto simp: prev_float_next)

lemma float_bits_finite_step:
  assumes "is_finite x"
  shows "float_bits (double_at (float_bits x + 1)) = float_bits x + 1"
    and "float_bits (double_at (float_bits x - 1)) = float_bits x - 1"
  using assms inf_mag_less unfolding is_finite_position
  by (simp_all add: float_bits_double_at)

lemma position_val_finite_next:
  "is_finite x \<Longrightarrow> next_float x 1 = Inr y \<Longrightarrow> sval y = position_val (float_bits x + 1)"
  using float_bits_finite_step(1) [of x] finite_next(1) [of x] by (auto simp: sval_position)

lemma position_val_finite_prev:
  "is_finite x \<Longrightarrow> prev_float x 1 = Inr y \<Longrightarrow> sval y = position_val (float_bits x - 1)"
  using float_bits_finite_step(2) [of x] finite_next(2) [of x] by (auto simp: sval_position)

subsection \<open>One step covers the rounding error\<close>

lemma rounded_position:
  assumes "0 \<le> num" "0 < den" "round_mag num den < inf_mag"
  shows "num < den * mag_val (round_mag num den + 1)"
    and "0 < round_mag num den \<Longrightarrow> den * mag_val (round_mag num den - 1) < num"
proof -
  have "round_mag num den = round_raw num den"
    using assms(3) by (simp add: round_mag_raw)
  then show "num < den * mag_val (round_mag num den + 1)"
    and "0 < round_mag num den \<Longrightarrow> den * mag_val (round_mag num den - 1) < num"
    using round_raw_above(1) [OF assms(1,2)] round_raw_below(1) [OF assms(1,2)] by simp_all
qed

lemma round_mag_range: "\<lbrakk>0 \<le> num; 0 < den\<rbrakk> \<Longrightarrow> 0 \<le> round_mag num den \<and> round_mag num den \<le> inf_mag"
  using inf_mag_less round_raw_nonneg by (simp add: round_mag_raw)

text \<open>
  An exact value \<open>p / q\<close> lies between the neighbours of its rounding. The sign of a rounded
  value is that of the exact one; an exact zero may have either sign.
\<close>

definition rounds_to :: "int \<Rightarrow> int \<Rightarrow> f64 \<Rightarrow> bool" where
  "rounds_to p q x \<longleftrightarrow>
     0 < q \<and> magnitude x = round_mag \<bar>p\<bar> q \<and> (if negative x then p \<le> 0 else 0 \<le> p)"

lemma rounds_to_make:
  "\<lbrakk>0 < q; if neg then p \<le> 0 else 0 \<le> p\<rbrakk> \<Longrightarrow> rounds_to p q (make_f64 neg (round_mag \<bar>p\<bar> q))"
  using round_mag_range [of "\<bar>p\<bar>" q] inf_mag_less by (simp add: rounds_to_def)

lemma rounds_to_bounds:
  assumes "rounds_to p q x" "is_finite x"
  shows "p \<le> q * position_val (float_bits x + 1)" and "q * position_val (float_bits x - 1) \<le> p"
proof -
  have q: "0 < q" and m: "round_mag \<bar>p\<bar> q < inf_mag" "magnitude x = round_mag \<bar>p\<bar> q"
    and sign: "if negative x then p \<le> 0 else 0 \<le> p"
    using assms by (auto simp: rounds_to_def is_finite_def)
  let ?m = "round_mag \<bar>p\<bar> q"
  have m0: "0 \<le> ?m"
    using round_mag_range [of "\<bar>p\<bar>" q] q by simp
  have up: "\<bar>p\<bar> < q * mag_val (?m + 1)" and down: "0 < ?m \<Longrightarrow> q * mag_val (?m - 1) < \<bar>p\<bar>"
    using rounded_position [of "\<bar>p\<bar>" q] q m by auto
  have qv: "0 \<le> q * mag_val i" if "0 \<le> i" for i
    using that q mag_val_nonneg by simp
  show "p \<le> q * position_val (float_bits x + 1)"
  proof (cases "negative x")
    case False
    then show ?thesis
      using sign up m m0 by (simp add: float_bits_magnitude position_val_def)
  next
    case True
    then show ?thesis
      using sign down m m0 qv [of 0] by (cases "?m = 0") (auto simp: float_bits_magnitude position_val_def)
  qed
  show "q * position_val (float_bits x - 1) \<le> p"
  proof (cases "negative x")
    case True
    then have "position_val (float_bits x - 1) = - mag_val (?m + 1)"
      using m m0 by (simp add: float_bits_magnitude position_val_def add.commute)
    then show ?thesis
      using True sign up by simp
  next
    case False
    then show ?thesis
      using sign down m m0 qv [of 0] by (cases "?m = 0") (auto simp: float_bits_magnitude position_val_def)
  qed
qed

lemma next_upper_bound:
  "\<lbrakk>rounds_to p q x; is_finite x; next_float x 1 = Inr y\<rbrakk> \<Longrightarrow> p \<le> q * sval y"
  using rounds_to_bounds(1) position_val_finite_next by simp

lemma prev_lower_bound:
  "\<lbrakk>rounds_to p q x; is_finite x; prev_float x 1 = Inr y\<rbrakk> \<Longrightarrow> q * sval y \<le> p"
  using rounds_to_bounds(2) position_val_finite_prev by simp

subsection \<open>What the arithmetic rounds\<close>

lemma finite_not_special: "is_finite x \<Longrightarrow> \<not> is_nan x \<and> \<not> is_inf x"
  by (auto simp: is_finite_def is_nan_def is_inf_def)

lemma sval_sign: "negative x \<Longrightarrow> sval x \<le> 0" "\<not> negative x \<Longrightarrow> 0 \<le> sval x"
  by (simp_all add: sval_def mag_val_nonneg magnitude_range)

lemma abs_sval: "\<bar>sval x\<bar> = mag_val (magnitude x)"
  by (simp add: sval_def mag_val_nonneg magnitude_range)

lemma fadd_rounds:
  assumes "is_finite x" "is_finite y"
  shows "rounds_to (sval x + sval y) 1 (fadd pf x y)"
proof -
  have "fadd pf x y = make_f64 (sval x + sval y < 0 \<or> sval x + sval y = 0 \<and> negative x \<and> negative y)
      (round_mag \<bar>sval x + sval y\<bar> 1)"
    using assms finite_not_special by (simp add: fadd_def add_core_def Let_def)
  then show ?thesis
    using rounds_to_make by auto
qed

lemma fsub_rounds:
  assumes "is_finite x" "is_finite y"
  shows "rounds_to (sval x - sval y) 1 (fsub pf x y)"
proof -
  have "is_finite (fneg y)"
    using assms(2) by (simp add: is_finite_def)
  then have "fsub pf x y = make_f64 (sval x - sval y < 0 \<or> sval x - sval y = 0 \<and> negative x \<and> \<not> negative y)
      (round_mag \<bar>sval x - sval y\<bar> 1)"
    using assms finite_not_special by (simp add: fsub_def add_core_def Let_def)
  then show ?thesis
    using rounds_to_make by auto
qed

lemma unit_scale_pos: "0 < unit_scale"
  by (simp add: unit_scale_def)

lemma fmul_rounds:
  assumes "is_finite x" "is_finite y"
  shows "rounds_to (sval x * sval y) unit_scale (fmul pf x y)"
proof -
  have "fmul pf x y = make_f64 (negative x \<noteq> negative y) (round_mag \<bar>sval x * sval y\<bar> unit_scale)"
    using assms finite_not_special by (simp add: fmul_def Let_def abs_mult)
  moreover have "if negative x \<noteq> negative y then sval x * sval y \<le> 0 else 0 \<le> sval x * sval y"
    using sval_sign [of x] sval_sign [of y]
    by (auto simp: mult_nonneg_nonpos mult_nonneg_nonpos2 mult_nonpos_nonpos)
  ultimately show ?thesis
    using rounds_to_make [OF unit_scale_pos] by simp
qed

lemma fdiv_rounds:
  assumes "is_finite x" "is_finite y" "fdiv pf x y = Inr z"
  shows "if 0 < sval y then rounds_to (sval x * unit_scale) (sval y) z
    else rounds_to (- (sval x * unit_scale)) (- sval y) z"
proof -
  have m: "0 < magnitude y"
    using assms(3) magnitude_range(1) [of y] by (auto simp: fdiv_def Let_def split: if_splits)
  then have "0 < \<bar>sval y\<bar>"
    unfolding abs_sval using mag_val_mono_strict [of 0 "magnitude y"] by simp
  then have y: "if negative y then sval y < 0 else 0 < sval y"
    using sval_sign [of y] by auto
  have z: "z = make_f64 (negative x \<noteq> negative y) (round_mag (\<bar>sval x * unit_scale\<bar>) \<bar>sval y\<bar>)"
    using assms finite_not_special m unit_scale_pos
    by (simp add: fdiv_def Let_def abs_mult split: if_splits)
  show ?thesis
  proof (cases "negative y")
    case True
    then show ?thesis
      using y z sval_sign [of x] unit_scale_pos
        rounds_to_make [of "- sval y" "negative x \<noteq> negative y" "- (sval x * unit_scale)"]
      by (auto simp: mult_le_0_iff zero_le_mult_iff)
  next
    case False
    then show ?thesis
      using y z sval_sign [of x] unit_scale_pos
        rounds_to_make [of "sval y" "negative x \<noteq> negative y" "sval x * unit_scale"]
      by (auto simp: mult_le_0_iff zero_le_mult_iff)
  qed
qed

end
