(* ===== verification/Rounding.thy ===== *)
theory Rounding
  imports Ulp
begin

text \<open>
  Rounding of exact sums as a function on integers (multiples of \<open>2 ** -1074\<close>), and the error
  of an addition: for operands of ordered exponents the sequence of operations of Dekker
  recovers it exactly.
\<close>

definition rn :: "int \<Rightarrow> int" where
  "rn v = sgn v * mag_val (round_raw \<bar>v\<bar> 1)"

definition representable :: "int \<Rightarrow> bool" where
  "representable v \<longleftrightarrow> (\<exists>b \<ge> 0. \<bar>v\<bar> = mag_val b)"

lemma round_raw_0: "round_raw 0 1 = 0"
  using round_raw_exact [of 0 1] by simp

lemma rn_0 [simp]: "rn 0 = 0"
  by (simp add: rn_def)

lemma rn_neg: "rn (- v) = - rn v"
  by (simp add: rn_def)

lemma rn_pos: "0 \<le> v \<Longrightarrow> rn v = mag_val (round_raw v 1)"
  by (cases "v = 0") (simp_all add: rn_def round_raw_0)

lemma rn_nonneg: "0 \<le> v \<Longrightarrow> 0 \<le> rn v"
  by (simp add: rn_pos mag_val_nonneg round_raw_nonneg)

lemma rn_representable [simp]: "representable (rn v)"
proof -
  have "\<bar>rn v\<bar> = mag_val (round_raw \<bar>v\<bar> 1)"
    by (cases "v = 0") (auto simp: rn_def abs_mult round_raw_0 mag_val_nonneg round_raw_nonneg)
  then show ?thesis
    unfolding representable_def using round_raw_nonneg [of "\<bar>v\<bar>" 1] by auto
qed

lemma representable_neg [simp]: "representable (- v) \<longleftrightarrow> representable v"
  by (simp add: representable_def)

lemma rn_exact: "representable v \<Longrightarrow> rn v = v"
  using round_raw_exact [of _ 1] by (auto simp: representable_def rn_def) (metis mult_sgn_abs)

lemma rn_mono: "v \<le> w \<Longrightarrow> rn v \<le> rn w"
proof -
  have pos: "rn v \<le> rn w" if "0 \<le> v" "v \<le> w" for v w
    using that round_raw_mono [of v 1 w 1] round_raw_nonneg by (simp add: rn_pos mag_val_le_iff)
  show "rn v \<le> rn w" if "v \<le> w"
  proof (cases "0 \<le> v")
    case False
    show ?thesis
    proof (cases "0 \<le> w")
      case True
      then show ?thesis
        using False rn_nonneg [of "- v"] rn_nonneg [of w] by (simp add: rn_neg)
    next
      case False
      then show ?thesis
        using that pos [of "- w" "- v"] by (simp add: rn_neg)
    qed
  qed (use that pos in simp)
qed

text \<open>No representable number is closer.\<close>

lemma rn_nearest_pos:
  assumes "0 \<le> v" "0 \<le> b"
  shows "\<bar>rn v - v\<bar> \<le> \<bar>mag_val b - v\<bar>"
proof -
  note v = rn_pos [OF assms(1)]
  show ?thesis
  proof (cases rule: round_raw_cases [OF assms(1) zero_less_one])
    case (1 c)
    then have "mag_val b \<le> mag_val c \<or> mag_val (c + 1) \<le> mag_val b"
      using assms(2) by (auto simp: mag_val_le_iff)
    then show ?thesis
      using 1(3,4) unfolding v 1(1) mult_1 by linarith
  next
    case (2 c)
    then have "mag_val b \<le> mag_val c \<or> mag_val (c + 1) \<le> mag_val b"
      using assms(2) by (auto simp: mag_val_le_iff)
    then show ?thesis
      using 2(3,4) unfolding v 2(1) mult_1 by linarith
  qed
qed

lemma rn_nearest:
  assumes "representable w"
  shows "\<bar>rn v - v\<bar> \<le> \<bar>w - v\<bar>"
proof -
  obtain b where b: "0 \<le> b" "\<bar>w\<bar> = mag_val b"
    using assms by (auto simp: representable_def)
  show ?thesis
  proof (cases "0 \<le> v")
    case True
    then show ?thesis
      using rn_nearest_pos [OF True b(1)] b(2) by linarith
  next
    case False
    then have "\<bar>rn (- v) - (- v)\<bar> \<le> \<bar>mag_val b - (- v)\<bar>"
      by (intro rn_nearest_pos b) simp
    then show ?thesis
      unfolding rn_neg using b(2) False by linarith
  qed
qed

subsection \<open>Significand and exponent\<close>

text \<open>Canonical form: a full significand unless the exponent is the smallest.\<close>

definition canonical :: "int \<Rightarrow> int \<Rightarrow> nat \<Rightarrow> bool" where
  "canonical v m k \<longleftrightarrow> v = m * 2 ^ k \<and> \<bar>m\<bar> < 2 ^ 53 \<and> (0 < k \<longrightarrow> 2 ^ 52 \<le> \<bar>m\<bar>)"

lemma representable_canonical:
  assumes "representable v"
  obtains m k where "canonical v m k"
proof -
  obtain b where b: "0 \<le> b" "\<bar>v\<bar> = mag_val b"
    using assms by (auto simp: representable_def)
  have s: "v = sgn v * mag_val b"
    using b(2) by (metis mult_sgn_abs)
  show ?thesis
    using b(1)
  proof (cases b rule: magnitude_cases)
    case subnormal
    then have "canonical v (sgn v * b) 0"
      using s b by (auto simp: canonical_def mag_val_small abs_mult sgn_if)
    then show ?thesis by (rule that)
  next
    case (normal k m)
    then have "mag_val b = m * 2 ^ k"
      using mag_val_normal [of m k] by simp
    then have "canonical v (sgn v * m) k"
      using s b normal by (auto simp: canonical_def abs_mult sgn_if)
    then show ?thesis by (rule that)
  qed
qed

lemma representable_scaled: "\<bar>m\<bar> \<le> 2 ^ 53 \<Longrightarrow> representable (m * 2 ^ k)"
proof (induction k arbitrary: m)
  case 0
  then show ?case
    unfolding representable_def by (intro exI [of _ "\<bar>m\<bar>"]) (simp add: mag_val_small)
next
  case (Suc k)
  show ?case
  proof (cases "\<bar>m\<bar> \<le> 2 ^ 52")
    case True
    then have "representable (2 * m * 2 ^ k)"
      by (intro Suc.IH) simp
    then show ?thesis
      by (simp add: mult.assoc mult.left_commute)
  next
    case False
    have "\<bar>m * 2 ^ Suc k\<bar> = mag_val (int (Suc k) * 2 ^ 52 + \<bar>m\<bar>)"
      using mag_val_normal [of "\<bar>m\<bar>" "Suc k"] False Suc.prems by (simp add: abs_mult)
    then show ?thesis
      unfolding representable_def by (intro exI [of _ "int (Suc k) * 2 ^ 52 + \<bar>m\<bar>"]) simp
  qed
qed

lemma half_spacing:
  fixes v m q t r :: int
  assumes "v = m * q + t" "0 \<le> t" "t < q"
    and "r = m \<and> 2 * t \<le> q \<or> r = m + 1 \<and> q \<le> 2 * t"
  shows "2 * \<bar>r * q - v\<bar> \<le> q"
proof -
  have "r * q - v = - t \<and> 2 * t \<le> q \<or> r * q - v = q - t \<and> q \<le> 2 * t"
    using assms(1,4) by (auto simp: distrib_right)
  then show ?thesis
    using assms(2,3) by (auto simp: abs_if)
qed

text \<open>A rounded number is a multiple of its spacing, and off by at most half of it.\<close>

lemma rn_spacing:
  obtains "rn v = v"
    | k where "2 ^ k dvd rn v" "\<not> 2 ^ k dvd v" "2 * \<bar>rn v - v\<bar> \<le> 2 ^ k" "0 < k" "2 ^ 52 * 2 ^ k \<le> \<bar>v\<bar>"
proof -
  let ?k = "round_exp \<bar>v\<bar> 1" and ?m = "round_floor \<bar>v\<bar> 1"
  let ?r = "round_div \<bar>v\<bar> (2 ^ ?k)"
  have range: "0 \<le> ?m" "?m < 2 ^ 53" "0 < ?k \<Longrightarrow> 2 ^ 52 \<le> ?m"
    using round_floor_range [of "\<bar>v\<bar>" 1] by simp_all
  have f: "?m = \<bar>v\<bar> div 2 ^ ?k"
    by (simp add: round_floor_def)
  have dm: "\<bar>v\<bar> = ?m * 2 ^ ?k + \<bar>v\<bar> mod 2 ^ ?k"
    unfolding f by (rule div_mult_mod_eq [symmetric])
  have mr: "0 \<le> \<bar>v\<bar> mod 2 ^ ?k" "\<bar>v\<bar> mod 2 ^ ?k < 2 ^ ?k" by simp_all
  have r: "?r = ?m \<or> ?r = ?m + 1"
    by (simp add: round_div_def Let_def f)
  have raw: "round_raw \<bar>v\<bar> 1 = int ?k * 2 ^ 52 + ?r"
    by (simp add: round_raw_def)
  have val: "mag_val (round_raw \<bar>v\<bar> 1) = ?r * 2 ^ ?k"
    using mag_val_round [of "\<bar>v\<bar>" 1] r unfolding raw by (auto simp: add.assoc)
  have "?r = ?m \<and> 2 * (\<bar>v\<bar> mod 2 ^ ?k) \<le> 2 ^ ?k \<or> ?r = ?m + 1 \<and> 2 ^ ?k \<le> 2 * (\<bar>v\<bar> mod 2 ^ ?k)"
    by (auto simp: round_div_def Let_def f)
  then have err: "2 * \<bar>?r * 2 ^ ?k - \<bar>v\<bar>\<bar> \<le> 2 ^ ?k"
    using half_spacing [OF dm mr] by blast
  have rnv: "rn v = sgn v * (?r * 2 ^ ?k)"
    by (simp add: rn_def val)
  show ?thesis
  proof (cases "2 ^ ?k dvd v")
    case True
    then have "\<bar>v\<bar> mod 2 ^ ?k = 0"
      by (simp add: dvd_imp_mod_0)
    then have "?r * 2 ^ ?k = \<bar>v\<bar>"
      using dm unfolding round_div_def Let_def f [symmetric] by simp
    then have "rn v = v"
      unfolding rnv by (simp only: sgn_mult_abs)
    then show ?thesis by (rule that(1))
  next
    case False
    then have k: "0 < ?k"
      by (intro gr0I) auto
    show ?thesis
    proof (rule that(2) [of ?k])
      show "2 ^ ?k dvd rn v" unfolding rnv by simp
      have "\<bar>rn v - v\<bar> = \<bar>?r * 2 ^ ?k - \<bar>v\<bar>\<bar>"
        using False unfolding rnv by (cases v "0::int" rule: linorder_cases) auto
      then show "2 * \<bar>rn v - v\<bar> \<le> 2 ^ ?k"
        using err by simp
      have "2 ^ 52 * 2 ^ ?k \<le> ?m * 2 ^ ?k"
        using range(3) [OF k] by simp
      then show "2 ^ 52 * 2 ^ ?k \<le> \<bar>v\<bar>"
        using dm mr by linarith
    qed (use False k in auto)
  qed
qed

lemma rn_multiple:
  assumes "2 ^ j dvd v"
  shows "2 ^ j dvd rn v"
proof (cases rule: rn_spacing [of v])
  case (2 k)
  then have "j < k"
    using assms power_le_dvd [of "2::int" j v k] by (meson not_le power_le_dvd)
  then have "(2::int) ^ j dvd 2 ^ k"
    by (simp add: le_imp_power_dvd)
  then show ?thesis
    using 2(1) dvd_trans by blast
qed (use assms in simp)

subsection \<open>Dekker's sum\<close>

lemma coarse_sum_bound:
  fixes d e b p q :: int
  assumes "d \<le> b + e" "2 * e \<le> q" "b < 2 ^ 53 * p" "2 * p \<le> q" "0 < q"
  shows "d \<le> 2 ^ 53 * q"
  using assms by simp

lemma same_binade_bound:
  fixes s a b p q :: int
  assumes "s \<le> a + b" "2 ^ 52 * q \<le> s" "a \<le> (2 ^ 53 - 1) * p" "b \<le> (2 ^ 53 - 1) * p" "0 < p"
  shows "2 ^ 52 * q < 2 ^ 54 * p"
  using assms by simp

lemma representable_on_grid:
  assumes "2 ^ k dvd v" "\<bar>v\<bar> \<le> 2 ^ 53 * 2 ^ k"
  shows "representable v"
proof -
  obtain q where "v = 2 ^ k * q"
    using assms(1) by (rule dvdE)
  then have q: "v = q * 2 ^ k" by simp
  then have "\<bar>q\<bar> * 2 ^ k \<le> 2 ^ 53 * 2 ^ k"
    using assms(2) by (simp add: abs_mult)
  then show ?thesis
    unfolding q by (intro representable_scaled) simp
qed

lemma power_dvd_int: "j \<le> k \<Longrightarrow> (2::int) ^ j dvd 2 ^ k"
  by (rule le_imp_power_dvd)

lemma exponent_bound:
  assumes "2 ^ 52 * 2 ^ k < 2 ^ 54 * (2 ^ ea :: int)"
  shows "k \<le> Suc ea"
proof -
  have "(2::int) ^ (52 + k) < 2 ^ (54 + ea)"
    using assms by (simp add: power_add)
  then have "52 + k < 54 + ea"
    by (rule power_less_imp_less_exp [rotated]) simp
  then show ?thesis by simp
qed

text \<open>
  The rounded sum less its leading term, when the sum is rounded to a spacing \<open>2 ** k\<close> that is
  coarser than the grid of the smaller exponent.
\<close>

lemma leading_difference:
  assumes a: "a = ma * 2 ^ ea" "\<bar>ma\<bar> < 2 ^ 53" and b: "\<bar>b\<bar> < 2 ^ 53 * 2 ^ eb" "\<bar>b\<bar> \<le> (2 ^ 53 - 1) * 2 ^ ea"
    and x: "2 ^ k dvd x" "2 * \<bar>x - (a + b)\<bar> \<le> 2 ^ k" "2 ^ 52 * 2 ^ k \<le> \<bar>a + b\<bar>" and eb: "2 * (2 ^ eb :: int) \<le> 2 ^ k"
  shows "representable (x - a)"
proof (cases "k \<le> ea")
  case True
  show ?thesis
  proof (rule representable_on_grid)
    show "2 ^ k dvd x - a"
      using x(1) a(1) power_dvd_int [OF True] by (intro dvd_diff) (auto intro: dvd_mult)
    have "\<bar>x - a\<bar> \<le> \<bar>b\<bar> + \<bar>x - (a + b)\<bar>"
      by linarith
    then show "\<bar>x - a\<bar> \<le> 2 ^ 53 * 2 ^ k"
      using coarse_sum_bound [OF _ x(2) b(1) eb] by simp
  qed
next
  case False
  have "\<bar>a\<bar> \<le> (2 ^ 53 - 1) * 2 ^ ea"
    using a by (simp add: abs_mult)
  then have "k \<le> Suc ea"
    using same_binade_bound [OF abs_triangle_ineq x(3) _ b(2)] by (intro exponent_bound) simp
  then have k: "k = Suc ea"
    using False by simp
  show ?thesis
  proof (rule representable_on_grid)
    show "2 ^ ea dvd x - a"
      using x(1) a(1) power_dvd_int [of ea k] unfolding k by (intro dvd_diff) (auto intro: dvd_trans)
    show "\<bar>x - a\<bar> \<le> 2 ^ 53 * 2 ^ ea"
      using x(2) b(2) unfolding k by simp
  qed
qed

lemma fast_two_sum:
  assumes a: "a = ma * 2 ^ ea" "\<bar>ma\<bar> < 2 ^ 53"
    and b: "b = mb * 2 ^ eb" "\<bar>mb\<bar> < 2 ^ 53" and le: "eb \<le> ea"
  defines "x \<equiv> rn (a + b)"
  shows "rn (x - a) = x - a" and "rn (b - (x - a)) = b - (x - a)"
proof -
  have grid: "2 ^ eb dvd a" "2 ^ eb dvd b"
    using a b power_dvd_int [OF le] by (auto intro: dvd_mult)
  then have grid_x: "2 ^ eb dvd x"
    unfolding x_def by (intro rn_multiple dvd_add)
  have reprs: "representable a" "representable b"
    using a b representable_scaled [of ma ea] representable_scaled [of mb eb] by auto
  have err: "\<bar>x - (a + b)\<bar> \<le> \<bar>b\<bar>"
    using rn_nearest [OF reprs(1), of "a + b"] by (simp add: x_def)
  have bound_b: "\<bar>b\<bar> < 2 ^ 53 * 2 ^ eb"
    using b by (simp add: abs_mult)
  have "\<bar>mb\<bar> * 2 ^ eb \<le> (2 ^ 53 - 1) * 2 ^ ea"
    using b(2) le by (intro mult_mono power_increasing) auto
  then have bb: "\<bar>b\<bar> \<le> (2 ^ 53 - 1) * 2 ^ ea"
    using b(1) by (simp add: abs_mult)
  have "representable (b - (x - a))"
  proof (rule representable_on_grid)
    show "2 ^ eb dvd b - (x - a)"
      using grid grid_x by (intro dvd_diff)
    show "\<bar>b - (x - a)\<bar> \<le> 2 ^ 53 * 2 ^ eb"
      using err bound_b by linarith
  qed
  then show "rn (b - (x - a)) = b - (x - a)"
    by (rule rn_exact)
  have "representable (x - a)"
  proof (cases rule: rn_spacing [of "a + b"])
    case 1
    then show ?thesis
      using reprs(2) by (simp add: x_def)
  next
    case (2 k)
    have "\<not> k \<le> eb"
      using 2(2) grid power_dvd_int [of k eb] by (meson dvd_add dvd_trans)
    then have "(2::int) ^ eb \<le> 2 ^ (k - 1)"
      by (intro power_increasing) auto
    then have "2 * (2 ^ eb :: int) \<le> 2 ^ k"
      using 2(4) by (cases k) auto
    then show ?thesis
      using 2(1,3,5) by (intro leading_difference [OF a bound_b bb]) (simp_all add: x_def)
  qed
  then show "rn (x - a) = x - a"
    by (rule rn_exact)
qed

subsection \<open>The last two steps of a compensated update\<close>

text \<open>The compensated sum of a leading term and a smaller one, on exact values.\<close>

definition two_sum :: "int \<Rightarrow> int \<Rightarrow> int \<times> int \<times> int" where
  "two_sum a b = (let x = rn (a + b); d = rn (x - a); y = rn (b - d) in (x, d, y))"

definition covers :: "int \<Rightarrow> int \<Rightarrow> bool" where
  "covers a b \<longleftrightarrow>
     (case two_sum a b of (x, d, y) \<Rightarrow>
        a + b \<le> x + y \<and> rn (x + y) = x \<and> \<bar>d\<bar> \<le> max (max \<bar>x\<bar> \<bar>a\<bar>) \<bar>b\<bar> \<and> \<bar>y\<bar> \<le> \<bar>b\<bar>)"

lemma covers_representable_sum: "\<lbrakk>representable b; representable (a + b)\<rbrakk> \<Longrightarrow> covers a b"
  by (simp add: covers_def two_sum_def Let_def rn_exact)

lemma covers_exact:
  assumes a: "a = ma * 2 ^ ea" "\<bar>ma\<bar> < 2 ^ 53"
    and b: "b = mb * 2 ^ eb" "\<bar>mb\<bar> < 2 ^ 53" and le: "eb \<le> ea"
    and sign: "\<bar>b\<bar> \<le> \<bar>a\<bar> \<or> 0 \<le> a \<and> 0 \<le> b"
  shows "covers a b"
proof -
  let ?x = "rn (a + b)"
  note exact = fast_two_sum [OF a b le]
  have "representable a"
    using a representable_scaled [of ma ea] by simp
  from rn_nearest [OF this, of "a + b"] have "\<bar>?x - (a + b)\<bar> \<le> \<bar>b\<bar>"
    by simp
  moreover have "0 \<le> a \<and> 0 \<le> ?x \<or> a \<le> 0 \<and> ?x \<le> 0"
  proof (cases "0 \<le> a + b")
    case True
    have "a + b = 0" if "a < 0"
      using that True sign by (auto simp: abs_if split: if_splits)
    then show ?thesis
      using rn_nonneg [OF True] by (cases "a < 0") auto
  next
    case False
    then have "0 \<le> rn (- (a + b))"
      by (intro rn_nonneg) simp
    then show ?thesis
      using False sign unfolding rn_neg by (auto simp: abs_if split: if_splits)
  qed
  then have "\<bar>?x - a\<bar> \<le> max \<bar>?x\<bar> \<bar>a\<bar>"
    by linarith
  ultimately show ?thesis
    unfolding covers_def two_sum_def Let_def prod.case exact
    by (auto simp: le_max_iff_disj add.commute)
qed

lemma canonical_exponents:
  assumes "canonical a ma ea" "canonical b mb eb" "\<bar>b\<bar> \<le> \<bar>a\<bar>"
  shows "eb \<le> ea"
proof (rule ccontr)
  assume "\<not> eb \<le> ea"
  then have "2 ^ 52 \<le> \<bar>mb\<bar>" "Suc ea \<le> eb"
    using assms(2) by (auto simp: canonical_def)
  then have "2 ^ 52 * 2 ^ Suc ea \<le> \<bar>mb\<bar> * 2 ^ eb"
    by (intro mult_mono power_increasing) auto
  also have "\<dots> \<le> \<bar>ma\<bar> * 2 ^ ea"
    using assms by (simp add: canonical_def abs_mult)
  also have "\<dots> < 2 ^ 53 * 2 ^ ea"
    using assms(1) by (simp add: canonical_def)
  finally show False
    by simp
qed

lemma covers_smaller:
  assumes "representable a" "representable b" "\<bar>b\<bar> \<le> \<bar>a\<bar>"
  shows "covers a b"
proof -
  obtain ma ea mb eb where c: "canonical a ma ea" "canonical b mb eb"
    using assms(1,2) representable_canonical by metis
  show ?thesis
    using c canonical_exponents [OF c assms(3)] assms(3)
    by (intro covers_exact [of a ma ea b mb eb]) (auto simp: canonical_def)
qed

text \<open>Neighbours across a power of two: a tie makes the compensation too small, on the safe side.\<close>

lemma rn_tie: "rn ((2 ^ 53 + 1) * 2 ^ k) = 2 ^ 53 * 2 ^ k"
proof -
  let ?v = "(2 ^ 53 + 1) * 2 ^ k :: int" and ?b = "int (Suc k) * 2 ^ 52 + 2 ^ 52"
  let ?r = "round_raw ?v 1"
  have b: "mag_val ?b = 2 ^ 53 * 2 ^ k" "mag_val (?b + 1) = (2 ^ 53 + 2) * 2 ^ k"
    using mag_val_normal [of "2 ^ 52" "Suc k"] mag_val_normal [of "2 ^ 52 + 1" "Suc k"]
    by (simp_all add: add.assoc algebra_simps)
  have v: "mag_val ?b < ?v" "?v < mag_val (?b + 1)" "2 * ?v = mag_val ?b + mag_val (?b + 1)"
    unfolding b by (simp_all add: algebra_simps)
  have v0: "0 \<le> ?v" by simp
  note r0 = round_raw_nonneg [OF v0 zero_less_one]
  have "mag_val ?b < mag_val (?r + 1)"
    using v(1) round_raw_above(1) [OF v0 zero_less_one] by simp
  then have lo: "?b \<le> ?r"
    using r0 by (simp add: mag_val_less_iff)
  have hi: "?r \<noteq> ?b + 1"
  proof
    assume eq: "?r = ?b + 1"
    then have "0 < ?r" by simp
    from round_raw_below(3) [OF v0 zero_less_one this] have "even (?b + 1)"
      using v(3) unfolding eq add_diff_cancel_right' mult_1 by blast
    then show False by simp
  qed
  have "?r \<le> ?b + 1"
  proof -
    have "0 < ?r" using lo by simp
    from round_raw_below(1) [OF v0 zero_less_one this] have "mag_val (?r - 1) < mag_val (?b + 1)"
      using v(2) by simp
    then show ?thesis
      using \<open>0 < ?r\<close> by (simp add: mag_val_less_iff)
  qed
  then have "?r = ?b" using lo hi by simp
  then show ?thesis
    using b(1) by (simp add: rn_pos)
qed

lemma covers_binade:
  assumes "a = (2 ^ 53 - 1) * 2 ^ k" "b = 2 ^ 53 * 2 ^ k"
  shows "covers a b"
proof -
  let ?x = "rn (a + b)"
  have s: "a + b = (2 ^ 54 - 1) * 2 ^ k"
    using assms by (simp add: algebra_simps)
  have lo: "representable ((2 ^ 54 - 2) * 2 ^ k)" and hi: "representable (2 ^ 54 * 2 ^ k)"
    using representable_scaled [of "2 ^ 53 - 1" "Suc k"] representable_scaled [of "2 ^ 53" "Suc k"]
    by simp_all
  have "2 ^ k dvd ?x"
    unfolding s by (intro rn_multiple) simp
  then obtain q where "?x = 2 ^ k * q"
    by (rule dvdE)
  then have q: "?x = q * 2 ^ k" by simp
  have "(2 ^ 54 - 2) * 2 ^ k \<le> q * 2 ^ k" "q * 2 ^ k \<le> 2 ^ 54 * 2 ^ k"
    using rn_mono [of "(2 ^ 54 - 2) * 2 ^ k" "a + b"] rn_mono [of "a + b" "2 ^ 54 * 2 ^ k"]
    unfolding rn_exact [OF lo] rn_exact [OF hi] q unfolding s by simp_all
  then have "2 ^ 54 - 2 \<le> q" "q \<le> 2 ^ 54"
    by simp_all
  show ?thesis
  proof (cases "q = 2 ^ 54")
    case True
    then have x: "?x = 2 ^ 54 * 2 ^ k" using q by simp
    have "?x - a = (2 ^ 53 + 1) * 2 ^ k"
      unfolding x unfolding assms by (simp add: algebra_simps)
    then have d: "rn (?x - a) = b"
      by (simp only: rn_tie assms)
    have "a + b \<le> ?x"
      unfolding x unfolding s by (intro mult_right_mono) auto
    moreover have "rn ?x = ?x"
      by (intro rn_exact) simp
    ultimately show ?thesis
      unfolding covers_def two_sum_def Let_def prod.case d by simp
  next
    case False
    let ?d = "(q - (2 ^ 53 - 1)) * 2 ^ k" and ?y = "(2 ^ 54 - 1 - q) * 2 ^ k"
    have "?x - a = ?d" unfolding q unfolding assms by (simp add: algebra_simps)
    moreover have "representable ?d" "representable ?y"
      using False \<open>2 ^ 54 - 2 \<le> q\<close> \<open>q \<le> 2 ^ 54\<close> by (auto intro!: representable_scaled)
    ultimately have d: "rn (?x - a) = ?d" by (simp add: rn_exact)
    have "b - ?d = ?y" unfolding assms by (simp add: algebra_simps)
    then have y: "rn (b - ?d) = ?y"
      using \<open>representable ?y\<close> by (simp add: rn_exact)
    have sum: "?x + ?y = a + b" unfolding q unfolding s by (simp add: algebra_simps)
    have "\<bar>?d\<bar> \<le> \<bar>b\<bar>" "\<bar>?y\<bar> \<le> \<bar>b\<bar>"
      using False \<open>2 ^ 54 - 2 \<le> q\<close> \<open>q \<le> 2 ^ 54\<close> unfolding assms
      by (auto simp: abs_mult intro!: mult_right_mono)
    then show ?thesis
      unfolding covers_def two_sum_def Let_def prod.case d y sum by (simp add: le_max_iff_disj)
  qed
qed

subsection \<open>One update of the accumulator\<close>

text \<open>Nothing representable lies strictly between consecutive significands.\<close>

lemma canonical_gap:
  assumes "canonical a m k" "0 \<le> m" "representable v" "a < v"
  shows "(m + 1) * 2 ^ k \<le> v" and "2 ^ k dvd v"
proof -
  obtain mv kv where v: "canonical v mv kv"
    using representable_canonical [OF assms(3)] .
  have "0 \<le> a" using assms by (simp add: canonical_def)
  then have "k \<le> kv"
    using canonical_exponents [OF v assms(1)] assms(4) by simp
  then show dvd: "2 ^ k dvd v"
    using v by (auto simp: canonical_def intro: dvd_mult le_imp_power_dvd)
  then obtain q where "v = 2 ^ k * q"
    by (rule dvdE)
  then have q: "v = q * 2 ^ k" by simp
  then have "m < q"
    using assms by (simp add: canonical_def)
  then show "(m + 1) * 2 ^ k \<le> v"
    unfolding q by (intro mult_right_mono) auto
qed

definition above :: "int \<Rightarrow> int \<Rightarrow> bool" where
  "above u v \<longleftrightarrow>
     representable v \<and> u \<le> v \<and> (u \<noteq> 0 \<longrightarrow> u < v) \<and> (\<forall>w. representable w \<and> u < w \<longrightarrow> v \<le> w)"

text \<open>A compensation that rounding absorbs is at most one unit of the leading term's last place.\<close>

lemma absorbed_small:
  assumes "canonical a m k" "rn (a + c) = a"
  shows "\<bar>c\<bar> \<le> 2 ^ k"
proof -
  have near: "\<bar>c\<bar> \<le> \<bar>w * 2 ^ k - (a + c)\<bar>" if "\<bar>w\<bar> \<le> 2 ^ 53" for w
    using rn_nearest [OF representable_scaled [OF that], of "a + c" k] assms(2) by simp
  have a: "a = m * 2 ^ k" and m: "\<bar>m + 1\<bar> \<le> 2 ^ 53" "\<bar>m - 1\<bar> \<le> 2 ^ 53"
    using assms(1) by (auto simp: canonical_def)
  have "(m + 1) * 2 ^ k - (a + c) = 2 ^ k - c" "(m - 1) * 2 ^ k - (a + c) = - (2 ^ k) - c"
    unfolding a by (simp_all add: algebra_simps)
  then have "\<bar>c\<bar> \<le> \<bar>2 ^ k - c\<bar>" "\<bar>c\<bar> \<le> \<bar>- (2 ^ k) - c\<bar>"
    using near [OF m(1)] near [OF m(2)] by simp_all
  then show ?thesis
    using zero_less_power [of "2::int" k] by linarith
qed

text \<open>The term added to the leading one, on exact values.\<close>

definition bumped :: "int \<Rightarrow> int \<Rightarrow> int \<Rightarrow> int" where
  "bumped t c sh = (if c \<le> 0 then min t sh else sh)"

lemma bumped_upper:
  assumes "t + c \<le> sh"
  shows "t + c \<le> bumped t c sh"
  using assms by (auto simp: bumped_def)

lemma covers_swapped:
  assumes "representable a" "representable t" "\<bar>t\<bar> < \<bar>a\<bar>" "rn (t + c) = t" "above t sh"
  shows "covers a (bumped t c sh)"
proof (rule covers_smaller)
  have "representable \<bar>a\<bar>"
    using assms(1) by (simp add: abs_if)
  then have "sh \<le> \<bar>a\<bar>"
    using assms(3,5) by (auto simp: above_def)
  moreover have "t \<le> sh" and "representable sh"
    using assms(5) by (auto simp: above_def)
  ultimately show "\<bar>bumped t c sh\<bar> \<le> \<bar>a\<bar>" "representable (bumped t c sh)"
    using assms(2,3) by (auto simp: bumped_def min_def)
qed (rule assms)

lemma absorbed_within_unit:
  assumes can: "canonical \<bar>a\<bar> m k" and c: "rn (a + c) = a"
  shows "\<bar>c\<bar> \<le> 2 ^ k"
proof (cases "0 \<le> a")
  case True
  then show ?thesis
    using absorbed_small [of a m k c] can c by simp
next
  case False
  then have "rn (\<bar>a\<bar> + (- c)) = \<bar>a\<bar>"
    using c rn_neg [of "a + c"] by simp
  then show ?thesis
    using absorbed_small [OF can] by fastforce
qed

lemma canonical_abs:
  assumes "representable a"
  obtains m k where "canonical \<bar>a\<bar> m k" "0 \<le> m"
proof -
  obtain m k where "canonical a m k"
    using representable_canonical [OF assms] .
  then have "canonical \<bar>a\<bar> \<bar>m\<bar> k"
    by (auto simp: canonical_def abs_mult)
  then show ?thesis by (rule that) simp
qed

text \<open>Up to the successor of the leading term, a rounded sum is bounded by that successor.\<close>

lemma successor_representable: "canonical a m k \<Longrightarrow> 0 \<le> m \<Longrightarrow> representable ((m + 1) * 2 ^ k)"
  by (intro representable_scaled) (simp add: canonical_def)

lemma rounded_up_to_successor:
  assumes "canonical \<bar>a\<bar> m k" "0 \<le> m" "\<bar>t\<bar> \<le> \<bar>a\<bar>" "\<bar>c\<bar> \<le> 2 ^ k"
  shows "rn (t + c) \<le> (m + 1) * 2 ^ k" "- rn (t + c) \<le> (m + 1) * 2 ^ k"
proof -
  have A: "\<bar>a\<bar> = m * 2 ^ k"
    using assms(1) by (simp add: canonical_def)
  have "t + c \<le> (m + 1) * 2 ^ k" "- (t + c) \<le> (m + 1) * 2 ^ k"
    using assms(3,4) A by (auto simp: distrib_right)
  then show "rn (t + c) \<le> (m + 1) * 2 ^ k" "- rn (t + c) \<le> (m + 1) * 2 ^ k"
    using rn_mono [of "t + c" "(m + 1) * 2 ^ k"] rn_mono [of "- (t + c)" "(m + 1) * 2 ^ k"]
      rn_exact [OF successor_representable [OF assms(1,2)]] by (simp_all only: rn_neg)
qed

text \<open>The number after a rounded sum does not go below minus the leading term.\<close>

lemma above_lower:
  assumes can: "canonical \<bar>a\<bar> m k" "0 \<le> m" and "\<bar>t\<bar> \<le> \<bar>a\<bar>" "\<bar>c\<bar> \<le> 2 ^ k" and sh: "above (rn (t + c)) sh"
  shows "- \<bar>a\<bar> \<le> sh"
proof (rule ccontr)
  assume "\<not> - \<bar>a\<bar> \<le> sh"
  moreover have reps: "representable sh" "rn (t + c) \<le> sh"
    using sh by (simp_all add: above_def)
  ultimately have lt: "\<bar>a\<bar> < - sh" "\<bar>a\<bar> < - rn (t + c)"
    by auto
  then have "(m + 1) * 2 ^ k \<le> - sh"
    using canonical_gap(1) [OF can, of "- sh"] reps by simp
  moreover have "rn (t + c) < sh"
    using sh lt(2) by (auto simp: above_def)
  ultimately show False
    using rounded_up_to_successor(2) [OF assms(1-4)] by simp
qed

lemma covers_successor:
  assumes can: "canonical a m k" "0 < a" "0 \<le> m"
  shows "covers a ((m + 1) * 2 ^ k)"
proof (cases "m + 1 = 2 ^ 53")
  case True
  then have "m = 2 ^ 53 - 1" by simp
  then show ?thesis
    using covers_binade [of a k "2 ^ 53 * 2 ^ k"] can by (simp add: canonical_def)
next
  case False
  then show ?thesis
    using covers_exact [of a m k "(m + 1) * 2 ^ k" "m + 1" k] can by (simp add: canonical_def)
qed

text \<open>Two units above the leading term, or three, there is a representable number.\<close>

lemma next_representable:
  fixes m :: int
  assumes "0 \<le> m" "m < 2 ^ 53"
  obtains r where "representable (r * 2 ^ k)" "m + 1 < r" "r \<le> m + 3"
proof (cases "m + 2 \<le> 2 ^ 53")
  case True
  then have "representable ((m + 2) * 2 ^ k)"
    using assms(1) by (intro representable_scaled) simp
  then show ?thesis by (rule that) auto
next
  case False
  then have "m + 3 = (2 ^ 52 + 1) * 2"
    using assms(2) by simp
  then have "representable ((m + 3) * 2 ^ k)"
    using representable_scaled [of "2 ^ 52 + 1" "Suc k"] by (simp add: mult.assoc)
  then show ?thesis by (rule that) auto
qed

lemma above_three_units:
  assumes "0 \<le> m" "m < 2 ^ 53" "u \<le> (m + 1) * 2 ^ k" "above u sh"
  shows "sh \<le> (m + 3) * 2 ^ k"
proof -
  obtain r where r: "representable (r * 2 ^ k)" "m + 1 < r" "r \<le> m + 3"
    using next_representable [OF assms(1,2)] .
  have "(m + 1) * 2 ^ k < r * 2 ^ k" "r * 2 ^ k \<le> (m + 3) * 2 ^ k"
    using r by simp_all
  moreover from this(1) assms(3) have "u < r * 2 ^ k" by linarith
  then have "sh \<le> r * 2 ^ k"
    using assms(4) r(1) unfolding above_def by blast
  ultimately show ?thesis by linarith
qed

lemma covers_unswapped:
  assumes "representable a" "representable t" "\<bar>t\<bar> \<le> \<bar>a\<bar>" and c: "representable c" "rn (a + c) = a"
    and sh: "above (rn (t + c)) sh"
  shows "covers a (bumped t c sh)"
proof (cases "\<bar>bumped t c sh\<bar> \<le> \<bar>a\<bar>")
  case True
  have "representable (bumped t c sh)"
    using sh assms(2) by (simp add: bumped_def min_def above_def)
  then show ?thesis
    using covers_smaller assms(1) True by simp
next
  case False
  let ?u = "rn (t + c)"
  obtain m k where can: "canonical \<bar>a\<bar> m k" "0 \<le> m"
    using canonical_abs [OF assms(1)] .
  have m: "m < 2 ^ 53" and A: "\<bar>a\<bar> = m * 2 ^ k"
    using can by (simp_all add: canonical_def)
  note small = absorbed_within_unit [OF can(1) c(2)]
  have cpos: "0 < c" and b: "bumped t c sh = sh" and big: "\<bar>a\<bar> < sh"
    using False above_lower [OF can assms(3) small sh] assms(3) by (auto simp: bumped_def split: if_splits)
  have rep: "representable sh"
    using sh by (simp add: above_def)
  note gap = canonical_gap [OF can rep big]
  have a0: "a \<noteq> 0"
    using c cpos rn_exact [OF c(1)] by auto
  show ?thesis
  proof (cases "0 < a")
    case True
    have "?u \<le> a"
      using rn_mono [of "t + c" "a + c"] c(2) True assms(3) by simp
    moreover have "a < (m + 1) * 2 ^ k"
      using A True by (simp add: distrib_right)
    ultimately have "sh \<le> (m + 1) * 2 ^ k"
      using sh successor_representable [OF can] unfolding above_def by (meson order_le_less_trans)
    then have "sh = (m + 1) * 2 ^ k"
      using gap(1) by simp
    then show ?thesis
      using covers_successor [of a m k] can True unfolding b by simp
  next
    case neg: False
    then have a: "a = - (m * 2 ^ k)"
      using A by simp
    obtain q where "sh = 2 ^ k * q"
      using gap(2) by (rule dvdE)
    then have q: "sh = q * 2 ^ k" by simp
    then have "q \<le> m + 3" "m + 1 \<le> q"
      using gap(1) above_three_units [OF can(2) m rounded_up_to_successor(1) [OF can assms(3) small] sh]
      by simp_all
    then have "representable ((q - m) * 2 ^ k)"
      by (intro representable_scaled) simp
    moreover have "a + sh = (q - m) * 2 ^ k"
      unfolding a q by (simp add: algebra_simps)
    ultimately show ?thesis
      unfolding b using covers_representable_sum rep by simp
  qed
qed

end
