(* ===== verification/Csm_Sum.thy ===== *)
theory Csm_Sum
  imports Rounding
begin

text \<open>
  One-sided compensated summation (\<open>sum_update_up\<close>, \<open>sum_update_finish\<close> and \<open>sum_up\<close>,
  \<open>t/csm.py\<close>). An accumulator is an unevaluated sum of two doubles, the second one absorbed
  by rounding the sum of both. Each update keeps that form and covers the exact sum; after
  an overflow both parts are infinite or NaN and the final assertion fails, so whatever
  \<open>sum_up\<close> returns is an upper bound.
\<close>

definition f_zero :: f64 where "f_zero = 0"
definition f_one :: f64 where "f_one = literal 1 1"
definition f_half :: f64 where "f_half = literal 1 2"
definition f_two :: f64 where "f_two = literal 2 1"

definition sum_update_up :: "platform \<Rightarrow> f64 \<times> f64 \<Rightarrow> f64 \<Rightarrow> (f64 \<times> f64) result" where
  "sum_update_up pf accumulator term0 =
     (let (acc0, compensation) = accumulator;
          swap = flt (fabs acc0) (fabs term0);
          acc = (if swap then term0 else acc0);
          term1 = (if swap then acc0 else term0)
      in bind_result (next_float (fadd pf term1 compensation) 1) (\<lambda>shifted.
         let term2 = (if fle compensation f_zero then fmin term1 shifted else shifted);
             a = acc; b = term2;
             x = fadd pf a b;
             b_virtual = fsub pf x a;
             y = fsub pf b b_virtual
         in Inr (x, y)))"

definition sum_update_finish :: "platform \<Rightarrow> f64 \<times> f64 \<Rightarrow> (f64 \<times> f64) result" where
  "sum_update_finish pf accumulator =
     (let (acc, compensation) = accumulator
      in bind_result
        (if flt f_zero compensation then next_float (fadd pf acc compensation) 1
         else bind_result (next_float (fadd pf acc compensation) 1) (\<lambda>n. Inr (fmin acc n)))
        (\<lambda>bound.
          let delta = fsub pf bound acc
          in py_assert (fle compensation delta) (Inr (bound, fsub pf compensation delta))))"

fun sum_up_loop :: "platform \<Rightarrow> f64 \<times> f64 \<Rightarrow> f64 list \<Rightarrow> (f64 \<times> f64) result" where
  "sum_up_loop pf accumulator [] = Inr accumulator"
| "sum_up_loop pf accumulator (value # values) =
     bind_result (sum_update_up pf accumulator value) (\<lambda>accumulator'.
       sum_up_loop pf accumulator' values)"

definition sum_up :: "platform \<Rightarrow> f64 list \<Rightarrow> f64 result" where
  "sum_up pf values =
     bind_result (sum_up_loop pf (f_zero, f_zero) values) (\<lambda>accumulator.
     bind_result (sum_update_finish pf accumulator) (\<lambda>(bound, rest). Inr bound))"

subsection \<open>The constants\<close>

lemma power_position:
  assumes "k \<le> 2045"
  shows "int k * 2 ^ 52 + 2 ^ 52 < inf_mag"
proof -
  have "(int k + 1) * 2 ^ 52 \<le> (2046::int) * 2 ^ 52"
    using assms by (intro mult_right_mono) auto
  then show ?thesis
    by (simp add: inf_mag_def algebra_simps)
qed

lemma unit_scale_powers: "unit_scale = 2 ^ (52 + 1022)" "unit_scale = 2 * 2 ^ (52 + 1021)"
  "2 * unit_scale = 2 ^ (52 + 1023)"
  by (simp_all add: unit_scale_def)

lemma f_constants:
  "\<not> negative f_one" "is_finite f_one" "sval f_one = unit_scale"
  "\<not> negative f_half" "is_finite f_half" "2 * sval f_half = unit_scale"
  "\<not> negative f_two" "is_finite f_two" "sval f_two = 2 * unit_scale"
  using literal_exact(2-4) [of 1 1 "int 1022 * 2 ^ 52 + 2 ^ 52"]
    literal_exact(2-4) [of 1 2 "int 1021 * 2 ^ 52 + 2 ^ 52"]
    literal_exact(2-4) [of 2 1 "int 1023 * 2 ^ 52 + 2 ^ 52"]
    power_position [of 1022] power_position [of 1021] power_position [of 1023]
  unfolding mag_val_power unit_scale_powers(1) [symmetric] unit_scale_powers(2,3) [symmetric]
    f_one_def f_half_def f_two_def
  by auto

subsection \<open>From doubles to exact values\<close>

lemma representable_sval: "representable (sval x)"
  unfolding representable_def abs_sval using magnitude_range(1) by blast

lemma is_finite_sval: "is_finite x \<longleftrightarrow> \<bar>sval x\<bar> < mag_val inf_mag"
  using inf_mag_less magnitude_range(1) [of x]
  by (simp add: abs_sval is_finite_def mag_val_less_iff)

lemma order_key_sval: "order_key x < order_key y \<longleftrightarrow> sval x < sval y"
proof -
  have pos: "0 < mag_val (magnitude z)" if "magnitude z \<noteq> 0" for z
    using that magnitude_range(1) [of z] mag_val_mono_strict [of 0 "magnitude z"] by simp
  have "mag_val (magnitude x) < mag_val (magnitude y) \<longleftrightarrow> magnitude x < magnitude y"
    "mag_val (magnitude y) < mag_val (magnitude x) \<longleftrightarrow> magnitude y < magnitude x"
    by (simp_all add: mag_val_less_iff magnitude_range)
  then show ?thesis
    using pos [of x] pos [of y] magnitude_range(1) [of x] magnitude_range(1) [of y]
      mag_val_nonneg [of "magnitude x"] mag_val_nonneg [of "magnitude y"]
    by (cases "magnitude x = 0"; cases "magnitude y = 0") (auto simp: order_key_def sval_def)
qed

lemma flt_sval: "\<lbrakk>\<not> is_nan x; \<not> is_nan y\<rbrakk> \<Longrightarrow> flt x y \<longleftrightarrow> sval x < sval y"
  by (simp add: flt_def order_key_sval)

lemma fle_sval: "\<lbrakk>\<not> is_nan x; \<not> is_nan y\<rbrakk> \<Longrightarrow> fle x y \<longleftrightarrow> sval x \<le> sval y"
  using order_key_sval [of y x] by (auto simp: fle_def)

lemma sval_fabs: "sval (fabs x) = \<bar>sval x\<bar>"
  by (simp add: abs_sval) (simp add: sval_def)

lemma fabs_special [simp]: "is_nan (fabs x) = is_nan x" "is_finite (fabs x) = is_finite x"
  by (simp_all add: is_nan_def is_finite_def)

lemma f_zero_parts [simp]: "magnitude f_zero = 0" "\<not> negative f_zero"
  by (simp_all add: f_zero_def magnitude_def negative_def sign_mask_def)

lemma f_zero_value [simp]: "sval f_zero = 0" "is_finite f_zero" "\<not> is_nan f_zero"
  using inf_mag_less by (simp_all add: sval_def is_finite_def is_nan_def)

text \<open>An addition of finite doubles rounds the exact sum, or overflows.\<close>

lemma make_round_value:
  assumes "if neg then s \<le> 0 else 0 \<le> s"
  defines "z \<equiv> make_f64 neg (round_mag \<bar>s\<bar> 1)"
  shows "\<not> is_nan z" and "is_finite z \<longleftrightarrow> \<bar>rn s\<bar> < mag_val inf_mag"
    and "\<bar>rn s\<bar> \<le> mag_val inf_mag \<Longrightarrow> sval z = rn s"
proof -
  let ?r = "round_raw \<bar>s\<bar> 1"
  have r0: "0 \<le> ?r"
    by (simp add: round_raw_nonneg)
  have mag: "magnitude z = min inf_mag ?r" and neg: "negative z = neg"
    using round_mag_range [of "\<bar>s\<bar>" 1] inf_mag_less
    by (simp_all add: z_def round_mag_raw)
  have abs: "\<bar>rn s\<bar> = mag_val ?r"
    using mag_val_nonneg [OF r0] by (cases "s = 0") (simp_all add: rn_def abs_mult round_raw_0)
  show "\<not> is_nan z"
    by (simp add: is_nan_def mag)
  show "is_finite z \<longleftrightarrow> \<bar>rn s\<bar> < mag_val inf_mag"
    unfolding abs is_finite_def mag using r0 inf_mag_less by (auto simp: mag_val_less_iff)
  assume "\<bar>rn s\<bar> \<le> mag_val inf_mag"
  then have "?r \<le> inf_mag"
    unfolding abs using r0 inf_mag_less by (simp add: mag_val_le_iff)
  then have "sval z = (if neg then - mag_val ?r else mag_val ?r)"
    by (simp add: sval_def mag neg)
  also have "\<dots> = rn s"
    using assms(1) by (cases "s = 0") (auto simp: rn_def round_raw_0 sgn_if)
  finally show "sval z = rn s" .
qed

lemma fadd_finite:
  assumes "is_finite x" "is_finite y"
  shows "\<not> is_nan (fadd pf x y)"
    and "is_finite (fadd pf x y) \<longleftrightarrow> \<bar>rn (sval x + sval y)\<bar> < mag_val inf_mag"
    and "\<bar>rn (sval x + sval y)\<bar> \<le> mag_val inf_mag \<Longrightarrow> sval (fadd pf x y) = rn (sval x + sval y)"
proof -
  let ?s = "sval x + sval y"
  let ?neg = "?s < 0 \<or> ?s = 0 \<and> negative x \<and> negative y"
  have eq: "fadd pf x y = make_f64 ?neg (round_mag \<bar>?s\<bar> 1)"
    using assms finite_not_special by (simp add: fadd_def add_core_def Let_def)
  have "if ?neg then ?s \<le> 0 else 0 \<le> ?s" by auto
  from make_round_value [OF this] show "\<not> is_nan (fadd pf x y)"
    and "is_finite (fadd pf x y) \<longleftrightarrow> \<bar>rn ?s\<bar> < mag_val inf_mag"
    and "\<bar>rn ?s\<bar> \<le> mag_val inf_mag \<Longrightarrow> sval (fadd pf x y) = rn ?s"
    unfolding eq by blast+
qed

lemma fneg_special [simp]:
  "is_nan (fneg x) = is_nan x" "is_inf (fneg x) = is_inf x" "is_finite (fneg x) = is_finite x"
  by (simp_all add: is_nan_def is_inf_def is_finite_def)

lemma fsub_finite:
  assumes "is_finite x" "is_finite y"
  shows "\<not> is_nan (fsub pf x y)"
    and "is_finite (fsub pf x y) \<longleftrightarrow> \<bar>rn (sval x - sval y)\<bar> < mag_val inf_mag"
    and "\<bar>rn (sval x - sval y)\<bar> \<le> mag_val inf_mag \<Longrightarrow> sval (fsub pf x y) = rn (sval x - sval y)"
proof -
  have y: "is_finite (fneg y)" using assms(2) by simp
  have eq: "fsub pf x y = fadd pf x (fneg y)"
    using assms finite_not_special by (simp add: fadd_def fsub_def add_core_def Let_def)
  show "\<not> is_nan (fsub pf x y)"
    and "is_finite (fsub pf x y) \<longleftrightarrow> \<bar>rn (sval x - sval y)\<bar> < mag_val inf_mag"
    and "\<bar>rn (sval x - sval y)\<bar> \<le> mag_val inf_mag \<Longrightarrow> sval (fsub pf x y) = rn (sval x - sval y)"
    using fadd_finite [OF assms(1) y, of pf] unfolding eq by simp_all
qed

text \<open>
  The documented NaNs: an invalid operation gives a quiet one. Infinities and NaNs never
  become finite again.
\<close>

definition quiet_nans :: "platform \<Rightarrow> bool" where
  "quiet_nans pf \<longleftrightarrow> (\<forall>x y. inf_mag + 2 ^ 51 \<le> magnitude (nan_of pf x y))"

lemma quiet_is_nan: "inf_mag + 2 ^ 51 \<le> magnitude x \<Longrightarrow> is_nan x"
  by (simp add: is_nan_def)

lemma not_finite_cases: "\<not> is_finite x \<longleftrightarrow> is_nan x \<or> is_inf x"
  by (auto simp: is_finite_def is_nan_def is_inf_def)

lemma nan_not_finite: "is_nan x \<Longrightarrow> \<not> is_finite x"
  by (simp add: not_finite_cases)

lemma quiet_not_finite: "quiet_nans pf \<Longrightarrow> \<not> is_finite (nan_of pf x y)"
  unfolding quiet_nans_def using quiet_is_nan nan_not_finite by blast

lemma sum_not_finite:
  assumes "quiet_nans pf" "\<not> is_finite x \<or> \<not> is_finite y"
  shows "\<not> is_finite (fadd pf x y)" and "\<not> is_finite (fsub pf x y)"
  using assms quiet_not_finite [OF assms(1)]
  by (auto simp: fadd_def fsub_def add_core_def Let_def not_finite_cases)

subsection \<open>Stepping up\<close>

lemma position_of_representable:
  assumes "representable v"
  obtains i where "position_val i = v"
proof -
  obtain b where b: "0 \<le> b" "\<bar>v\<bar> = mag_val b"
    using assms by (auto simp: representable_def)
  show ?thesis
  proof (cases "0 \<le> v")
    case True
    then show ?thesis
      using that [of b] b by (simp add: position_val_def)
  next
    case False
    then show ?thesis
      using that [of "- 1 - b"] b by (simp add: position_val_def)
  qed
qed

lemma position_val_strict: "position_val i < position_val (i + 1) \<or> i = - 1"
proof -
  have "- 1 - (i + 1) = - 2 - i" by simp
  then show ?thesis
    using mag_val_mono_strict [of i "i + 1"] mag_val_mono_strict [of "- 2 - i" "- 1 - i"]
    unfolding position_val_def by (cases "i = - 1"; cases "0 \<le> i") auto
qed

lemma representable_position: "representable (position_val i)"
  unfolding representable_def position_val_def
  by (rule exI [of _ "if 0 \<le> i then i else - 1 - i"]) (simp add: mag_val_nonneg)

lemma above_position: "above (position_val i) (position_val (i + 1))"
  unfolding above_def
proof (intro conjI allI impI)
  show "position_val i < position_val (i + 1)" if "position_val i \<noteq> 0"
  proof -
    have "position_val (- 1) = 0" by (simp add: position_val_def)
    then show ?thesis
      using that position_val_strict [of i] by auto
  qed
  show "position_val (i + 1) \<le> w" if w: "representable w \<and> position_val i < w" for w
  proof -
    obtain j where j: "position_val j = w"
      using w position_of_representable by blast
    then have "i < j"
      using w position_val_mono [of j i] by (meson not_le)
    then show ?thesis
      using position_val_mono [of "i + 1" j] j by simp
  qed
qed (simp_all add: representable_position position_val_mono)

lemma not_nan_position: "\<not> is_nan x \<longleftrightarrow> - 1 - inf_mag \<le> float_bits x \<and> float_bits x \<le> inf_mag"
  using magnitude_range [of x] inf_mag_less by (auto simp: is_nan_def float_bits_magnitude)

lemma next_not_nan:
  assumes "\<not> is_nan u"
  obtains y where "next_float u 1 = Inr y" "above (sval u) (sval y)"
    "float_bits y = float_bits u + 1"
proof -
  have r: "- sign_mask \<le> float_bits u + 1" "float_bits u + 1 < sign_mask"
    using assms inf_mag_less unfolding not_nan_position inf_mag_def sign_mask_def by auto
  let ?y = "double_at (float_bits u + 1)"
  have b: "float_bits ?y = float_bits u + 1"
    by (rule float_bits_double_at [OF r])
  show ?thesis
  proof (rule that [of ?y])
    show "next_float u 1 = Inr ?y"
      by (rule next_float_at [OF r])
    show "above (sval u) (sval ?y)"
      unfolding sval_position b by (rule above_position)
  qed (rule b)
qed

lemma next_quiet_nan:
  assumes "inf_mag + 2 ^ 51 \<le> magnitude u" "next_float u 1 = Inr y"
  shows "is_nan y"
proof -
  have "float_bits u + 1 < sign_mask"
    using assms(2) float_bits_range [of u]
    by (auto simp: next_float_def bits_float_def sign_mask_def split: if_splits)
  then have "float_bits y = float_bits u + 1"
    using assms(2) float_bits_range(1) [of u] float_bits_of
    unfolding next_float_def by (metis add_increasing2 zero_le_one add.commute)
  then show ?thesis
    using assms(1) not_nan_position [of y] inf_mag_less
    by (auto simp: float_bits_magnitude [of u] split: if_splits)
qed

subsection \<open>Updates\<close>

definition good :: "f64 \<times> f64 \<Rightarrow> bool" where
  "good p \<longleftrightarrow> is_finite (fst p) \<and> is_finite (snd p) \<and> rn (sval (fst p) + sval (snd p)) = sval (fst p)"

definition bad :: "f64 \<times> f64 \<Rightarrow> bool" where
  "bad p \<longleftrightarrow> \<not> is_finite (fst p) \<and> \<not> is_finite (snd p)"

lemma compensated_sum:
  assumes "quiet_nans pf" "is_finite a" "is_finite b" "covers (sval a) (sval b)"
  defines "x \<equiv> fadd pf a b"
  defines "y \<equiv> fsub pf b (fsub pf x a)"
  shows "bad (x, y) \<or> good (x, y) \<and> sval a + sval b \<le> sval x + sval y"
proof (cases "is_finite x")
  case False
  then show ?thesis
    using sum_not_finite [OF assms(1)] unfolding bad_def y_def by auto
next
  case True
  let ?x = "rn (sval a + sval b)"
  let ?d = "rn (?x - sval a)"
  have x: "sval x = ?x"
    using True fadd_finite [OF assms(2,3), of pf] by (simp add: x_def)
  have c: "sval a + sval b \<le> ?x + rn (sval b - ?d)" "rn (?x + rn (sval b - ?d)) = ?x"
    "\<bar>?d\<bar> \<le> max (max \<bar>?x\<bar> \<bar>sval a\<bar>) \<bar>sval b\<bar>" "\<bar>rn (sval b - ?d)\<bar> \<le> \<bar>sval b\<bar>"
    using assms(4) by (simp_all add: covers_def two_sum_def Let_def)
  have fin: "\<bar>?x\<bar> < mag_val inf_mag" "\<bar>sval a\<bar> < mag_val inf_mag" "\<bar>sval b\<bar> < mag_val inf_mag"
    using True assms(2,3) x by (simp_all add: is_finite_sval)
  have "\<bar>?d\<bar> < mag_val inf_mag"
    by (rule order_le_less_trans [OF c(3)]) (use fin in simp)
  then have d: "is_finite (fsub pf x a)" "sval (fsub pf x a) = ?d"
    using fsub_finite [OF True assms(2), of pf] x by simp_all
  have "\<bar>rn (sval b - ?d)\<bar> < mag_val inf_mag"
    using c(4) fin(3) by linarith
  then have y: "is_finite y" "sval y = rn (sval b - ?d)"
    using fsub_finite [OF assms(3) d(1), of pf] unfolding d(2) y_def by auto
  have "good (x, y)"
    unfolding good_def fst_conv snd_conv x y(2) using True y(1) c(2) by blast
  moreover have "sval a + sval b \<le> sval x + sval y"
    unfolding x y(2) by (rule c(1))
  ultimately show ?thesis by blast
qed

lemma absorbed_bound:
  assumes "representable a" "rn (a + c) = a" "\<bar>t\<bar> \<le> \<bar>a\<bar>" "representable h" "\<bar>a\<bar> < h"
  shows "\<bar>t + c\<bar> \<le> h"
proof -
  obtain m k where can: "canonical a m k"
    using representable_canonical [OF assms(1)] .
  then have can': "canonical \<bar>a\<bar> \<bar>m\<bar> k"
    by (auto simp: canonical_def abs_mult)
  then have "(\<bar>m\<bar> + 1) * 2 ^ k \<le> h"
    using canonical_gap(1) [OF can'] assms(4,5) by simp
  moreover have "\<bar>c\<bar> \<le> 2 ^ k"
    using absorbed_small [OF can assms(2)] .
  moreover have "\<bar>a\<bar> = \<bar>m\<bar> * 2 ^ k"
    using can' by (simp add: canonical_def)
  ultimately show ?thesis
    using assms(3) by (simp add: distrib_right)
qed

lemma representable_limit: "representable (mag_val inf_mag)"
  unfolding representable_def using inf_mag_less by (intro exI [of _ inf_mag]) (simp add: mag_val_nonneg)

lemma rn_abs_le: "\<lbrakk>\<bar>v\<bar> \<le> h; representable h\<rbrakk> \<Longrightarrow> \<bar>rn v\<bar> \<le> h"
  using rn_mono [of v h] rn_mono [of "- h" v] rn_exact [of h] rn_neg [of h]
  by (simp add: abs_le_iff)

text \<open>The term that is added to the leading one.\<close>

definition second_term :: "f64 \<Rightarrow> f64 \<Rightarrow> f64 \<Rightarrow> f64" where
  "second_term t c sh = (if fle c f_zero then fmin t sh else sh)"

lemma second_term_value:
  assumes "is_finite t" "is_finite c" "\<bar>rn (sval t + sval c)\<bar> \<le> mag_val inf_mag"
  obtains sh where "next_float (fadd pf t c) 1 = Inr sh" "above (rn (sval t + sval c)) (sval sh)"
    "sval t + sval c \<le> sval sh" "sval (second_term t c sh) = bumped (sval t) (sval c) (sval sh)"
proof -
  let ?u = "fadd pf t c"
  have u: "\<not> is_nan ?u" "sval ?u = rn (sval t + sval c)"
    using fadd_finite [OF assms(1,2)] assms(3) by simp_all
  obtain sh where sh: "next_float ?u 1 = Inr sh" "above (sval ?u) (sval sh)"
    "float_bits sh = float_bits ?u + 1"
    using next_not_nan [OF u(1)] .
  have c: "fle c f_zero \<longleftrightarrow> sval c \<le> 0"
    using fle_sval [of c f_zero] assms(2) nan_not_finite by auto
  have val: "sval (second_term t c sh) = bumped (sval t) (sval c) (sval sh)"
  proof (cases "sval c \<le> 0")
    case True
    have "rn (sval t + sval c) \<le> rn (sval t)"
      using True by (intro rn_mono) simp
    also have "\<dots> = sval t"
      by (intro rn_exact representable_sval)
    finally have le: "sval ?u \<le> sval t" using u by simp
    have "float_bits ?u < inf_mag"
    proof (rule ccontr)
      assume "\<not> float_bits ?u < inf_mag"
      then have "mag_val inf_mag \<le> sval ?u"
        using position_val_mono [of inf_mag "float_bits ?u"] inf_mag_less
        by (simp add: sval_position) (simp add: position_val_def)
      then show False
        using le assms(1) by (simp add: is_finite_sval)
    qed
    then have "\<not> is_nan sh"
      using sh(3) u(1) by (simp add: not_nan_position)
    then have "flt sh t \<longleftrightarrow> sval sh < sval t"
      using assms(1) nan_not_finite by (auto intro!: flt_sval)
    then show ?thesis
      using True c by (auto simp: second_term_def fmin_def bumped_def)
  next
    case False
    then show ?thesis
      using c by (simp add: second_term_def bumped_def)
  qed
  have "sval t + sval c \<le> sval sh"
  proof (rule ccontr)
    assume "\<not> sval t + sval c \<le> sval sh"
    then have "sval sh \<le> rn (sval t + sval c)"
      using rn_mono [of "sval sh" "sval t + sval c"] rn_exact [OF representable_sval, of sh] by simp
    then have "rn (sval t + sval c) = 0" "sval sh = 0"
      using sh(2) u(2) by (auto simp: above_def)
    then have "rn (sval t + sval c) \<le> 0" "0 < sval t + sval c"
      using \<open>\<not> sval t + sval c \<le> sval sh\<close> by simp_all
    moreover have "1 \<le> rn (sval t + sval c)" if "0 < sval t + sval c"
      using rn_mono [of 1 "sval t + sval c"] that rn_exact [OF representable_scaled, of 1 0] by simp
    ultimately show False by simp
  qed
  then show ?thesis
    using that sh u val by simp
qed

lemma sum_update_up_eq:
  assumes "a = (if flt (fabs acc) (fabs v) then v else acc)"
    and "t = (if flt (fabs acc) (fabs v) then acc else v)"
    and "next_float (fadd pf t c) 1 = Inr sh"
  shows "sum_update_up pf (acc, c) v =
    Inr (fadd pf a (second_term t c sh),
         fsub pf (second_term t c sh) (fsub pf (fadd pf a (second_term t c sh)) a))"
  using assms(3) unfolding assms(1,2)
  by (simp add: sum_update_up_def Let_def second_term_def)

lemma update_good:
  assumes q: "quiet_nans pf" and g: "good (acc, c)" and v: "is_finite v"
  shows "\<exists>x y. sum_update_up pf (acc, c) v = Inr (x, y) \<and>
    (bad (x, y) \<or> good (x, y) \<and> sval acc + sval c + sval v \<le> sval x + sval y)"
proof -
  let ?swap = "flt (fabs acc) (fabs v)"
  define a where "a = (if ?swap then v else acc)"
  define t where "t = (if ?swap then acc else v)"
  have fin: "is_finite acc" "is_finite c" "is_finite a" "is_finite t"
    and n: "rn (sval acc + sval c) = sval acc"
    using g v by (simp_all add: good_def a_def t_def)
  have sw: "?swap \<longleftrightarrow> \<bar>sval acc\<bar> < \<bar>sval v\<bar>"
    using fin(1) v nan_not_finite by (subst flt_sval) (auto simp: sval_fabs)
  have small: "\<bar>rn (sval t + sval c)\<bar> \<le> mag_val inf_mag"
  proof (cases ?swap)
    case True
    then show ?thesis
      using n fin(1) by (simp add: t_def is_finite_sval)
  next
    case False
    then have "\<bar>sval t + sval c\<bar> \<le> mag_val inf_mag"
      using absorbed_bound [OF representable_sval n _ representable_limit, of "sval t"]
        sw fin(1) by (simp add: t_def is_finite_sval)
    then show ?thesis
      by (rule rn_abs_le) (rule representable_limit)
  qed
  obtain sh where sh: "next_float (fadd pf t c) 1 = Inr sh"
    "above (rn (sval t + sval c)) (sval sh)" "sval t + sval c \<le> sval sh"
    "sval (second_term t c sh) = bumped (sval t) (sval c) (sval sh)"
    using second_term_value [OF fin(4,2) small] .
  let ?b = "second_term t c sh"
  have eq: "sum_update_up pf (acc, c) v =
      Inr (fadd pf a ?b, fsub pf ?b (fsub pf (fadd pf a ?b) a))"
    by (rule sum_update_up_eq) (simp_all add: a_def t_def sh(1) [unfolded t_def])
  have sum: "sval acc + sval v = sval a + sval t"
    by (simp add: a_def t_def)
  show ?thesis
  proof (cases "is_finite ?b")
    case False
    then have "bad (fadd pf a ?b, fsub pf ?b (fsub pf (fadd pf a ?b) a))"
      using sum_not_finite [OF q] by (simp add: bad_def)
    then show ?thesis using eq by blast
  next
    case True
    have "covers (sval a) (sval ?b)"
    proof (cases ?swap)
      case True
      then show ?thesis
        unfolding sh(4) using n sw sh(2)
        by (intro covers_swapped) (simp_all add: representable_sval a_def t_def)
    next
      case False
      then show ?thesis
        unfolding sh(4) using n sw sh(2)
        by (intro covers_unswapped) (simp_all add: representable_sval a_def t_def)
    qed
    from compensated_sum [OF q fin(3) True this]
    have "bad (fadd pf a ?b, fsub pf ?b (fsub pf (fadd pf a ?b) a)) \<or>
      good (fadd pf a ?b, fsub pf ?b (fsub pf (fadd pf a ?b) a)) \<and>
      sval a + sval ?b \<le> sval (fadd pf a ?b) + sval (fsub pf ?b (fsub pf (fadd pf a ?b) a))" .
    moreover have "sval t + sval c \<le> sval ?b"
      unfolding sh(4) using sh(3) by (rule bumped_upper)
    ultimately show ?thesis
      using eq sum by (intro exI conjI) (assumption, linarith)
  qed
qed

lemma update_bad:
  assumes q: "quiet_nans pf" and b: "bad (acc, c)" and v: "is_finite v"
    and eq: "sum_update_up pf (acc, c) v = Inr p"
  shows "bad p"
proof -
  have "\<not> flt (fabs acc) (fabs v)"
    using b v magnitude_range(1) [of acc]
    by (auto simp: bad_def flt_def order_key_def is_finite_def)
  then obtain z where "p = (fadd pf acc z, fsub pf z (fsub pf (fadd pf acc z) acc))"
    using eq by (auto simp: sum_update_up_def Let_def bind_result_eq_Inr_iff)
  then show ?thesis
    using sum_not_finite [OF q] b by (simp add: bad_def)
qed

subsection \<open>The final bound\<close>

lemma finite_step_up:
  assumes "is_finite u" "next_float u 1 = Inr y"
  shows "\<not> is_nan y" "\<not> (is_inf y \<and> negative y)"
proof -
  have b: "float_bits y = float_bits u + 1"
    using assms finite_next(1) [OF assms(1)] float_bits_finite_step(1) [OF assms(1)] by auto
  have r: "- 1 - inf_mag < float_bits u" "float_bits u < inf_mag"
    using assms(1) by (simp_all add: is_finite_position)
  show "\<not> is_nan y"
    using r b by (simp add: not_nan_position)
  show "\<not> (is_inf y \<and> negative y)"
    using r b by (auto simp: is_inf_def float_bits_magnitude [of y])
qed

lemma fle_infinity: "\<lbrakk>is_finite c; is_inf y; \<not> negative y\<rbrakk> \<Longrightarrow> fle c y"
  using magnitude_range(1) [of c]
  by (auto simp: fle_def order_key_def is_finite_def is_inf_def is_nan_def)

text \<open>The difference to the next double covers the compensation.\<close>

lemma finish_delta:
  assumes "is_finite acc" "is_finite c" "sval acc + sval c \<le> sval bound" "above (sval acc) (sval bound)"
    and b: "\<not> is_nan bound" "\<not> (is_inf bound \<and> negative bound)"
  shows "fle c (fsub pf bound acc)"
proof (cases "is_finite bound")
  case True
  let ?d = "rn (sval bound - sval acc)"
  have lim: "\<bar>sval acc\<bar> < mag_val inf_mag" "\<bar>sval bound\<bar> < mag_val inf_mag"
    using assms(1) True by (simp_all add: is_finite_sval)
  have "sval c = rn (sval c)"
    by (simp add: rn_exact representable_sval)
  also have "\<dots> \<le> ?d"
    using assms(3) by (intro rn_mono) simp
  finally have le: "sval c \<le> ?d" .
  have "sval acc \<le> sval bound" and "sval acc < 0 \<Longrightarrow> sval bound \<le> 0"
    using assms(4) representable_scaled [of 0 0] by (auto simp: above_def)
  then have "\<bar>sval bound - sval acc\<bar> \<le> mag_val inf_mag"
    using lim by linarith
  then have d: "\<bar>?d\<bar> \<le> mag_val inf_mag"
    using rn_abs_le representable_limit by blast
  show ?thesis
    using fsub_finite [OF True assms(1), of pf] d le assms(2) nan_not_finite
    by (subst fle_sval) auto
next
  case False
  then have "is_inf bound" "\<not> negative bound"
    using b not_finite_cases by auto
  moreover from this have "fsub pf bound acc = bound"
    using assms(1) finite_not_special b(1) by (simp add: fsub_def add_core_def)
  ultimately show ?thesis
    using fle_infinity assms(2) by simp
qed

lemma finish_good:
  assumes g: "good (acc, c)"
  obtains bound rest where "sum_update_finish pf (acc, c) = Inr (bound, rest)"
    "sval acc + sval c \<le> sval bound" "\<not> is_nan bound" "\<not> (is_inf bound \<and> negative bound)"
proof -
  have fin: "is_finite acc" "is_finite c" and n: "rn (sval acc + sval c) = sval acc"
    using g by (simp_all add: good_def)
  have lim: "\<bar>sval acc\<bar> < mag_val inf_mag"
    using fin(1) by (simp add: is_finite_sval)
  then have u: "is_finite (fadd pf acc c)"
    using fadd_finite(2) [OF fin] n by simp
  obtain sh where sh: "next_float (fadd pf acc c) 1 = Inr sh" "above (sval acc) (sval sh)"
    "sval acc + sval c \<le> sval sh"
    using second_term_value [OF fin] n lim by (metis less_imp_le)
  note step = finite_step_up [OF u sh(1)]
  have acc: "\<not> is_nan acc" "\<not> (is_inf acc \<and> negative acc)"
    using fin(1) by (auto dest: finite_not_special)
  have cond: "flt f_zero c \<longleftrightarrow> 0 < sval c"
    using flt_sval [of f_zero c] fin(2) nan_not_finite by auto
  have fmin: "fmin acc sh = acc"
    using sh(2) step(1) acc(1) by (auto simp: fmin_def flt_sval above_def)
  show ?thesis
  proof (cases "0 < sval c")
    case True
    have "sum_update_finish pf (acc, c) = Inr (sh, fsub pf c (fsub pf sh acc))"
      using True cond sh(1) finish_delta [OF fin sh(3,2) step]
      by (simp add: sum_update_finish_def Let_def)
    then show ?thesis
      using that sh(3) step by blast
  next
    case False
    have "is_finite (fsub pf acc acc)" "sval (fsub pf acc acc) = 0"
      using fsub_finite [OF fin(1) fin(1), of pf] inf_mag_less mag_val_nonneg [of inf_mag] lim by simp_all
    then have "fle c (fsub pf acc acc)"
      using False fin(2) nan_not_finite by (subst fle_sval) auto
    then have "sum_update_finish pf (acc, c) = Inr (acc, fsub pf c (fsub pf acc acc))"
      using False cond sh(1) fmin by (simp add: sum_update_finish_def Let_def)
    then show ?thesis
      using that False acc by (metis add_le_same_cancel1 not_less)
  qed
qed

text \<open>After an overflow the difference is a NaN and the assertion fails.\<close>

lemma fadd_nan: "quiet_nans pf \<Longrightarrow> is_nan x \<or> is_nan y \<Longrightarrow> inf_mag + 2 ^ 51 \<le> magnitude (fadd pf x y)"
  by (auto simp: fadd_def add_core_def quiet_nans_def)

lemma fsub_nan: "quiet_nans pf \<Longrightarrow> is_nan x \<or> is_nan y \<Longrightarrow> is_nan (fsub pf x y)"
  by (auto simp: fsub_def add_core_def quiet_nans_def intro: quiet_is_nan)

lemma fsub_same_inf: "quiet_nans pf \<Longrightarrow> is_inf x \<Longrightarrow> is_nan (fsub pf x x)"
  by (auto simp: fsub_def add_core_def quiet_nans_def intro: quiet_is_nan)

lemma fle_nan [simp]: "is_nan y \<Longrightarrow> \<not> fle x y" "is_nan x \<Longrightarrow> \<not> fle x y"
  by (simp_all add: fle_def)

lemma fmin_nan: "is_nan y \<Longrightarrow> fmin x y = x"
  by (simp add: fmin_def flt_def)

lemma finish_bad:
  assumes q: "quiet_nans pf" and b: "bad (acc, c)"
  shows "sum_update_finish pf (acc, c) \<noteq> Inr r"
proof
  assume eq: "sum_update_finish pf (acc, c) = Inr r"
  then obtain bound n where n: "next_float (fadd pf acc c) 1 = Inr n"
    and bound: "bound = (if flt f_zero c then n else fmin acc n)"
    and le: "fle c (fsub pf bound acc)"
    by (auto simp: sum_update_finish_def Let_def bind_result_eq_Inr_iff py_assert_def split: if_splits)
  have acc: "is_inf acc" and c: "is_inf c"
  proof -
    show "is_inf acc"
      using b le fsub_nan [OF q, of bound acc] by (auto simp: bad_def not_finite_cases)
    show "is_inf c"
      using b le by (auto simp: bad_def not_finite_cases)
  qed
  have "bound = acc \<or> is_nan bound"
  proof (cases "negative acc = negative c")
    case False
    then have "inf_mag + 2 ^ 51 \<le> magnitude (fadd pf acc c)"
      using acc c q by (simp add: fadd_def add_core_def quiet_nans_def)
    then have "is_nan n"
      using n by (rule next_quiet_nan)
    then show ?thesis
      by (simp add: bound fmin_nan)
  next
    case True
    then have "fadd pf acc c = acc"
      using acc c by (simp add: fadd_def add_core_def is_inf_def is_nan_def)
    then have next_acc: "next_float acc 1 = Inr n" using n by simp
    have nn: "\<not> is_nan acc" using acc by (simp add: is_inf_def is_nan_def)
    obtain y where y: "next_float acc 1 = Inr y" "above (sval acc) (sval y)"
      "float_bits y = float_bits acc + 1"
      using next_not_nan [OF nn] .
    have "y = n" using y(1) next_acc by simp
    show ?thesis
    proof (cases "negative acc")
      case True
      then have "\<not> flt f_zero c"
        using \<open>negative acc = negative c\<close> c inf_mag_less
        by (simp add: flt_def order_key_def is_inf_def)
      moreover have "\<not> flt n acc"
        using y(2) \<open>y = n\<close> nn by (auto simp: flt_def order_key_sval above_def)
      ultimately show ?thesis
        by (simp add: bound fmin_def)
    next
      case False
      then have "is_nan n"
        using y(3) \<open>y = n\<close> acc by (simp add: is_inf_def float_bits_magnitude [of acc])
          (metis float_bits_magnitude is_nan_def add_strict_increasing2 less_add_one not_nan_position not_le)
      moreover have "flt f_zero c"
        using False \<open>negative acc = negative c\<close> c inf_mag_less
        by (simp add: flt_def order_key_def is_inf_def is_nan_def)
      ultimately show ?thesis
        by (simp add: bound)
    qed
  qed
  then have "is_nan (fsub pf bound acc)"
    using fsub_nan [OF q] fsub_same_inf [OF q acc] by auto
  then show False
    using le by simp
qed

text \<open>The loop, from a sound accumulator or a broken one.\<close>

lemma sum_up_loop_good:
  assumes q: "quiet_nans pf"
  shows "\<lbrakk>good (acc, c) \<or> bad (acc, c); \<forall>v \<in> set vs. is_finite v;
      sum_up_loop pf (acc, c) vs = Inr (x, y)\<rbrakk> \<Longrightarrow>
    bad (x, y) \<or> good (acc, c) \<and> good (x, y) \<and>
      sval acc + sval c + sum_list (map sval vs) \<le> sval x + sval y"
proof (induction vs arbitrary: acc c)
  case (Cons v vs)
  obtain x1 y1 where u: "sum_update_up pf (acc, c) v = Inr (x1, y1)"
    "sum_up_loop pf (x1, y1) vs = Inr (x, y)"
    using Cons.prems(3) by (auto simp: bind_result_eq_Inr_iff)
  have v: "is_finite v" and vs: "\<forall>v \<in> set vs. is_finite v"
    using Cons.prems(2) by simp_all
  show ?case
  proof (cases "bad (acc, c)")
    case True
    then have "bad (x1, y1)"
      using update_bad [OF q _ v u(1)] by simp
    moreover have "\<not> good (x1, y1)"
      using \<open>bad (x1, y1)\<close> by (simp add: good_def bad_def)
    ultimately show ?thesis
      using Cons.IH [OF _ vs u(2)] by blast
  next
    case False
    then have g: "good (acc, c)" using Cons.prems(1) by simp
    have "bad (x1, y1) \<or> good (x1, y1) \<and> sval acc + sval c + sval v \<le> sval x1 + sval y1"
      using update_good [OF q g v] u(1) by auto
    moreover have "good (x1, y1) \<or> bad (x1, y1)"
      using calculation by blast
    note IH = Cons.IH [OF this vs u(2)]
    have "\<not> (good (x1, y1) \<and> bad (x1, y1))"
      by (auto simp: good_def bad_def)
    with calculation IH g show ?thesis
      by (auto simp: algebra_simps)
  qed
qed auto

lemma good_zero: "good (f_zero, f_zero)"
  by (simp add: good_def)

lemma sum_up_bound:
  assumes "quiet_nans pf" "\<forall>v \<in> set values. is_finite v" "sum_up pf values = Inr r"
  shows "sum_list (map sval values) \<le> sval r" and "\<not> is_nan r" and "\<not> (is_inf r \<and> negative r)"
proof -
  obtain x y rest where l: "sum_up_loop pf (f_zero, f_zero) values = Inr (x, y)"
    and f: "sum_update_finish pf (x, y) = Inr (r, rest)"
    using assms(3) by (auto simp: sum_up_def bind_result_eq_Inr_iff)
  have "\<not> bad (x, y)"
    using finish_bad [OF assms(1)] f by blast
  then have g: "good (x, y)" and s: "sum_list (map sval values) \<le> sval x + sval y"
    using sum_up_loop_good [OF assms(1) _ assms(2) l] good_zero by auto
  show "sum_list (map sval values) \<le> sval r" and "\<not> is_nan r" and "\<not> (is_inf r \<and> negative r)"
    using finish_good [OF g, of pf] f s by (metis Inr_inject Pair_inject order_trans)+
qed

end
