(* ===== verification/Csm.thy ===== *)
theory Csm
  imports Csm_Sum
begin

text \<open>
  The confidence sequence test (\<open>robbins_log_choose\<close> and \<open>csm\<close>, \<open>t/csm.py\<close>). Python
  converts the integer operand of a mixed expression to a float; the conversion is written
  out where the code relies on it.
\<close>

text \<open>\<open>i + x\<close>, \<open>i * x\<close> and \<open>x / i\<close> for an integer \<open>i\<close> and a float \<open>x\<close>.\<close>

definition int_plus :: "platform \<Rightarrow> int \<Rightarrow> f64 \<Rightarrow> f64 result" where
  "int_plus pf i x = bind_result (of_int_f64 i) (\<lambda>v. Inr (fadd pf v x))"

definition int_times :: "platform \<Rightarrow> int \<Rightarrow> f64 \<Rightarrow> f64 result" where
  "int_times pf i x = bind_result (of_int_f64 i) (\<lambda>v. Inr (fmul pf v x))"

definition div_int :: "platform \<Rightarrow> f64 \<Rightarrow> int \<Rightarrow> f64 result" where
  "div_int pf x i = bind_result (of_int_f64 i) (\<lambda>v. fdiv pf x v)"

definition log_up_int :: "platform \<Rightarrow> int \<Rightarrow> f64 result" where
  "log_up_int pf n = (if n \<le> 0 then Inl ValueError else bind_result (of_int_f64 n) (log_up pf))"

definition log_down_int :: "platform \<Rightarrow> int \<Rightarrow> f64 result" where
  "log_down_int pf n = (if n \<le> 0 then Inl ValueError else bind_result (of_int_f64 n) (log_down pf))"

definition MINUS_LOG_SQRT_2PI :: f64 where
  "MINUS_LOG_SQRT_2PI = fneg (literal 8277062471433908 (2 ^ 53))"

definition robbins_log_choose :: "platform \<Rightarrow> int \<Rightarrow> int \<Rightarrow> f64 result" where
  "robbins_log_choose pf n s =
     py_assert (0 < n \<and> n < 2 ^ 49)
       (py_assert (0 \<le> s \<and> s \<le> n)
         (if s = 0 \<or> s = n then Inr f_zero
          else if s = 1 \<or> s = n - 1 then log_up_int pf n
          else
            let n_s = n - s in
            bind_result (int_plus pf n f_half) (\<lambda>n_half.
            bind_result (log_up_int pf n) (\<lambda>log_n.
            bind_result (next_float (fmul pf n_half log_n) 1) (\<lambda>l1.
            bind_result (int_plus pf s f_half) (\<lambda>s_half.
            bind_result (log_down_int pf s) (\<lambda>log_s.
            bind_result (next_float (fmul pf (fneg s_half) log_s) 1) (\<lambda>l2.
            bind_result (int_plus pf n_s f_half) (\<lambda>n_s_half.
            bind_result (log_down_int pf n_s) (\<lambda>log_n_s.
            bind_result (next_float (fmul pf (fneg n_s_half) log_n_s) 1) (\<lambda>l3.
            bind_result (div_int pf f_one (12 * n)) (\<lambda>d1.
            bind_result (next_float d1 1) (\<lambda>r1.
            bind_result (div_int pf (fneg f_one) (12 * s + 1)) (\<lambda>d2.
            bind_result (next_float d2 1) (\<lambda>r2.
            bind_result (div_int pf (fneg f_one) (12 * n_s + 1)) (\<lambda>d3.
            bind_result (next_float d3 1) (\<lambda>r3.
              sum_up pf [MINUS_LOG_SQRT_2PI, l1, l2, l3, r1, r2, r3])))))))))))))))))"

definition csm :: "platform \<Rightarrow> int \<Rightarrow> f64 \<Rightarrow> int \<Rightarrow> f64 \<Rightarrow> (bool \<times> f64) result" where
  "csm pf n alpha s log_eps =
     py_assert (0 < n \<and> n < 2 ^ 49)
       (py_assert (flt f_zero alpha \<and> flt alpha f_one)
         (py_assert (0 \<le> s \<and> s \<le> n)
           (py_assert (flt log_eps f_zero)
             (bind_result (log_up_int pf (n + 1)) (\<lambda>v1.
              bind_result (robbins_log_choose pf n s) (\<lambda>v2.
              bind_result (log_up pf alpha) (\<lambda>log_alpha.
              bind_result (int_times pf s log_alpha) (\<lambda>m3.
              bind_result (next_float m3 1) (\<lambda>v3.
              bind_result (log1p_up pf (fneg alpha)) (\<lambda>log_beta.
              bind_result (int_times pf (n - s) log_beta) (\<lambda>m4.
              bind_result (next_float m4 1) (\<lambda>v4.
              bind_result (sum_up pf [v1, v2, v3, v4]) (\<lambda>log_level.
                Inr (flt log_level log_eps, log_level))))))))))))))"

end
