(* ===== verification/Beta.thy ===== *)
theory Beta
  imports Csm
begin

text \<open>
  Confidence bounds on the rate of a binomial (\<open>_incbeta\<close>, \<open>_beta_icdf_lo\<close> and
  \<open>beta_icdf\<close>, \<open>t/csm.py\<close>): a one-sided series for the regularised incomplete beta
  function that stops on the side of its threshold, and a bisection on it. The bisection is
  a loop that need not end; a run that does not is \<open>None\<close>.
\<close>

definition math_exp :: "platform \<Rightarrow> f64 \<Rightarrow> f64 result" where
  "math_exp pf x = math_1 (libm_exp pf) True x"

text \<open>How an iteration of a loop ends: with the next iteration, or with the function's result.\<close>

datatype ('s, 'r) flow = Continue 's | Return 'r

text \<open>The series: its running product and the summation pair.\<close>

definition incbeta_step ::
    "platform \<Rightarrow> int \<Rightarrow> f64 \<Rightarrow> f64 \<Rightarrow> f64 \<Rightarrow> int \<Rightarrow> f64 \<times> f64 \<times> f64
      \<Rightarrow> (f64 \<times> f64 \<times> f64, f64) flow result" where
  "incbeta_step pf a b_1 x threshold i st =
     (let (product0, acc0, comp0) = st in
      bind_result (div_int pf b_1 (a + i)) (\<lambda>q.
      bind_result (next_float q 1) (\<lambda>ratio.
      bind_result (next_float (fadd pf ratio f_one) 1) (\<lambda>ratio1.
      bind_result (next_float (fmul pf x ratio1) 1) (\<lambda>m.
      let multiplicand = fmin m f_one; old_acc = acc0 in
      bind_result (next_float (fmul pf product0 multiplicand) 1) (\<lambda>product.
      bind_result (sum_update_up pf (acc0, comp0) product) (\<lambda>(acc, comp).
        if flt threshold acc then Inr (Return acc)
        else if \<not> feq acc old_acc \<and> i mod 128 \<noteq> 0 then Inr (Continue (product, acc, comp))
        else
          bind_result (log_up pf multiplicand) (\<lambda>log_m.
          bind_result (log1p_down pf (fneg multiplicand)) (\<lambda>log_1m.
          bind_result (math_exp pf (fsub pf log_m log_1m)) (\<lambda>exp_hi.
          let tail_hi = fmul pf product exp_hi in
          bind_result (log_down pf x) (\<lambda>log_x.
          bind_result (log1p_up pf (fneg x)) (\<lambda>log_1x.
          bind_result (math_exp pf (fsub pf log_x log_1x)) (\<lambda>exp_lo.
          let tail_lo = fmul pf product exp_lo;
              delta = fsub pf (fsub pf threshold acc) comp
          in if flt (fmul pf f_two delta) tail_lo
             then Inr (Return (fmax (fadd pf acc tail_lo) threshold))
             else if flt tail_hi (fmul pf f_half delta) then Inr (Return acc)
             else Inr (Continue (product, acc, comp)))))))))))))))"

fun incbeta_loop ::
    "platform \<Rightarrow> int \<Rightarrow> f64 \<Rightarrow> f64 \<Rightarrow> f64 \<Rightarrow> nat \<Rightarrow> int \<Rightarrow> f64 \<times> f64 \<times> f64
      \<Rightarrow> f64 option result" where
  "incbeta_loop pf a b_1 x threshold 0 i st = Inr None"
| "incbeta_loop pf a b_1 x threshold (Suc left) i st =
     bind_result (incbeta_step pf a b_1 x threshold i st) (\<lambda>fl. case fl of
       Return r \<Rightarrow> Inr (Some r)
     | Continue st' \<Rightarrow> incbeta_loop pf a b_1 x threshold left (i + 1) st')"

definition incbeta ::
    "platform \<Rightarrow> int \<Rightarrow> int \<Rightarrow> f64 \<Rightarrow> f64 \<Rightarrow> int option \<Rightarrow> f64 option result" where
  "incbeta pf a b x threshold limit =
     bind_result (bind_result (int_times pf a f_one) (\<lambda>v. div_int pf v (a + b))) (\<lambda>mean.
     py_assert (flt x mean)
       (let limit' = (case limit of None \<Rightarrow> 10 * (a + b + 1000) | Some l \<Rightarrow> l) in
        bind_result (robbins_log_choose pf (a + b - 1) a) (\<lambda>log_choose.
        bind_result (log_up pf x) (\<lambda>log_x.
        bind_result (int_times pf a log_x) (\<lambda>m1.
        bind_result (next_float m1 1) (\<lambda>v1.
        bind_result (log1p_up pf (fneg x)) (\<lambda>log_1x.
        bind_result (int_times pf b log_1x) (\<lambda>m2.
        bind_result (next_float m2 1) (\<lambda>v2.
        bind_result (sum_up pf [log_choose, v1, v2]) (\<lambda>log_initial.
        bind_result (int_plus pf b (fneg f_one)) (\<lambda>b_1.
        bind_result (math_exp pf log_initial) (\<lambda>e.
        bind_result (next_float e LIBM_ERROR_LIMIT) (\<lambda>product.
          incbeta_loop pf a b_1 x threshold (nat limit') 1 (product, product, f_zero))))))))))))))"

definition BETA_ICDF_EPS :: f64 where "BETA_ICDF_EPS = literal 1 (10 ^ 10)"
definition BETA_ICDF_GOAL :: f64 where "BETA_ICDF_GOAL = literal 1 (10 ^ 3)"

text \<open>One bisection step on the interval \<open>(lo, hi)\<close>; leaving the loop returns the interval.\<close>

definition icdf_wide :: "platform \<Rightarrow> f64 \<Rightarrow> f64 \<Rightarrow> bool" where
  "icdf_wide pf lo hi \<longleftrightarrow>
     flt (fmax BETA_ICDF_EPS (fadd pf lo (fmul pf lo BETA_ICDF_EPS))) hi"

definition icdf_step ::
    "platform \<Rightarrow> int \<Rightarrow> int \<Rightarrow> f64 \<Rightarrow> f64 \<Rightarrow> f64 \<Rightarrow> (f64 \<times> f64, f64 \<times> f64) flow result" where
  "icdf_step pf a b alpha lo hi =
     (let x = fmul pf f_half (fadd pf hi lo);
          close_enough = flt hi (fadd pf lo (fmul pf lo BETA_ICDF_GOAL));
          limit = (if close_enough then Some 1000 else None)
      in bind_result (incbeta pf a b x alpha limit) (\<lambda>px.
           if px = None \<and> close_enough then Inr (Return (lo, hi))
           else if px \<noteq> None \<and> flt (the px) alpha then Inr (Continue (x, hi))
           else Inr (Continue (lo, x))))"

partial_function (option) icdf_loop ::
    "platform \<Rightarrow> int \<Rightarrow> int \<Rightarrow> f64 \<Rightarrow> f64 \<Rightarrow> f64 \<Rightarrow> (f64 \<times> f64) result option" where
  "icdf_loop pf a b alpha lo hi =
     (if \<not> icdf_wide pf lo hi then Some (Inr (lo, hi))
      else case icdf_step pf a b alpha lo hi of
        Inl e \<Rightarrow> Some (Inl e)
      | Inr (Return r) \<Rightarrow> Some (Inr r)
      | Inr (Continue st) \<Rightarrow> icdf_loop pf a b alpha (fst st) (snd st))"

definition beta_icdf_lo :: "platform \<Rightarrow> int \<Rightarrow> int \<Rightarrow> f64 \<Rightarrow> (f64 \<times> f64) result option" where
  "beta_icdf_lo pf a b alpha =
     (if \<not> (0 \<le> a \<and> a < 2 ^ 44) \<or> \<not> (0 \<le> b \<and> b < 2 ^ 44) \<or> \<not> (fle f_zero alpha \<and> flt alpha f_half)
      then Some (Inl AssertionError)
      else case bind_result (int_times pf a f_one) (\<lambda>v. div_int pf v (a + b)) of
        Inl e \<Rightarrow> Some (Inl e)
      | Inr hi \<Rightarrow>
          if fle alpha f_zero then Some (Inr (f_zero, f_zero))
          else icdf_loop pf a b alpha f_zero hi)"

definition beta_icdf :: "platform \<Rightarrow> int \<Rightarrow> int \<Rightarrow> f64 \<Rightarrow> bool \<Rightarrow> (f64 \<times> f64) result option" where
  "beta_icdf pf a b alpha upper =
     (if \<not> (0 < a \<and> a < 2 ^ 44) \<or> \<not> (0 < b \<and> b < 2 ^ 44) \<or> \<not> fle f_zero alpha
      then Some (Inl AssertionError)
      else if fle alpha f_zero then Some (Inr (if upper then (f_one, f_zero) else (f_zero, f_zero)))
      else
        let alpha' = fmin alpha (literal 5 100) in
        if upper then
          (case beta_icdf_lo pf b a alpha' of
             None \<Rightarrow> None
           | Some r \<Rightarrow> Some (bind_result r (\<lambda>(lo, hi).
               bind_result (next_float (fsub pf f_one lo) 1) (\<lambda>u.
               bind_result (next_float (fsub pf hi lo) 1) (\<lambda>d.
                 Inr (fmin u f_one, fmin d f_one))))))
        else
          (case beta_icdf_lo pf a b alpha' of
             None \<Rightarrow> None
           | Some r \<Rightarrow> Some (bind_result r (\<lambda>(lo, hi).
               bind_result (next_float (fsub pf hi lo) 1) (\<lambda>d.
                 Inr (fmax f_zero lo, fmin d f_one))))))"

end
