(* ===== verification/Csm_Driver.thy ===== *)
theory Csm_Driver
  imports Beta
begin

text \<open>
  Sequential tests (\<open>csm_driver\<close> and \<open>csm_power\<close>, \<open>t/csm.py\<close>). The stream of booleans is a
  Python iterator over a state of its own: pulling it ends, raises, or gives an item and
  the next state, and may also not return (\<open>None\<close>). What the driver prints is a list of rows
  of numbers; their formatting is left out.
\<close>

datatype 'g pulled = Exhausted 'g | Failed py_error 'g | Item bool 'g

type_synonym 'g stream = "'g \<Rightarrow> 'g pulled option"

type_synonym row = "int \<times> f64 \<times> f64 \<times> f64 \<times> f64"

record driver_config =
  cfg_alpha :: f64
  cfg_eps :: f64
  cfg_log_eps :: f64
  cfg_max_count :: "int option"
  cfg_min_count :: "int option"
  cfg_bound_eps :: "f64 option"
  cfg_file :: bool

record driver_state =
  trials :: int
  successes :: int
  stop :: bool
  log_level :: f64
  next_print :: int
  print_increment :: int
  printed :: "row list"

definition bind_run :: "'a result option \<Rightarrow> ('a \<Rightarrow> 'b result option) \<Rightarrow> 'b result option" where
  "bind_run r f = (case r of None \<Rightarrow> None | Some (Inl e) \<Rightarrow> Some (Inl e) | Some (Inr x) \<Rightarrow> f x)"

definition driver_bound ::
    "platform \<Rightarrow> driver_config \<Rightarrow> int \<Rightarrow> int \<Rightarrow> bool \<Rightarrow> f64 result option" where
  "driver_bound pf cfg n s upper =
     bind_run (Some (case cfg_bound_eps cfg of
         None \<Rightarrow> fdiv pf (cfg_eps cfg) f_two
       | Some e \<Rightarrow> Inr e)) (\<lambda>e.
     let confidence = fmul pf f_half e in
     bind_run (beta_icdf pf (s + 1) ((n - s) + 1) confidence upper) (\<lambda>(bound, err).
       Some (Inr bound)))"

definition driver_rate :: "platform \<Rightarrow> int \<Rightarrow> int \<Rightarrow> f64 result" where
  "driver_rate pf n s = bind_result (int_times pf s f_one) (\<lambda>v. div_int pf v n)"

definition log_out :: "platform \<Rightarrow> driver_config \<Rightarrow> driver_state \<Rightarrow> driver_state result option" where
  "log_out pf cfg st =
     (let next' = next_print st + print_increment st;
          inc' = (if next' = 10 * print_increment st then print_increment st * 10
                  else print_increment st)
      in bind_run (Some (driver_rate pf (trials st) (successes st))) (\<lambda>rate.
         bind_run (driver_bound pf cfg (trials st) (successes st) False) (\<lambda>lo.
         bind_run (driver_bound pf cfg (trials st) (successes st) True) (\<lambda>hi.
         bind_run (Some (math_1 (libm_log pf) False (literal 10 1))) (\<lambda>log_10.
         bind_run (Some (fdiv pf (fneg (log_level st)) log_10)) (\<lambda>digits.
           Some (Inr (st\<lparr>next_print := next', print_increment := inc',
             printed := printed st @ [(trials st, rate, lo, hi, digits)]\<rparr>))))))))"

text \<open>One iteration; the flag says whether the loop breaks.\<close>

definition driver_step ::
    "platform \<Rightarrow> driver_config \<Rightarrow> driver_state \<Rightarrow> bool \<Rightarrow> (driver_state \<times> bool) result option" where
  "driver_step pf cfg st success =
     (let n = trials st + 1; s = successes st + (if success then 1 else 0)
      in bind_run (Some (csm pf n (cfg_alpha cfg) s (cfg_log_eps cfg))) (\<lambda>(stop', level).
         let st1 = st\<lparr>trials := n, successes := s, stop := stop', log_level := level\<rparr> in
         bind_run (if cfg_file cfg \<and> next_print st1 \<le> n then log_out pf cfg st1 else Some (Inr st1))
           (\<lambda>st2.
             if (case cfg_min_count cfg of None \<Rightarrow> False | Some m \<Rightarrow> n \<le> m) then Some (Inr (st2, False))
             else if stop' then Some (Inr (st2, True))
             else if (case cfg_max_count cfg of None \<Rightarrow> False | Some m \<Rightarrow> m \<le> n)
               then Some (Inr (st2, True))
             else Some (Inr (st2, False)))))"

partial_function (option) driver_loop ::
    "platform \<Rightarrow> driver_config \<Rightarrow> 'g stream \<Rightarrow> driver_state \<Rightarrow> 'g
      \<Rightarrow> (unit result \<times> driver_state \<times> 'g) option" where
  "driver_loop pf cfg pull st g =
     (case pull g of
        None \<Rightarrow> None
      | Some (Exhausted g') \<Rightarrow> Some (Inr (), st, g')
      | Some (Failed e g') \<Rightarrow> Some (Inl e, st, g')
      | Some (Item success g') \<Rightarrow>
          (case driver_step pf cfg st success of
             None \<Rightarrow> None
           | Some (Inl e) \<Rightarrow> Some (Inl e, st, g')
           | Some (Inr (st', brk)) \<Rightarrow>
               if brk then Some (Inr (), st', g') else driver_loop pf cfg pull st' g'))"

definition initial_state :: driver_state where
  "initial_state = \<lparr>trials = 0, successes = 0, stop = False, log_level = f_zero,
     next_print = 0, print_increment = 10, printed = []\<rparr>"

definition driver_result ::
    "platform \<Rightarrow> driver_config \<Rightarrow> driver_state \<Rightarrow> (bool \<times> f64 \<times> f64 \<times> f64) result option" where
  "driver_result pf cfg st =
     bind_run (Some (driver_rate pf (trials st) (successes st))) (\<lambda>rate.
     bind_run (driver_bound pf cfg (trials st) (successes st) False) (\<lambda>lo.
     bind_run (driver_bound pf cfg (trials st) (successes st) True) (\<lambda>hi.
       Some (Inr (stop st, rate, lo, hi)))))"

text \<open>The outcome of a call: what it returns or raises, what it printed, the stream it leaves.\<close>

type_synonym 'g driver_outcome = "(bool \<times> f64 \<times> f64 \<times> f64) result \<times> row list \<times> 'g"

definition csm_driver ::
    "platform \<Rightarrow> 'g stream \<Rightarrow> 'g \<Rightarrow> f64 \<Rightarrow> f64 \<Rightarrow> int option \<Rightarrow> int option \<Rightarrow> f64 option \<Rightarrow> bool
      \<Rightarrow> 'g driver_outcome option" where
  "csm_driver pf pull g alpha eps max_count min_count bound_eps file =
     (if \<not> (flt f_zero alpha \<and> flt alpha f_one) \<or> \<not> (flt f_zero eps \<and> fle eps f_one)
      then Some (Inl AssertionError, [], g)
      else case bind_result (fdiv pf eps f_two) (log_down pf) of
        Inl e \<Rightarrow> Some (Inl e, [], g)
      | Inr log_eps \<Rightarrow>
          let cfg = \<lparr>cfg_alpha = alpha, cfg_eps = eps, cfg_log_eps = log_eps,
                cfg_max_count = max_count, cfg_min_count = min_count,
                cfg_bound_eps = bound_eps, cfg_file = file\<rparr>
          in case driver_loop pf cfg pull initial_state g of
               None \<Rightarrow> None
             | Some (Inl e, st, g') \<Rightarrow> Some (Inl e, printed st, g')
             | Some (Inr u, st, g') \<Rightarrow>
                 (case driver_result pf cfg st of
                    None \<Rightarrow> None
                  | Some r \<Rightarrow> Some (r, printed st, g')))"

text \<open>
  The inner and the outer stream of \<open>csm_power\<close>, over the state of the module \<open>random\<close>:
  \<open>rand\<close> is \<open>random.random\<close>.
\<close>

definition bernoulli :: "('g \<Rightarrow> f64 \<times> 'g) \<Rightarrow> f64 \<Rightarrow> 'g stream" where
  "bernoulli rand p g = (let (u, g') = rand g in Some (Item (flt u p) g'))"

definition success_stream ::
    "platform \<Rightarrow> ('g \<Rightarrow> f64 \<times> 'g) \<Rightarrow> f64 \<Rightarrow> f64 \<Rightarrow> f64 \<Rightarrow> int \<Rightarrow> 'g stream" where
  "success_stream pf rand p alpha eps max_count g =
     (case csm_driver pf (bernoulli rand p) g alpha eps (Some max_count) None None False of
        None \<Rightarrow> None
      | Some (Inl e, out, g') \<Rightarrow> Some (Failed e g')
      | Some (Inr (ok, estimate, lo, hi), out, g') \<Rightarrow>
          Some (Item (if \<not> ok then False
                      else if flt p alpha then flt estimate alpha
                      else flt alpha estimate) g'))"

definition csm_power ::
    "platform \<Rightarrow> ('g \<Rightarrow> f64 \<times> 'g) \<Rightarrow> 'g \<Rightarrow> f64 \<Rightarrow> f64 \<Rightarrow> int \<Rightarrow> f64 \<Rightarrow> f64 \<Rightarrow> bool
      \<Rightarrow> 'g driver_outcome option" where
  "csm_power pf rand g p alpha max_count eps success_rate file =
     csm_driver pf (success_stream pf rand p alpha eps max_count) g success_rate
       (literal 1 (10 ^ 9)) None None None file"

end
