(* ===== verification/Bisection.thy ===== *)
theory Bisection
  imports Beta
begin

text \<open>
  The bisection of \<open>_beta_icdf_lo\<close> (\<open>t/csm.py\<close>) ends. While the interval passes the test of the
  loop there is a double strictly inside it, so the rounded midpoint falls strictly inside as
  well and the interval shrinks. Every left end is zero or has a certificate: the series of
  \<open>_incbeta\<close> stopped below the threshold there.
\<close>

subsection \<open>Rounded results between representable bounds\<close>

lemma rounds_to_value:
  assumes "rounds_to p q z" "0 \<le> p"
  shows "sval z = mag_val (magnitude z)"
proof (cases "negative z")
  case True
  then have "p = 0" "0 < q" "magnitude z = round_mag 0 q"
    using assms by (auto simp: rounds_to_def)
  then have "magnitude z = 0"
    using round_mag_exact [of 0 q] inf_mag_less by simp
  then show ?thesis by (simp add: sval_def)
qed (simp add: sval_def)

lemma rounds_to_ge:
  assumes r: "rounds_to p q z" and w: "representable w" "0 \<le> w" "w \<le> mag_val inf_mag" "q * w \<le> p"
  shows "w \<le> sval z"
proof -
  obtain b where b: "0 \<le> b" "w = mag_val b"
    using w(1,2) by (auto simp: representable_def)
  have q: "0 < q"
    using r by (simp add: rounds_to_def)
  then have p: "0 \<le> p"
    using w(2,4) by (meson mult_nonneg_nonneg order.trans less_imp_le)
  have "round_raw (q * mag_val b) q \<le> round_raw p q"
    using q p w(4) b by (intro round_raw_mono) (auto simp: mag_val_nonneg mult.commute)
  then have "b \<le> round_raw p q"
    by (simp add: round_raw_exact b(1) q)
  moreover have "b \<le> inf_mag"
    using w(3) b inf_mag_less by (simp add: mag_val_le_iff)
  moreover have "magnitude z = round_mag p q"
    using r p by (simp add: rounds_to_def)
  ultimately have "b \<le> magnitude z"
    by (simp add: round_mag_raw)
  then show ?thesis
    using rounds_to_value [OF r p] b by (simp add: mag_val_le_iff magnitude_range)
qed

lemma rounds_to_le:
  assumes r: "rounds_to p q z" and w: "representable w" "0 \<le> p" "p \<le> q * w"
  shows "sval z \<le> w" and "w < mag_val inf_mag \<Longrightarrow> is_finite z"
proof -
  have q: "0 < q"
    using r by (simp add: rounds_to_def)
  have "0 \<le> w"
    using w(2,3) q by (metis order.trans zero_le_mult_iff not_less)
  then obtain b where b: "0 \<le> b" "w = mag_val b"
    using w(1) by (auto simp: representable_def)
  have "round_raw p q \<le> round_raw (q * mag_val b) q"
    using q w b by (intro round_raw_mono) (auto simp: mag_val_nonneg mult.commute)
  then have "round_raw p q \<le> b"
    by (simp add: round_raw_exact b(1) q)
  moreover have "magnitude z = round_mag p q"
    using r w(2) by (simp add: rounds_to_def)
  ultimately have m: "magnitude z \<le> b"
    by (simp add: round_mag_raw)
  show "sval z \<le> w"
    using rounds_to_value [OF r w(2)] b m by (simp add: mag_val_le_iff magnitude_range)
  show "is_finite z" if "w < mag_val inf_mag"
    using that m b inf_mag_less by (simp add: is_finite_def mag_val_less_iff)
qed

lemma representable_power [simp]: "representable (2 ^ k)"
  using representable_scaled [of 1 k] by simp

lemma representable_double: "representable v \<Longrightarrow> representable (2 * v)"
proof -
  assume "representable v"
  then obtain m k where "canonical v m k"
    by (rule representable_canonical)
  then have "2 * v = m * 2 ^ Suc k" "\<bar>m\<bar> \<le> 2 ^ 53"
    by (auto simp: canonical_def)
  then show ?thesis
    using representable_scaled by metis
qed

lemma representable_half:
  assumes "representable v" "2 ^ 53 \<le> v"
  obtains w where "representable w" "v = 2 * w"
proof -
  obtain m k where c: "canonical v m k"
    using representable_canonical [OF assms(1)] .
  then obtain j where "k = Suc j"
    using assms(2) by (cases k) (auto simp: canonical_def)
  then have "v = 2 * (m * 2 ^ j)" "\<bar>m\<bar> \<le> 2 ^ 53"
    using c by (auto simp: canonical_def)
  then show ?thesis
    using that representable_scaled by blast
qed

subsection \<open>The unit interval\<close>

definition in_unit :: "f64 \<Rightarrow> bool" where
  "in_unit x \<longleftrightarrow> is_finite x \<and> 0 \<le> sval x \<and> sval x \<le> unit_scale"

lemma in_unitD: "in_unit x \<Longrightarrow> is_finite x" "in_unit x \<Longrightarrow> \<not> is_nan x" "in_unit x \<Longrightarrow> 0 \<le> sval x"
  "in_unit x \<Longrightarrow> sval x \<le> unit_scale"
  using finite_not_special by (auto simp: in_unit_def)

lemma power_below_inf: "k \<le> 2097 \<Longrightarrow> 2 ^ k < mag_val inf_mag"
proof -
  assume k: "k \<le> 2097"
  have "(2::int) ^ k \<le> 2 ^ (52 + 2045)"
    using k by (intro power_increasing) auto
  also have "\<dots> = mag_val (int 2045 * 2 ^ 52 + 2 ^ 52)"
    by (rule mag_val_power [symmetric])
  also have "\<dots> < mag_val inf_mag"
    using power_position [of 2045] inf_mag_less by (simp add: mag_val_less_iff)
  finally show ?thesis .
qed

lemma unit_representable: "representable unit_scale" "unit_scale < mag_val inf_mag"
  "representable (2 * unit_scale)" "2 * unit_scale < mag_val inf_mag"
proof -
  show "representable unit_scale"
    unfolding unit_scale_powers(1) by (rule representable_power)
  then show "representable (2 * unit_scale)"
    by (rule representable_double)
  show "unit_scale < mag_val inf_mag"
    unfolding unit_scale_powers(1) by (rule power_below_inf) simp
  show "2 * unit_scale < mag_val inf_mag"
    unfolding unit_scale_powers(3) by (rule power_below_inf) simp
qed

lemma in_unit_round:
  assumes "rounds_to p q z" "0 \<le> p" "p \<le> q * unit_scale"
  shows "in_unit z"
  unfolding in_unit_def
  using rounds_to_le [OF assms(1) unit_representable(1) assms(2,3)] unit_representable(2)
    rounds_to_value [OF assms(1,2)] mag_val_nonneg [OF magnitude_range(1)] by simp

lemma rounds_literal: "\<lbrakk>0 \<le> p; 0 < q\<rbrakk> \<Longrightarrow> rounds_to (p * unit_scale) q (literal p q)"
  using rounds_to_make [of q False "p * unit_scale"] unit_scale_pos by (simp add: literal_def)

text \<open>A power of two below the tolerance, and above the doubles that have no lower half.\<close>

definition floor_eps :: int where
  "floor_eps = 2 ^ 1040"

lemma floor_eps: "representable floor_eps" "floor_eps < mag_val inf_mag" "2 ^ 53 \<le> floor_eps"
  "10 ^ 10 * floor_eps \<le> unit_scale" "unit_scale \<le> 2 ^ 52 * floor_eps"
proof -
  show "representable floor_eps"
    unfolding floor_eps_def by (rule representable_power)
  show "floor_eps < mag_val inf_mag"
    unfolding floor_eps_def by (rule power_below_inf) simp
  show "2 ^ 53 \<le> floor_eps"
    unfolding floor_eps_def by (rule power_increasing) simp_all
  have "(10::int) ^ 10 * 2 ^ 1040 \<le> 2 ^ 34 * 2 ^ 1040"
    by (intro mult_right_mono) simp_all
  also have "\<dots> = unit_scale"
    unfolding unit_scale_def power_add [symmetric] by simp
  finally show "10 ^ 10 * floor_eps \<le> unit_scale"
    by (simp add: floor_eps_def)
  show "unit_scale \<le> 2 ^ 52 * floor_eps"
    unfolding unit_scale_def floor_eps_def power_add [symmetric] by (rule power_increasing) simp_all
qed

lemma eps_value: "in_unit BETA_ICDF_EPS" "floor_eps \<le> sval BETA_ICDF_EPS"
proof -
  have r: "rounds_to (1 * unit_scale) (10 ^ 10) BETA_ICDF_EPS"
    unfolding BETA_ICDF_EPS_def by (rule rounds_literal) simp_all
  show "in_unit BETA_ICDF_EPS"
    using unit_scale_pos by (intro in_unit_round [OF r]) simp_all
  have "0 \<le> floor_eps"
    using floor_eps(3) by simp
  then show "floor_eps \<le> sval BETA_ICDF_EPS"
    using floor_eps by (intro rounds_to_ge [OF r]) simp_all
qed

subsection \<open>The midpoint falls inside\<close>

text \<open>Sums of doubles of the unit interval are exact roundings.\<close>

lemma unit_sum:
  assumes "is_finite x" "is_finite y" "0 \<le> sval x + sval y" "sval x + sval y \<le> 2 * unit_scale"
  shows "sval (fadd pf x y) = rn (sval x + sval y)" "is_finite (fadd pf x y)"
proof -
  have "0 \<le> rn (sval x + sval y)" "rn (sval x + sval y) \<le> 2 * unit_scale"
    using rn_nonneg [OF assms(3)] rn_mono [OF assms(4)] rn_exact [OF unit_representable(3)] by simp_all
  then show "sval (fadd pf x y) = rn (sval x + sval y)" "is_finite (fadd pf x y)"
    using fadd_finite(2,3) [OF assms(1,2), of pf] unit_representable(4) by simp_all
qed

text \<open>Scaling by the tolerance keeps at least the spacing of the doubles.\<close>

lemma scaled_gap:
  assumes lo: "in_unit lo" "canonical (sval lo) m k" "floor_eps \<le> sval lo"
  shows "in_unit (fmul pf lo BETA_ICDF_EPS)" "2 ^ k \<le> sval (fmul pf lo BETA_ICDF_EPS)"
proof -
  let ?p = "sval lo * sval BETA_ICDF_EPS"
  have r: "rounds_to ?p unit_scale (fmul pf lo BETA_ICDF_EPS)"
    using fmul_rounds in_unitD(1) lo(1) eps_value(1) by blast
  have pos: "0 \<le> ?p"
    using in_unitD(3) lo(1) eps_value(1) by simp
  have "?p \<le> unit_scale * unit_scale"
    using lo(1) eps_value(1) unit_scale_pos by (intro mult_mono) (simp_all add: in_unit_def)
  then show "in_unit (fmul pf lo BETA_ICDF_EPS)"
    by (rule in_unit_round [OF r pos])
  have "0 < k"
    using lo(2,3) floor_eps(3) by (cases k) (auto simp: canonical_def)
  then have c: "sval lo = m * 2 ^ k" "2 ^ 52 \<le> m"
    using lo(2) in_unitD(3) [OF lo(1)] by (auto simp: canonical_def abs_if zero_le_mult_iff split: if_splits)
  have "unit_scale * 2 ^ k \<le> (2 ^ 52 * floor_eps) * 2 ^ k"
    by (intro mult_right_mono floor_eps(5)) simp
  also have "\<dots> = (2 ^ 52 * 2 ^ k) * floor_eps"
    by (simp only: mult.assoc mult.commute mult.left_commute)
  also have "\<dots> \<le> sval lo * sval BETA_ICDF_EPS"
    unfolding c(1) using c(2) eps_value(2) floor_eps(3) by (intro mult_mono) simp_all
  finally have gap: "unit_scale * 2 ^ k \<le> ?p" .
  have "1 * 2 ^ k \<le> m * 2 ^ k"
    using c(2) by (intro mult_right_mono) simp_all
  then have "2 ^ k \<le> sval lo"
    unfolding c(1) mult_1 .
  then have "2 ^ k < mag_val inf_mag"
    using in_unitD(4) [OF lo(1)] unit_representable(2) by linarith
  then show "2 ^ k \<le> sval (fmul pf lo BETA_ICDF_EPS)"
    using gap by (intro rounds_to_ge [OF r]) simp_all
qed

lemma wide_values:
  assumes "icdf_wide pf lo hi"
  shows "sval BETA_ICDF_EPS < sval hi"
    and "\<not> is_nan (fadd pf lo (fmul pf lo BETA_ICDF_EPS)) \<Longrightarrow>
      sval (fadd pf lo (fmul pf lo BETA_ICDF_EPS)) < sval hi"
  using assms by (auto simp: icdf_wide_def fmax_def flt_def order_key_sval split: if_splits)

lemma icdf_gap:
  assumes lo: "in_unit lo" and hi: "in_unit hi" and wide: "icdf_wide pf lo hi"
  obtains z where "representable z" "sval lo < z" "z < sval hi" "floor_eps \<le> sval hi"
proof (cases "floor_eps \<le> sval lo")
  case True
  obtain m k where c: "canonical (sval lo) m k"
    using representable_sval representable_canonical by blast
  let ?s = "fmul pf lo BETA_ICDF_EPS"
  note gap = scaled_gap [OF lo c True, of pf]
  have sum: "sval (fadd pf lo ?s) = rn (sval lo + sval ?s)" "is_finite (fadd pf lo ?s)"
    using unit_sum [of lo ?s pf] lo gap(1) by (simp_all add: in_unit_def)
  have r: "representable (sval lo + 2 ^ k)"
    using c representable_scaled [of "m + 1" k] by (auto simp: canonical_def algebra_simps abs_if split: if_splits)
  have "sval lo + 2 ^ k \<le> sval (fadd pf lo ?s)"
    using rn_mono [of "sval lo + 2 ^ k" "sval lo + sval ?s"] rn_exact [OF r] gap(2) sum(1) by simp
  then have "sval lo < sval (fadd pf lo ?s)"
    by (meson add_less_same_cancel1 less_add_same_cancel1 order_less_le_trans zero_less_numeral zero_less_power)
  moreover have "sval (fadd pf lo ?s) < sval hi" "sval BETA_ICDF_EPS < sval hi"
    using wide_values [OF wide] finite_not_special [OF sum(2)] by simp_all
  ultimately show ?thesis
    using that [of "sval (fadd pf lo ?s)"] representable_sval eps_value(2) by simp
next
  case False
  then show ?thesis
    using that [of "sval BETA_ICDF_EPS"] representable_sval eps_value(2) wide_values(1) [OF wide] by simp
qed

text \<open>The rounded sum is strictly between the doubled ends, and halving it is exact.\<close>

lemma midpoint:
  assumes lo: "in_unit lo" and hi: "in_unit hi" and wide: "icdf_wide pf lo hi"
  defines "x \<equiv> fmul pf f_half (fadd pf hi lo)"
  shows "in_unit x" "sval lo < sval x" "sval x < sval hi"
proof -
  obtain z where z: "representable z" "sval lo < z" "z < sval hi" "floor_eps \<le> sval hi"
    using icdf_gap [OF lo hi wide] .
  let ?v = "sval hi + sval lo"
  have s: "sval (fadd pf hi lo) = rn ?v" "is_finite (fadd pf hi lo)"
    using unit_sum [of hi lo pf] lo hi by (simp_all add: in_unit_def)
  have ends: "2 * sval lo \<le> rn ?v" "rn ?v \<le> 2 * sval hi"
    using rn_mono [of "2 * sval lo" ?v] rn_mono [of ?v "2 * sval hi"] z
      rn_exact representable_double representable_sval by simp_all
  have near: "\<bar>rn ?v - ?v\<bar> \<le> \<bar>2 * z - ?v\<bar>"
    by (rule rn_nearest [OF representable_double [OF z(1)]])
  then have inside: "2 * sval lo < rn ?v" "rn ?v < 2 * sval hi"
    using ends z by linarith+
  have "sval hi \<le> rn ?v"
    using rn_mono [of "sval hi" ?v] rn_exact [OF representable_sval] in_unitD(3) [OF lo] by simp
  then obtain w where w: "representable w" "rn ?v = 2 * w"
    using representable_half [of "rn ?v"] z(4) floor_eps(3) by (metis order.trans rn_representable)
  have r: "rounds_to (sval f_half * (2 * w)) unit_scale x"
    unfolding x_def using fmul_rounds [OF f_constants(5) s(2), of pf] s(1) w(2) by simp
  have p: "sval f_half * (2 * w) = unit_scale * w"
    using f_constants(6) by (metis mult.assoc mult.commute)
  have w0: "0 \<le> w" "w < mag_val inf_mag" "w \<le> unit_scale"
    using inside w(2) in_unitD(3) [OF lo] in_unitD(4) [OF hi] unit_representable(2) by linarith+
  have pos: "0 \<le> unit_scale * w"
    using w0(1) unit_scale_pos by simp
  have x: "sval x = w"
    using rounds_to_ge [OF r [unfolded p] w(1) w0(1)] rounds_to_le(1) [OF r [unfolded p] w(1) pos] w0(2) by simp
  show "sval lo < sval x" "sval x < sval hi"
    using inside w(2) x by linarith+
  show "in_unit x"
    using w0(3) unit_scale_pos by (intro in_unit_round [OF r [unfolded p] pos] mult_left_mono) simp_all
qed

subsection \<open>The loop\<close>

text \<open>
  A left end is certified when it is zero or the series stopped below the threshold there.
  What the loop keeps: both ends are in the unit interval and ordered, and the left one is
  certified.
\<close>

definition certified :: "platform \<Rightarrow> int \<Rightarrow> int \<Rightarrow> f64 \<Rightarrow> f64 \<Rightarrow> bool" where
  "certified pf a b alpha x \<longleftrightarrow> x = f_zero \<or>
     (\<exists>limit px. incbeta pf a b x alpha limit = Inr (Some px) \<and> flt px alpha)"

definition bracket :: "platform \<Rightarrow> int \<Rightarrow> int \<Rightarrow> f64 \<Rightarrow> f64 \<times> f64 \<Rightarrow> bool" where
  "bracket pf a b alpha = (\<lambda>(lo, hi).
     in_unit lo \<and> in_unit hi \<and> sval lo \<le> sval hi \<and> certified pf a b alpha lo)"

text \<open>Why an exception leaves the loop, and why the loop stops.\<close>

definition series_raises :: "platform \<Rightarrow> int \<Rightarrow> int \<Rightarrow> f64 \<Rightarrow> py_error \<Rightarrow> bool" where
  "series_raises pf a b alpha e \<longleftrightarrow> (\<exists>x limit. in_unit x \<and> incbeta pf a b x alpha limit = Inl e)"

definition icdf_stops :: "platform \<Rightarrow> int \<Rightarrow> int \<Rightarrow> f64 \<Rightarrow> f64 \<times> f64 \<Rightarrow> bool" where
  "icdf_stops pf a b alpha = (\<lambda>(lo, hi). \<not> icdf_wide pf lo hi \<or>
     flt hi (fadd pf lo (fmul pf lo BETA_ICDF_GOAL)) \<and>
     incbeta pf a b (fmul pf f_half (fadd pf hi lo)) alpha (Some 1000) = Inr None)"

lemma icdf_step_cases:
  assumes "bracket pf a b alpha (lo, hi)" "icdf_wide pf lo hi"
  obtains (raises) e where "icdf_step pf a b alpha lo hi = Inl e" "series_raises pf a b alpha e"
    | (stops) "icdf_step pf a b alpha lo hi = Inr (Return (lo, hi))" "icdf_stops pf a b alpha (lo, hi)"
    | (shrinks) lo' hi' where "icdf_step pf a b alpha lo hi = Inr (Continue (lo', hi'))"
        "bracket pf a b alpha (lo', hi')" "sval hi' - sval lo' < sval hi - sval lo"
proof -
  let ?x = "fmul pf f_half (fadd pf hi lo)"
  let ?close = "flt hi (fadd pf lo (fmul pf lo BETA_ICDF_GOAL))"
  let ?limit = "if ?close then Some 1000 else None :: int option"
  have x: "in_unit ?x" "sval lo < sval ?x" "sval ?x < sval hi"
    using assms midpoint [of lo hi pf] by (auto simp: bracket_def)
  have upper: "bracket pf a b alpha (?x, hi)" if "incbeta pf a b ?x alpha ?limit = Inr (Some px)" "flt px alpha" for px
    using assms(1) x that unfolding bracket_def certified_def by fastforce
  have lower: "bracket pf a b alpha (lo, ?x)"
    using assms(1) x by (simp add: bracket_def)
  show ?thesis
  proof (cases "incbeta pf a b ?x alpha ?limit")
    case (Inl e)
    then show ?thesis
      using raises [of e] x(1) by (auto simp: icdf_step_def series_raises_def Let_def)
  next
    case (Inr px)
    show ?thesis
    proof (cases "px \<noteq> None \<and> flt (the px) alpha")
      case True
      then show ?thesis
        using Inr upper [of "the px"] x shrinks [of ?x hi] by (auto simp: icdf_step_def Let_def)
    next
      case False
      then show ?thesis
        using Inr lower x stops shrinks [of lo ?x]
        by (cases "px = None \<and> ?close") (auto simp: icdf_step_def icdf_stops_def Let_def)
    qed
  qed
qed

lemma icdf_loop_returns:
  "bracket pf a b alpha (lo, hi) \<Longrightarrow> \<exists>r. icdf_loop pf a b alpha lo hi = Some r \<and>
     (case r of Inl e \<Rightarrow> series_raises pf a b alpha e
      | Inr st \<Rightarrow> bracket pf a b alpha st \<and> icdf_stops pf a b alpha st)"
proof (induction "nat (sval hi - sval lo)" arbitrary: lo hi rule: less_induct)
  case less
  show ?case
  proof (cases "icdf_wide pf lo hi")
    case True
    from less.prems True show ?thesis
    proof (cases rule: icdf_step_cases)
      case (shrinks lo' hi')
      then have "nat (sval hi' - sval lo') < nat (sval hi - sval lo)"
        using shrinks(2) by (auto simp: bracket_def)
      from less.hyps [OF this shrinks(2)] show ?thesis
        using True shrinks(1) by (simp add: icdf_loop.simps [of pf a b alpha lo hi])
    qed (use True less.prems in \<open>simp_all add: icdf_loop.simps [of pf a b alpha lo hi]\<close>)
  next
    case False
    then show ?thesis
      using less.prems by (simp add: icdf_loop.simps [of pf a b alpha lo hi] icdf_stops_def)
  qed
qed

subsection \<open>The interval and the bounds\<close>

text \<open>Integers of up to 53 bits are exact, and so is their product with one.\<close>

lemma of_int_exact:
  assumes "0 \<le> n" "n < 2 ^ 53"
  obtains v where "of_int_f64 n = Inr v" "is_finite v" "sval v = n * unit_scale"
proof -
  let ?m = "round_mag (n * unit_scale) 1"
  let ?v = "make_f64 False ?m"
  have r: "rounds_to (n * unit_scale) 1 ?v"
    using assms(1) unit_scale_pos rounds_to_make [of 1 False "n * unit_scale"] by simp
  have rep: "representable (n * unit_scale)"
    unfolding unit_scale_def using assms by (intro representable_scaled) simp
  have pos: "0 \<le> n * unit_scale"
    using assms(1) unit_scale_pos by simp
  have "n * unit_scale < 2 ^ 53 * unit_scale"
    using assms(2) unit_scale_pos by (rule mult_strict_right_mono)
  also have "\<dots> < mag_val inf_mag"
    unfolding unit_scale_def power_add [symmetric] by (rule power_below_inf) simp
  finally have small: "n * unit_scale < mag_val inf_mag" .
  have val: "sval ?v = n * unit_scale" and fin: "is_finite ?v"
    using rounds_to_ge [OF r rep pos] rounds_to_le [OF r rep pos] small by simp_all
  have m: "0 \<le> ?m" "?m \<le> inf_mag"
    using round_mag_range [OF pos, of 1] by simp_all
  then have "magnitude ?v = ?m"
    using inf_mag_less by simp
  then have "?m \<noteq> inf_mag"
    using fin by (simp add: is_finite_def)
  then show ?thesis
    using that [of ?v] val fin assms(1) by (simp add: of_int_f64_def Let_def abs_mult unit_scale_def)
qed

lemma fmul_one:
  assumes "is_finite x" "0 \<le> sval x"
  shows "sval (fmul pf x f_one) = sval x" "is_finite (fmul pf x f_one)"
proof -
  have "rounds_to (sval x * sval f_one) unit_scale (fmul pf x f_one)"
    by (rule fmul_rounds [OF assms(1) f_constants(2)])
  then have r: "rounds_to (unit_scale * sval x) unit_scale (fmul pf x f_one)"
    by (simp add: f_constants(3) mult.commute)
  have pos: "0 \<le> unit_scale * sval x" and small: "sval x < mag_val inf_mag"
    using assms unit_scale_pos is_finite_sval [of x] by simp_all
  show "sval (fmul pf x f_one) = sval x" "is_finite (fmul pf x f_one)"
    using rounds_to_ge [OF r representable_sval [of x] assms(2)] rounds_to_le [OF r representable_sval [of x] pos] small
    by simp_all
qed

lemma fdiv_returns:
  assumes "is_finite x" "is_finite y" "0 < sval y"
  obtains z where "fdiv pf x y = Inr z" "rounds_to (sval x * unit_scale) (sval y) z"
proof -
  have "sval y = 0" if "magnitude y = 0"
    using that by (simp add: sval_def)
  then have "magnitude y \<noteq> 0"
    using assms(3) by auto
  then obtain z where "fdiv pf x y = Inr z"
    by (cases "fdiv pf x y") (auto simp: fdiv_def Let_def split: if_splits)
  then show ?thesis
    using that fdiv_rounds [OF assms(1,2)] assms(3) by simp
qed

lemma mean_in_unit:
  assumes "0 \<le> a" "a < 2 ^ 44" "0 \<le> b" "b < 2 ^ 44" "0 < a + b"
  obtains hi where "bind_result (int_times pf a f_one) (\<lambda>v. div_int pf v (a + b)) = Inr hi" "in_unit hi"
proof -
  obtain va where va: "of_int_f64 a = Inr va" "is_finite va" "sval va = a * unit_scale"
    using of_int_exact [of a] assms by auto
  obtain vs where vs: "of_int_f64 (a + b) = Inr vs" "is_finite vs" "sval vs = (a + b) * unit_scale"
    using of_int_exact [of "a + b"] assms by auto
  have pos: "0 \<le> sval va" "0 < sval vs"
    unfolding va(3) vs(3) using assms unit_scale_pos by simp_all
  note one = fmul_one [OF va(2) pos(1), of pf]
  obtain hi where hi: "fdiv pf (fmul pf va f_one) vs = Inr hi" "rounds_to (sval va * unit_scale) (sval vs) hi"
    using fdiv_returns [OF one(2) vs(2) pos(2), of pf] one(1) by auto
  have "sval va \<le> sval vs"
    unfolding va(3) vs(3) using assms unit_scale_pos by (intro mult_right_mono) simp_all
  then have "sval va * unit_scale \<le> sval vs * unit_scale"
    using unit_scale_pos by (intro mult_right_mono) simp_all
  then have "in_unit hi"
    using pos unit_scale_pos by (intro in_unit_round [OF hi(2)]) simp_all
  then show ?thesis
    using that hi(1) va(1) vs(1) by (simp add: int_times_def div_int_def)
qed

text \<open>What a call of \<open>_beta_icdf_lo\<close> gives.\<close>

definition icdf_outcome :: "platform \<Rightarrow> int \<Rightarrow> int \<Rightarrow> f64 \<Rightarrow> (f64 \<times> f64) result \<Rightarrow> bool" where
  "icdf_outcome pf a b alpha r \<longleftrightarrow>
     (case r of Inl e \<Rightarrow> series_raises pf a b alpha e | Inr st \<Rightarrow> bracket pf a b alpha st)"

lemma zero_in_unit: "in_unit f_zero"
  using unit_scale_pos by (simp add: in_unit_def)

lemma beta_icdf_lo_returns:
  assumes "0 \<le> a" "a < 2 ^ 44" "0 \<le> b" "b < 2 ^ 44" "0 < a + b" "fle f_zero alpha" "flt alpha f_half"
  shows "\<exists>r. beta_icdf_lo pf a b alpha = Some r \<and> icdf_outcome pf a b alpha r"
proof -
  obtain hi where hi: "bind_result (int_times pf a f_one) (\<lambda>v. div_int pf v (a + b)) = Inr hi" "in_unit hi"
    using mean_in_unit [OF assms(1-5)] .
  have start: "bracket pf a b alpha (f_zero, hi)" "bracket pf a b alpha (f_zero, f_zero)"
    using hi(2) zero_in_unit by (simp_all add: bracket_def certified_def in_unitD)
  obtain r where "icdf_loop pf a b alpha f_zero hi = Some r" "icdf_outcome pf a b alpha r"
    using icdf_loop_returns [OF start(1)] by (fastforce simp: icdf_outcome_def split: sum.splits)
  then show ?thesis
    using assms hi(1) start(2) by (auto simp: beta_icdf_lo_def icdf_outcome_def)
qed

text \<open>
  The lower bound is itself certified; the upper bound is at least one minus a certified
  lower bound of the mirrored distribution.
\<close>

definition beta_bound :: "platform \<Rightarrow> int \<Rightarrow> int \<Rightarrow> f64 \<Rightarrow> bool \<Rightarrow> (f64 \<times> f64) result \<Rightarrow> bool" where
  "beta_bound pf a b alpha upper r \<longleftrightarrow>
     (case r of
        Inl e \<Rightarrow> if upper then series_raises pf b a alpha e else series_raises pf a b alpha e
      | Inr (bound, err) \<Rightarrow> in_unit bound \<and> in_unit err \<and>
          (if upper then \<exists>lo. in_unit lo \<and> certified pf b a alpha lo \<and> unit_scale \<le> sval bound + sval lo
           else certified pf a b alpha bound))"

text \<open>The rounded difference of two ordered doubles of the unit interval, moved up and capped.\<close>

lemma unit_difference:
  assumes "in_unit x" "in_unit y" "sval x \<le> sval y"
  obtains u where "next_float (fsub pf y x) 1 = Inr u" "in_unit (fmin u f_one)"
    "sval y - sval x \<le> sval (fmin u f_one)"
proof -
  have fin: "is_finite x" "is_finite y"
    using assms(1,2) by (simp_all add: in_unit_def)
  note r = fsub_rounds [OF fin(2,1), of pf]
  have p: "0 \<le> sval y - sval x" "sval y - sval x \<le> 1 * unit_scale"
    using assms by (simp_all add: in_unit_def)
  have d: "in_unit (fsub pf y x)"
    by (rule in_unit_round [OF r p])
  then obtain u where u: "next_float (fsub pf y x) 1 = Inr u" "above (sval (fsub pf y x)) (sval u)"
    "float_bits u = float_bits (fsub pf y x) + 1"
    using next_not_nan [OF in_unitD(2)] by blast
  have up: "sval y - sval x \<le> sval u"
    using next_upper_bound [OF r in_unitD(1) [OF d] u(1)] by simp
  have "\<not> is_nan u"
    using u(3) d not_nan_position [of u] is_finite_position [of "fsub pf y x"] by (auto simp: in_unit_def)
  then have min: "sval (fmin u f_one) = min (sval u) unit_scale" "is_finite (fmin u f_one)"
    using f_constants(2,3) finite_not_special [OF f_constants(2)] p up
      unit_representable(2) is_finite_sval [of u]
    by (auto simp: fmin_def flt_sval)
  show ?thesis
    using that [OF u(1)] min up p by (simp add: in_unit_def)
qed

lemma small_alpha:
  assumes "fle f_zero alpha"
  shows "fle f_zero (fmin alpha (literal 5 100))" "flt (fmin alpha (literal 5 100)) f_half"
proof -
  let ?c = "literal 5 100"
  have r: "rounds_to (5 * unit_scale) 100 ?c"
    by (rule rounds_literal) simp_all
  have c: "in_unit ?c"
    using unit_scale_pos by (intro in_unit_round [OF r]) simp_all
  have "representable (2 ^ 1072)" "unit_scale = 4 * 2 ^ 1072"
    by (rule representable_power, simp add: unit_scale_def)
  then obtain q where q: "representable q" "unit_scale = 4 * q"
    by blast
  have "sval ?c \<le> q"
    using unit_scale_pos q by (intro rounds_to_le(1) [OF r q(1)]) simp_all
  then have "sval ?c < sval f_half"
    using f_constants(6) q(2) unit_scale_pos by simp
  then have "flt ?c f_half"
    using c finite_not_special [OF f_constants(5)] by (simp add: flt_sval in_unitD)
  moreover have "fle f_zero ?c"
    using c by (simp add: fle_sval in_unitD)
  ultimately show "flt (fmin alpha ?c) f_half" "fle f_zero (fmin alpha ?c)"
    using assms by (auto simp: fmin_def flt_def fle_def)
qed

lemma one_in_unit: "in_unit f_one"
  using f_constants(2,3) unit_scale_pos by (simp add: in_unit_def)

lemma beta_upper:
  assumes "icdf_outcome pf b a alpha r"
  shows "beta_bound pf a b alpha True (bind_result r (\<lambda>(lo, hi).
    bind_result (next_float (fsub pf f_one lo) 1) (\<lambda>u.
    bind_result (next_float (fsub pf hi lo) 1) (\<lambda>d. Inr (fmin u f_one, fmin d f_one)))))"
proof (cases r)
  case (Inl e)
  then show ?thesis
    using assms by (simp add: beta_bound_def icdf_outcome_def)
next
  case (Inr st)
  obtain lo hi where st: "st = (lo, hi)" by (cases st)
  then have br: "in_unit lo" "in_unit hi" "sval lo \<le> sval hi" "certified pf b a alpha lo"
    using assms Inr by (simp_all add: icdf_outcome_def bracket_def)
  obtain u where u: "next_float (fsub pf f_one lo) 1 = Inr u" "in_unit (fmin u f_one)"
    "sval f_one - sval lo \<le> sval (fmin u f_one)"
    using unit_difference [OF br(1) one_in_unit] br(1) f_constants(3) by (auto simp: in_unit_def)
  obtain d where "next_float (fsub pf hi lo) 1 = Inr d" "in_unit (fmin d f_one)"
    using unit_difference [OF br(1-3)] by blast
  then show ?thesis
    using Inr st br u f_constants(3) by (auto simp: beta_bound_def)
qed

lemma beta_lower:
  assumes "icdf_outcome pf a b alpha r"
  shows "beta_bound pf a b alpha False (bind_result r (\<lambda>(lo, hi).
    bind_result (next_float (fsub pf hi lo) 1) (\<lambda>d. Inr (fmax f_zero lo, fmin d f_one))))"
proof (cases r)
  case (Inl e)
  then show ?thesis
    using assms by (simp add: beta_bound_def icdf_outcome_def)
next
  case (Inr st)
  obtain lo hi where st: "st = (lo, hi)" by (cases st)
  then have br: "in_unit lo" "in_unit hi" "sval lo \<le> sval hi" "certified pf a b alpha lo"
    using assms Inr by (simp_all add: icdf_outcome_def bracket_def)
  obtain d where "next_float (fsub pf hi lo) 1 = Inr d" "in_unit (fmin d f_one)"
    using unit_difference [OF br(1-3)] by blast
  moreover have "in_unit (fmax f_zero lo)" "certified pf a b alpha (fmax f_zero lo)"
    using br(1,4) zero_in_unit by (auto simp: fmax_def certified_def)
  ultimately show ?thesis
    using Inr st by (simp add: beta_bound_def)
qed

lemma beta_icdf_returns:
  assumes "0 < a" "a < 2 ^ 44" "0 < b" "b < 2 ^ 44" "fle f_zero alpha"
  shows "\<exists>r. beta_icdf pf a b alpha upper = Some r \<and>
    beta_bound pf a b (fmin alpha (literal 5 100)) upper r"
proof (cases "fle alpha f_zero")
  case True
  then show ?thesis
    using assms one_in_unit zero_in_unit f_constants(3)
    by (auto simp: beta_icdf_def beta_bound_def certified_def)
next
  case False
  note small = small_alpha [OF assms(5)]
  let ?a = "if upper then b else a" and ?b = "if upper then a else b"
  have "0 \<le> ?a" "?a < 2 ^ 44" "0 \<le> ?b" "?b < 2 ^ 44" "0 < ?a + ?b"
    using assms by simp_all
  then obtain r where "beta_icdf_lo pf ?a ?b (fmin alpha (literal 5 100)) = Some r"
    "icdf_outcome pf ?a ?b (fmin alpha (literal 5 100)) r"
    using beta_icdf_lo_returns [OF _ _ _ _ _ small] by metis
  then show ?thesis
    using False assms beta_upper beta_lower by (cases upper) (simp_all add: beta_icdf_def Let_def)
qed

end
