(* ===== verification/Sequential.thy ===== *)
theory Sequential
  imports Csm_Driver Bisection "HOL-Library.Sublist"
begin

text \<open>
  What \<open>csm_driver\<close> (\<open>t/csm.py\<close>) does with its stream. Every iteration returns, because the
  bisection behind the reported bounds ends; a limit on the count therefore bounds the run on
  any stream, and on a finite stream the driver stops at the first count that its rules name.
\<close>

subsection \<open>Every part of an iteration returns\<close>

lemma bind_run_returns: "\<lbrakk>r \<noteq> None; \<And>x. r = Some (Inr x) \<Longrightarrow> f x \<noteq> None\<rbrakk> \<Longrightarrow> bind_run r f \<noteq> None"
  by (auto simp: bind_run_def split: sum.splits)

lemma beta_icdf_total: "beta_icdf pf a b alpha upper \<noteq> None"
proof (cases "0 < a \<and> a < 2 ^ 44 \<and> 0 < b \<and> b < 2 ^ 44 \<and> fle f_zero alpha")
  case True
  then show ?thesis
    using beta_icdf_returns [of a b alpha pf upper] by auto
qed (auto simp: beta_icdf_def)

lemma driver_bound_total: "driver_bound pf cfg n s upper \<noteq> None"
  unfolding driver_bound_def Let_def by (intro bind_run_returns beta_icdf_total) auto

lemma log_out_total: "log_out pf cfg st \<noteq> None"
  unfolding log_out_def Let_def by (intro bind_run_returns driver_bound_total) auto

lemma bind_run_None: "bind_run r f = None \<longleftrightarrow> r = None \<or> (\<exists>x. r = Some (Inr x) \<and> f x = None)"
  by (auto simp: bind_run_def split: option.splits sum.splits)

lemma driver_step_total: "driver_step pf cfg st success \<noteq> None"
proof
  assume "driver_step pf cfg st success = None"
  then show False
    by (auto simp: driver_step_def Let_def bind_run_None log_out_total split: if_splits option.splits)
qed

lemma driver_result_total: "driver_result pf cfg st \<noteq> None"
  unfolding driver_result_def by (intro bind_run_returns driver_bound_total) auto

subsection \<open>One iteration\<close>

lemma bind_run_Some: "bind_run r f = Some (Inr y) \<longleftrightarrow> (\<exists>x. r = Some (Inr x) \<and> f x = Some (Inr y))"
  by (cases r) (auto simp: bind_run_def split: sum.splits)

lemma log_out_keeps:
  assumes "log_out pf cfg st = Some (Inr st')"
  shows "trials st' = trials st" "successes st' = successes st" "stop st' = stop st" "log_level st' = log_level st"
  using assms by (auto simp: log_out_def Let_def bind_run_Some)

text \<open>The rule that ends the loop after \<open>n\<close> items.\<close>

definition past_minimum :: "int option \<Rightarrow> int \<Rightarrow> bool" where
  "past_minimum min_count n \<longleftrightarrow> (case min_count of None \<Rightarrow> True | Some m \<Rightarrow> m < n)"

definition at_maximum :: "int option \<Rightarrow> int \<Rightarrow> bool" where
  "at_maximum max_count n \<longleftrightarrow> (case max_count of None \<Rightarrow> False | Some m \<Rightarrow> m \<le> n)"

lemma driver_step_effect:
  assumes "driver_step pf cfg st success = Some (Inr (st', brk))"
  shows "trials st' = trials st + 1"
    and "successes st' = successes st + (if success then 1 else 0)"
    and "csm pf (trials st') (cfg_alpha cfg) (successes st') (cfg_log_eps cfg) = Inr (stop st', log_level st')"
    and "brk \<longleftrightarrow> past_minimum (cfg_min_count cfg) (trials st') \<and>
      (stop st' \<or> at_maximum (cfg_max_count cfg) (trials st'))"
proof -
  let ?n = "trials st + 1" and ?s = "successes st + (if success then 1 else 0)"
  obtain stop' level where c: "csm pf ?n (cfg_alpha cfg) ?s (cfg_log_eps cfg) = Inr (stop', level)"
    using assms by (auto simp: driver_step_def Let_def bind_run_Some)
  let ?st = "st\<lparr>trials := ?n, successes := ?s, stop := stop', log_level := level\<rparr>"
  obtain st2 where st2: "(if cfg_file cfg \<and> next_print ?st \<le> ?n then log_out pf cfg ?st else Some (Inr ?st)) = Some (Inr st2)"
    and out: "st' = st2" "brk \<longleftrightarrow> past_minimum (cfg_min_count cfg) ?n \<and> (stop' \<or> at_maximum (cfg_max_count cfg) ?n)"
    using assms c
    by (auto simp: driver_step_def Let_def bind_run_Some past_minimum_def at_maximum_def
        split: if_splits option.splits)
  have "trials st2 = ?n" "successes st2 = ?s" "stop st2 = stop'" "log_level st2 = level"
    using st2 log_out_keeps [of pf cfg ?st st2] by (auto split: if_splits)
  then show "trials st' = trials st + 1"
    "successes st' = successes st + (if success then 1 else 0)"
    "csm pf (trials st') (cfg_alpha cfg) (successes st') (cfg_log_eps cfg) = Inr (stop st', log_level st')"
    "brk \<longleftrightarrow> past_minimum (cfg_min_count cfg) (trials st') \<and>
      (stop st' \<or> at_maximum (cfg_max_count cfg) (trials st'))"
    using out c by simp_all
qed

subsection \<open>A limit on the count bounds the run\<close>

definition count_limit :: "driver_config \<Rightarrow> int \<Rightarrow> int" where
  "count_limit cfg m = (case cfg_min_count cfg of None \<Rightarrow> m | Some l \<Rightarrow> max m (l + 1))"

lemma driver_loop_limited:
  assumes "\<And>g. pull g \<noteq> None" "cfg_max_count cfg = Some m"
  shows "driver_loop pf cfg pull st g \<noteq> None"
proof (induction "nat (count_limit cfg m - trials st)" arbitrary: st g rule: less_induct)
  case less
  obtain p where p: "pull g = Some p"
    using assms(1) [of g] by auto
  show ?case
  proof (cases p)
    case (Item x g')
    obtain r where r: "driver_step pf cfg st x = Some r"
      using driver_step_total by blast
    show ?thesis
    proof (cases r)
      case (Inr sb)
      obtain st' brk where sb: "sb = (st', brk)" by (cases sb)
      note e = driver_step_effect [OF r [unfolded Inr sb]]
      show ?thesis
      proof (cases brk)
        case False
        then have "trials st' < count_limit cfg m"
          using e(4) assms(2)
          by (auto simp: past_minimum_def at_maximum_def count_limit_def split: option.splits)
        then have "driver_loop pf cfg pull st' g' \<noteq> None"
          using e(1) by (intro less.hyps) auto
        then show ?thesis
          using p Item r Inr sb False by (simp add: driver_loop.simps [of pf cfg pull st g])
      qed (use p Item r Inr sb in \<open>simp add: driver_loop.simps [of pf cfg pull st g]\<close>)
    qed (use p Item r in \<open>simp add: driver_loop.simps [of pf cfg pull st g]\<close>)
  qed (use p in \<open>simp_all add: driver_loop.simps [of pf cfg pull st g]\<close>)
qed

lemma csm_driver_limited:
  assumes "\<And>g. pull g \<noteq> None"
  shows "csm_driver pf pull g alpha eps (Some m) min_count bound_eps file \<noteq> None"
proof
  assume "csm_driver pf pull g alpha eps (Some m) min_count bound_eps file = None"
  then show False
    by (auto simp: csm_driver_def Let_def driver_loop_limited [OF assms] driver_result_total
        split: option.splits sum.splits if_splits)
qed

lemma success_stream_returns: "success_stream pf rand p alpha eps max_count g \<noteq> None"
proof -
  have "csm_driver pf (bernoulli rand p) g alpha eps (Some max_count) None None False \<noteq> None"
    by (intro csm_driver_limited) (simp add: bernoulli_def split: prod.splits)
  then show ?thesis
    by (auto simp: success_stream_def split: option.splits sum.splits)
qed

subsection \<open>A finite stream\<close>

text \<open>The iterator over a list.\<close>

fun list_stream :: "bool list stream" where
  "list_stream [] = Some (Exhausted [])"
| "list_stream (x # xs) = Some (Item x xs)"

definition count_true :: "bool list \<Rightarrow> int" where
  "count_true xs = int (length (filter id xs))"

definition verdict :: "platform \<Rightarrow> f64 \<Rightarrow> f64 \<Rightarrow> bool list \<Rightarrow> (bool \<times> f64) result" where
  "verdict pf alpha log_eps xs = csm pf (int (length xs)) alpha (count_true xs) log_eps"

text \<open>The driver stops after the items \<open>xs\<close>.\<close>

definition driver_stops :: "platform \<Rightarrow> f64 \<Rightarrow> f64 \<Rightarrow> int option \<Rightarrow> int option \<Rightarrow> bool list \<Rightarrow> bool" where
  "driver_stops pf alpha log_eps max_count min_count xs \<longleftrightarrow>
     past_minimum min_count (int (length xs)) \<and>
     ((\<exists>level. verdict pf alpha log_eps xs = Inr (True, level)) \<or> at_maximum max_count (int (length xs)))"

text \<open>A state that has seen the items \<open>xs\<close>.\<close>

definition has_seen :: "platform \<Rightarrow> f64 \<Rightarrow> f64 \<Rightarrow> bool list \<Rightarrow> driver_state \<Rightarrow> bool" where
  "has_seen pf alpha log_eps xs st \<longleftrightarrow> trials st = int (length xs) \<and> successes st = count_true xs \<and>
     (xs \<noteq> [] \<longrightarrow> verdict pf alpha log_eps xs = Inr (stop st, log_level st))"

abbreviation stops_at :: "platform \<Rightarrow> driver_config \<Rightarrow> bool list \<Rightarrow> bool" where
  "stops_at pf cfg \<equiv> driver_stops pf (cfg_alpha cfg) (cfg_log_eps cfg) (cfg_max_count cfg) (cfg_min_count cfg)"

lemma driver_step_seen:
  assumes "has_seen pf (cfg_alpha cfg) (cfg_log_eps cfg) xs st" "driver_step pf cfg st x = Some (Inr (st', brk))"
  shows "has_seen pf (cfg_alpha cfg) (cfg_log_eps cfg) (xs @ [x]) st'"
    and "brk \<longleftrightarrow> stops_at pf cfg (xs @ [x])"
proof -
  note e = driver_step_effect [OF assms(2)]
  have "trials st' = int (length (xs @ [x]))" "successes st' = count_true (xs @ [x])"
    using assms(1) e(1,2) by (auto simp: has_seen_def count_true_def)
  then show "has_seen pf (cfg_alpha cfg) (cfg_log_eps cfg) (xs @ [x]) st'" "brk \<longleftrightarrow> stops_at pf cfg (xs @ [x])"
    using e(3,4) by (auto simp: has_seen_def driver_stops_def verdict_def)
qed

lemma driver_loop_list:
  assumes "has_seen pf (cfg_alpha cfg) (cfg_log_eps cfg) xs st"
  shows "\<exists>r st' ys zs. driver_loop pf cfg list_stream st (ys0 :: bool list) = Some (r, st', zs) \<and> ys0 = ys @ zs \<and>
    (r = Inr () \<longrightarrow> has_seen pf (cfg_alpha cfg) (cfg_log_eps cfg) (xs @ ys) st' \<and>
      (zs \<noteq> [] \<longrightarrow> ys \<noteq> [] \<and> stops_at pf cfg (xs @ ys)) \<and>
      (\<forall>i. 0 < i \<and> i < length ys \<longrightarrow> \<not> stops_at pf cfg (xs @ take i ys)))"
  using assms
proof (induction ys0 arbitrary: xs st)
  case Nil
  then show ?case
    by (simp add: driver_loop.simps [of pf cfg list_stream st])
next
  case (Cons y ys0)
  obtain r where r: "driver_step pf cfg st y = Some r"
    using driver_step_total by blast
  show ?case
  proof (cases r)
    case (Inl e)
    then show ?thesis
      using r by (intro exI [of _ "Inl e"] exI [of _ st] exI [of _ "[y]"] exI [of _ ys0])
        (simp add: driver_loop.simps [of pf cfg list_stream st])
  next
    case (Inr sb)
    obtain st' brk where sb: "sb = (st', brk)" by (cases sb)
    note e = driver_step_seen [OF Cons.prems r [unfolded Inr sb]]
    show ?thesis
    proof (cases brk)
      case True
      then show ?thesis
        using r Inr sb e by (intro exI [of _ "Inr ()"] exI [of _ st'] exI [of _ "[y]"] exI [of _ ys0])
          (simp add: driver_loop.simps [of pf cfg list_stream st])
    next
      case False
      obtain r' st'' ys zs where ih: "driver_loop pf cfg list_stream st' ys0 = Some (r', st'', zs)" "ys0 = ys @ zs"
        "r' = Inr () \<longrightarrow> has_seen pf (cfg_alpha cfg) (cfg_log_eps cfg) ((xs @ [y]) @ ys) st'' \<and>
          (zs \<noteq> [] \<longrightarrow> ys \<noteq> [] \<and> stops_at pf cfg ((xs @ [y]) @ ys)) \<and>
          (\<forall>i. 0 < i \<and> i < length ys \<longrightarrow> \<not> stops_at pf cfg ((xs @ [y]) @ take i ys))"
        using Cons.IH [OF e(1)] by blast
      have "\<not> stops_at pf cfg (xs @ take i (y # ys))" if "r' = Inr ()" "0 < i" "i < length (y # ys)" for i
        using that ih(3) e(2) False by (cases i; cases "i = 1") auto
      then show ?thesis
        using r Inr sb False ih
        by (intro exI [of _ r'] exI [of _ st''] exI [of _ "y # ys"] exI [of _ zs])
          (simp add: driver_loop.simps [of pf cfg list_stream st])
    qed
  qed
qed

text \<open>What the caller gets.\<close>

lemma driver_bound_in_unit:
  assumes "driver_bound pf cfg n s upper = Some (Inr bound)"
  shows "in_unit bound"
proof -
  obtain c err where b: "beta_icdf pf (s + 1) ((n - s) + 1) c upper = Some (Inr (bound, err))"
    using assms by (auto simp: driver_bound_def Let_def bind_run_Some)
  then have "0 < s + 1 \<and> s + 1 < 2 ^ 44 \<and> 0 < (n - s) + 1 \<and> (n - s) + 1 < 2 ^ 44 \<and> fle f_zero c"
    by (auto simp: beta_icdf_def split: if_splits)
  then show ?thesis
    using beta_icdf_returns [of "s + 1" "(n - s) + 1" c pf upper] b by (auto simp: beta_bound_def)
qed

lemma driver_rate_positive: "driver_rate pf n s = Inr rate \<Longrightarrow> n \<noteq> 0"
proof
  assume "driver_rate pf n s = Inr rate" "n = 0"
  moreover have "of_int_f64 0 = Inr f_zero"
    using round_mag_exact [of 0 1] inf_mag_less by (simp add: of_int_f64_def Let_def make_f64_def f_zero_def)
  ultimately show False
    by (auto simp: driver_rate_def div_int_def fdiv_def bind_result_eq_Inr_iff)
qed

lemma csm_driver_on_list:
  "case csm_driver pf list_stream xs alpha eps max_count min_count bound_eps file of
     None \<Rightarrow> False
   | Some (Inl e, out, rest) \<Rightarrow> suffix rest xs
   | Some (Inr (ok, rate, lo, hi), out, rest) \<Rightarrow>
       \<exists>ys log_eps level. xs = ys @ rest \<and> ys \<noteq> [] \<and>
         bind_result (fdiv pf eps f_two) (log_down pf) = Inr log_eps \<and>
         verdict pf alpha log_eps ys = Inr (ok, level) \<and>
         driver_rate pf (int (length ys)) (count_true ys) = Inr rate \<and> in_unit lo \<and> in_unit hi \<and>
         (rest = [] \<or> driver_stops pf alpha log_eps max_count min_count ys) \<and>
         \<not> (\<exists>i. 0 < i \<and> i < length ys \<and> driver_stops pf alpha log_eps max_count min_count (take i ys))"
proof (cases "(flt f_zero alpha \<and> flt alpha f_one) \<and> (flt f_zero eps \<and> fle eps f_one)")
  case False
  then show ?thesis
    by (auto simp: csm_driver_def)
next
  case args: True
  show ?thesis
  proof (cases "bind_result (fdiv pf eps f_two) (log_down pf)")
    case (Inl e)
    then show ?thesis
      using args by (simp add: csm_driver_def)
  next
    case (Inr log_eps)
    let ?cfg = "\<lparr>cfg_alpha = alpha, cfg_eps = eps, cfg_log_eps = log_eps, cfg_max_count = max_count,
      cfg_min_count = min_count, cfg_bound_eps = bound_eps, cfg_file = file\<rparr>"
    have start: "has_seen pf (cfg_alpha ?cfg) (cfg_log_eps ?cfg) [] initial_state"
      by (simp add: has_seen_def initial_state_def count_true_def)
    obtain r st ys rest where run: "driver_loop pf ?cfg list_stream initial_state xs = Some (r, st, rest)"
        "xs = ys @ rest" and seen: "r = Inr () \<longrightarrow> has_seen pf alpha log_eps ys st \<and>
        (rest \<noteq> [] \<longrightarrow> ys \<noteq> [] \<and> stops_at pf ?cfg ys) \<and>
        (\<forall>i. 0 < i \<and> i < length ys \<longrightarrow> \<not> stops_at pf ?cfg (take i ys))"
      using driver_loop_list [OF start, of xs] by fastforce
    show ?thesis
    proof (cases r)
      case (Inl e)
      then show ?thesis
        using args Inr run by (simp add: csm_driver_def Let_def suffix_def)
    next
      case finished: (Inr u)
      obtain d where d: "driver_result pf ?cfg st = Some d"
        using driver_result_total by blast
      show ?thesis
      proof (cases d)
        case (Inl e)
        then show ?thesis
          using args Inr run finished d by (simp add: csm_driver_def Let_def suffix_def)
      next
        case result: (Inr q)
        obtain rate lo hi where q: "driver_rate pf (trials st) (successes st) = Inr rate"
          "driver_bound pf ?cfg (trials st) (successes st) False = Some (Inr lo)"
          "driver_bound pf ?cfg (trials st) (successes st) True = Some (Inr hi)" "q = (stop st, rate, lo, hi)"
          using d result by (auto simp: driver_result_def bind_run_Some)
        have "ys \<noteq> []"
          using driver_rate_positive [OF q(1)] seen finished by (auto simp: has_seen_def)
        then show ?thesis
          using args Inr run finished d result q seen driver_bound_in_unit [OF q(2)] driver_bound_in_unit [OF q(3)]
          by (auto simp: csm_driver_def Let_def has_seen_def)
      qed
    qed
  qed
qed

end
