(* ===== verification/Results.thy ===== *)
theory Results
  imports Csm_Sum "HOL-Library.AList"
begin

text \<open>
  Batches of statistics (\<open>_generate_in_parallel_worker\<close>,
  \<open>_convert_result_arrays_to_proto\<close> and \<open>_convert_proto_to_result_dicts\<close>,
  \<open>t/exact_test_sampler.py\<close>). A worker turns the dicts its generator yields into one array per
  statistic, for transport; the receiver turns the arrays back into dicts. A Python dict is
  an association list in insertion order with distinct keys.
\<close>

type_synonym 'v dict = "(string \<times> 'v) list"

text \<open>\<open>d[k].append(v)\<close> on a \<open>defaultdict(list)\<close>.\<close>

definition dict_append :: "string \<Rightarrow> 'v \<Rightarrow> 'v list dict \<Rightarrow> 'v list dict" where
  "dict_append k v d =
     (case map_of d k of None \<Rightarrow> d @ [(k, [v])] | Some vs \<Rightarrow> AList.update k (vs @ [v]) d)"

definition collect_value :: "'v list dict \<Rightarrow> 'v dict \<Rightarrow> 'v list dict" where
  "collect_value results val = foldl (\<lambda>r (k, v). dict_append k v r) results val"

text \<open>The transport format: the name and the values of each statistic.\<close>

type_synonym 'v result_set = "(string \<times> 'v list) list"

definition convert_result_arrays_to_proto :: "'v list dict \<Rightarrow> 'v result_set" where
  "convert_result_arrays_to_proto dict_of_arrays =
     foldl (\<lambda>ret (name, values). ret @ [(name, values)]) [] dict_of_arrays"

fun fill_dicts :: "string \<Rightarrow> nat \<Rightarrow> 'v list \<Rightarrow> 'v dict list \<Rightarrow> 'v dict list" where
  "fill_dicts name i [] dicts = dicts"
| "fill_dicts name i (v # vs) dicts =
     fill_dicts name (Suc i) vs (dicts[i := AList.update name v (dicts ! i)])"

definition convert_proto_to_result_dicts :: "'v result_set \<Rightarrow> 'v dict list result" where
  "convert_proto_to_result_dicts rs =
     (if rs = [] then Inl ValueError
      else let max_length = Max (set (map (length \<circ> snd) rs));
               dicts = replicate max_length []
           in Inr (foldl (\<lambda>ds (name, values). fill_dicts name 0 values ds) dicts rs))"

subsection \<open>The worker\<close>

text \<open>Truncation of a float to an integer, as \<open>int\<close> does.\<close>

definition int_of_f64 :: "f64 \<Rightarrow> int result" where
  "int_of_f64 x =
     (if is_nan x then Inl ValueError
      else if is_inf x then Inl OverflowError
      else Inr (sgn (sval x) * (\<bar>sval x\<bar> div unit_scale)))"

text \<open>Pulling an iterator of values; the worker reads the clock once per value it keeps.\<close>

datatype ('a, 'g) pull = Ended | Raised py_error | Got 'a 'g

fun worker_loop ::
    "('g \<Rightarrow> ('v dict, 'g) pull) \<Rightarrow> (nat \<Rightarrow> f64) \<Rightarrow> f64 \<Rightarrow> nat \<Rightarrow> nat \<Rightarrow> 'g \<Rightarrow> 'v list dict
      \<Rightarrow> 'v result_set option result" where
  "worker_loop next_value clock deadline left i g results =
     (case next_value g of
        Ended \<Rightarrow> Inr None
      | Raised e \<Rightarrow> Inl e
      | Got value g' \<Rightarrow>
          (let results' = collect_value results value in
           case left of
             0 \<Rightarrow> Inr (Some (convert_result_arrays_to_proto results'))
           | Suc left' \<Rightarrow>
               if fle deadline (clock i)
               then Inr (Some (convert_result_arrays_to_proto results'))
               else worker_loop next_value clock deadline left' (Suc i) g' results'))"

text \<open>\<open>r1\<close> and \<open>r2\<close> are the two values of \<open>random.random()\<close>, \<open>now\<close> the first clock reading.\<close>

definition generate_in_parallel_worker ::
    "platform \<Rightarrow> ('g \<Rightarrow> ('v dict, 'g) pull) \<Rightarrow> 'g \<Rightarrow> int \<Rightarrow> f64 \<Rightarrow> f64 \<Rightarrow> f64 \<Rightarrow> f64 \<Rightarrow> (nat \<Rightarrow> f64)
      \<Rightarrow> 'v result_set option result" where
  "generate_in_parallel_worker pf next_value g max_results max_delay r1 r2 now clock =
     bind_result (of_int_f64 max_results) (\<lambda>m.
     bind_result (int_of_f64 (fmul pf m (fadd pf f_half r1))) (\<lambda>jittered.
     let max_results' = 1 + jittered;
         max_delay' = fmul pf max_delay (fadd pf f_half r2);
         deadline = fadd pf now max_delay'
     in worker_loop next_value clock deadline (nat max_results') 0 g []))"

subsection \<open>Transposing back and forth\<close>

lemma convert_result_arrays_to_proto_eq: "convert_result_arrays_to_proto d = d"
proof -
  have "foldl (\<lambda>ret (name, values). ret @ [(name, values)]) acc d = acc @ d" for acc
    by (induction d arbitrary: acc) auto
  then show ?thesis
    by (simp add: convert_result_arrays_to_proto_def)
qed

lemma map_of_dict_append:
  "map_of (dict_append k v d) =
     (map_of d)(k \<mapsto> (case map_of d k of None \<Rightarrow> [v] | Some vs \<Rightarrow> vs @ [v]))"
  by (auto simp: dict_append_def update_conv' map_add_def fun_eq_iff split: option.split)

lemma distinct_dict_append:
  "distinct (map fst d) \<Longrightarrow> distinct (map fst (dict_append k v d))"
  by (auto simp: dict_append_def map_of_eq_None_iff distinct_update split: option.split)

lemma collect_value_map:
  "distinct (map fst val) \<Longrightarrow>
     map_of (collect_value r val) k =
       (case map_of val k of
          None \<Rightarrow> map_of r k
        | Some v \<Rightarrow> Some ((case map_of r k of None \<Rightarrow> [] | Some vs \<Rightarrow> vs) @ [v]))"
proof (induction val arbitrary: r)
  case (Cons p val)
  obtain k' v where p: "p = (k', v)" by fastforce
  have none: "map_of val k' = None"
    using Cons.prems p by (auto simp: map_of_eq_None_iff)
  have "map_of (collect_value r (p # val)) k = map_of (collect_value (dict_append k' v r) val) k"
    by (simp add: collect_value_def p)
  also have "\<dots> = (case map_of val k of
          None \<Rightarrow> map_of (dict_append k' v r) k
        | Some w \<Rightarrow> Some ((case map_of (dict_append k' v r) k of None \<Rightarrow> [] | Some vs \<Rightarrow> vs) @ [w]))"
    using Cons by simp
  finally show ?case
    using none by (auto simp: p map_of_dict_append split: option.split)
qed (simp add: collect_value_def)

lemma distinct_collect_value:
  "distinct (map fst r) \<Longrightarrow> distinct (map fst (collect_value r val))"
  unfolding collect_value_def
  by (induction val arbitrary: r) (auto simp: distinct_dict_append split: prod.split)

text \<open>The arrays of a sequence of dicts with the same keys.\<close>

definition uniform :: "string set \<Rightarrow> 'v dict list \<Rightarrow> bool" where
  "uniform ks vals \<longleftrightarrow> (\<forall>d \<in> set vals. distinct (map fst d) \<and> set (map fst d) = ks)"

lemma collect_all_both:
  "uniform ks vals \<Longrightarrow>
     (\<forall>k. map_of (foldl collect_value [] vals) k =
        (if vals \<noteq> [] \<and> k \<in> ks then Some (map (\<lambda>d. the (map_of d k)) vals) else None)) \<and>
     distinct (map fst (foldl collect_value [] vals))"
proof (induction vals rule: rev_induct)
  case (snoc d vals)
  have u: "uniform ks vals" and d: "distinct (map fst d)" "set (map fst d) = ks"
    using snoc.prems by (simp_all add: uniform_def)
  note IH = snoc.IH [OF u]
  show ?case
  proof (intro conjI allI)
    fix k
    show "map_of (foldl collect_value [] (vals @ [d])) k =
      (if vals @ [d] \<noteq> [] \<and> k \<in> ks then Some (map (\<lambda>d. the (map_of d k)) (vals @ [d])) else None)"
    proof (cases "k \<in> ks")
      case True
      then obtain v where "map_of d k = Some v"
        using d(2) by (metis map_of_eq_None_iff option.exhaust set_map)
      then show ?thesis
        using IH True by (cases "vals = []") (auto simp: collect_value_map [OF d(1)])
    next
      case False
      then have "map_of d k = None"
        using d(2) by (simp add: map_of_eq_None_iff)
      then show ?thesis
        using IH False by (simp add: collect_value_map [OF d(1)])
    qed
  qed (use IH in \<open>simp add: distinct_collect_value\<close>)
qed simp

lemma collect_all:
  assumes "uniform ks vals"
  shows "map_of (foldl collect_value [] vals) k =
      (if vals \<noteq> [] \<and> k \<in> ks then Some (map (\<lambda>d. the (map_of d k)) vals) else None)"
    and "distinct (map fst (foldl collect_value [] vals))"
  using collect_all_both [OF assms] by blast+

lemma length_fill_dicts [simp]: "length (fill_dicts name i vs ds) = length ds"
  by (induction name i vs ds rule: fill_dicts.induct) auto

lemma fill_dicts_nth:
  "\<lbrakk>i + length vs \<le> length ds; j < length ds\<rbrakk> \<Longrightarrow>
     fill_dicts name i vs ds ! j =
       (if i \<le> j \<and> j < i + length vs then AList.update name (vs ! (j - i)) (ds ! j) else ds ! j)"
proof (induction name i vs ds rule: fill_dicts.induct)
  case (2 name i v vs ds)
  let ?ds = "ds[i := AList.update name v (ds ! i)]"
  have IH: "fill_dicts name (Suc i) vs ?ds ! j =
      (if Suc i \<le> j \<and> j < Suc i + length vs then AList.update name (vs ! (j - Suc i)) (?ds ! j) else ?ds ! j)"
    using 2 by simp
  consider "j < i" | "j = i" | "i < j" by linarith
  then show ?case
  proof cases
    case 3
    then have "(v # vs) ! (j - i) = vs ! (j - Suc i)"
      by (simp add: nth_Cons')
    then show ?thesis
      using IH 3 by simp
  qed (use IH 2(3) in simp_all)
qed auto

text \<open>Every array fills its own key of every dict, in order.\<close>

definition fill_rows :: "'v result_set \<Rightarrow> 'v dict list \<Rightarrow> 'v dict list" where
  "fill_rows rs ds = foldl (\<lambda>ds (name, vs). fill_dicts name 0 vs ds) ds rs"

lemma length_fill_rows [simp]: "length (fill_rows rs ds) = length ds"
  unfolding fill_rows_def by (induction rs arbitrary: ds) auto

lemma fill_rows_nth:
  "\<lbrakk>\<forall>(name, vs) \<in> set rs. length vs \<le> length ds; distinct (map fst rs); j < length ds\<rbrakk> \<Longrightarrow>
     map_of (fill_rows rs ds ! j) k =
       (case map_of rs k of
          None \<Rightarrow> map_of (ds ! j) k
        | Some vs \<Rightarrow> if j < length vs then Some (vs ! j) else map_of (ds ! j) k)"
proof (induction rs arbitrary: ds)
  case (Cons r rs)
  obtain name vs where r: "r = (name, vs)" by fastforce
  let ?ds = "fill_dicts name 0 vs ds"
  have len: "length vs \<le> length ds" and rest: "\<forall>(name, vs) \<in> set rs. length vs \<le> length ?ds"
    using Cons.prems by (auto simp: r)
  have none: "map_of rs name = None"
    using Cons.prems by (auto simp: r map_of_eq_None_iff)
  have at: "?ds ! j = (if j < length vs then AList.update name (vs ! j) (ds ! j) else ds ! j)"
    using fill_dicts_nth [of 0 vs ds j name] len Cons.prems(3) by simp
  have "map_of (fill_rows (r # rs) ds ! j) k = map_of (fill_rows rs ?ds ! j) k"
    by (simp add: fill_rows_def r)
  also have "\<dots> = (case map_of rs k of
          None \<Rightarrow> map_of (?ds ! j) k
        | Some vs \<Rightarrow> if j < length vs then Some (vs ! j) else map_of (?ds ! j) k)"
    using Cons.prems by (intro Cons.IH [OF rest]) simp_all
  finally show ?case
    using none unfolding at r by (cases "k = name") (auto simp: update_conv' split: option.split)
qed (simp add: fill_rows_def)

lemma transpose_round_trip:
  assumes "uniform ks vals" "vals \<noteq> []" "ks \<noteq> {}"
  shows "\<exists>ds. convert_proto_to_result_dicts
      (convert_result_arrays_to_proto (foldl collect_value [] vals)) = Inr ds \<and>
    map map_of ds = map map_of vals"
proof -
  let ?rs = "foldl collect_value [] vals"
  let ?n = "length vals"
  have keys: "map_of ?rs k = (if k \<in> ks then Some (map (\<lambda>d. the (map_of d k)) vals) else None)" for k
    using collect_all(1) [OF assms(1)] assms(2) by simp
  have dist: "distinct (map fst ?rs)"
    by (rule collect_all(2) [OF assms(1)])
  have len: "length vs = ?n" if "(name, vs) \<in> set ?rs" for name vs
    using map_of_is_SomeI [OF dist that] keys [of name] by (auto split: if_splits)
  obtain k0 where "k0 \<in> ks" using assms(3) by blast
  then have "map_of ?rs k0 \<noteq> None"
    using keys by simp
  then have ne: "?rs \<noteq> []" by auto
  have "\<forall>p \<in> set ?rs. (length \<circ> snd) p = ?n"
    using len by auto
  then have "set (map (length \<circ> snd) ?rs) = {?n}"
    unfolding set_map using ne by (metis image_constant_conv image_cong set_empty)
  then have m: "Max (set (map (length \<circ> snd) ?rs)) = ?n"
    by (simp only: Max_singleton)
  let ?ds = "fill_rows ?rs (replicate ?n [])"
  have fits: "\<forall>(name, vs) \<in> set ?rs. length vs \<le> length (replicate ?n ([]::'a dict))"
    using len by auto
  have "map map_of ?ds = map map_of vals"
  proof (rule nth_equalityI)
    show "length (map map_of ?ds) = length (map map_of vals)"
      by simp
    fix j assume "j < length (map map_of ?ds)"
    then have j: "j < ?n" by simp
    have dj: "set (map fst (vals ! j)) = ks"
      using assms(1) j by (simp add: uniform_def)
    have "map_of (?ds ! j) k = map_of (vals ! j) k" for k
    proof (cases "k \<in> ks")
      case True
      then obtain v where "map_of (vals ! j) k = Some v"
        using dj by (metis map_of_eq_None_iff option.exhaust set_map)
      then show ?thesis
        using fill_rows_nth [OF fits dist, of j k] j keys [of k] True by simp
    next
      case False
      then have "map_of (vals ! j) k = None"
        using dj by (simp add: map_of_eq_None_iff)
      then show ?thesis
        using fill_rows_nth [OF fits dist, of j k] j keys [of k] False by simp
    qed
    then show "map map_of ?ds ! j = map map_of vals ! j"
      using j by (simp add: fun_eq_iff)
  qed
  moreover have "convert_proto_to_result_dicts (convert_result_arrays_to_proto ?rs) = Inr ?ds"
    using ne m
    by (simp add: convert_result_arrays_to_proto_eq convert_proto_to_result_dicts_def fill_rows_def)
  ultimately show ?thesis by blast
qed

text \<open>A batch holds a non-empty run of consecutive values of the generator, within the limit.\<close>

fun taken :: "('g \<Rightarrow> ('a, 'g) pull) \<Rightarrow> nat \<Rightarrow> 'g \<Rightarrow> 'a list" where
  "taken next_value 0 g = []"
| "taken next_value (Suc n) g =
     (case next_value g of Got v g' \<Rightarrow> v # taken next_value n g' | _ \<Rightarrow> [])"

lemma worker_loop_taken:
  "worker_loop nv clock deadline left i g results = Inr (Some rs) \<Longrightarrow>
     \<exists>n \<le> left. length (taken nv (Suc n) g) = Suc n \<and> rs = foldl collect_value results (taken nv (Suc n) g)"
proof (induction left arbitrary: i g results)
  case 0
  then show ?case
    by (auto simp: Let_def convert_result_arrays_to_proto_eq split: pull.splits)
next
  case (Suc left)
  obtain v g' where g: "nv g = Got v g'"
    using Suc.prems by (cases "nv g") auto
  show ?case
  proof (cases "fle deadline (clock i)")
    case True
    then show ?thesis
      using Suc.prems g by (intro exI [of _ 0]) (auto simp: Let_def convert_result_arrays_to_proto_eq)
  next
    case False
    then obtain n where "n \<le> left" "length (taken nv (Suc n) g') = Suc n"
      "rs = foldl collect_value (collect_value results v) (taken nv (Suc n) g')"
      using Suc.IH [of "Suc i" g' "collect_value results v"] Suc.prems g by (auto simp: Let_def)
    then show ?thesis
      using g by (intro exI [of _ "Suc n"]) simp
  qed
qed

lemma worker_batch:
  assumes "generate_in_parallel_worker pf nv g max_results max_delay r1 r2 now clock = Inr (Some rs)"
  obtains n where "length (taken nv (Suc n) g) = Suc n"
    "rs = foldl collect_value [] (taken nv (Suc n) g)"
proof -
  obtain left deadline where w: "worker_loop nv clock deadline left 0 g [] = Inr (Some rs)"
    using assms by (auto simp: generate_in_parallel_worker_def Let_def bind_result_eq_Inr_iff)
  from worker_loop_taken [OF w] obtain n where "length (taken nv (Suc n) g) = Suc n"
    "rs = foldl collect_value [] (taken nv (Suc n) g)" by blast
  then show ?thesis by (rule that)
qed

lemma worker_round_trip:
  assumes "generate_in_parallel_worker pf nv g max_results max_delay r1 r2 now clock = Inr (Some rs)"
    and "\<And>n. uniform ks (taken nv n g)" and "ks \<noteq> {}"
  shows "\<exists>n ds. convert_proto_to_result_dicts rs = Inr ds \<and> length ds = Suc n \<and>
    map map_of ds = map map_of (taken nv (Suc n) g)"
proof -
  obtain n where n: "length (taken nv (Suc n) g) = Suc n"
    "rs = foldl collect_value [] (taken nv (Suc n) g)"
    using worker_batch [OF assms(1)] .
  then have "taken nv (Suc n) g \<noteq> []" by auto
  from transpose_round_trip [OF assms(2) this assms(3)] obtain ds where
    "convert_proto_to_result_dicts rs = Inr ds" "map map_of ds = map map_of (taken nv (Suc n) g)"
    unfolding convert_result_arrays_to_proto_eq n(2) [symmetric] by blast
  moreover from this(2) have "length ds = Suc n"
    using n(1) by (metis length_map)
  ultimately show ?thesis by blast
qed

end
