(* ===== verification/Coordinator.thy ===== *)
theory Coordinator
  imports Results "HOL-Library.Multiset"
begin

text \<open>
  The coordinator that hands batches to a pool of processes (\<open>_generate_in_parallel\<close>,
  \<open>t/exact_test_sampler.py\<close>): a generator that keeps a list of pending futures, yields the
  results of those that are ready, doubles the batch size when there were some, tops the
  pool's queue up, and backs off when nothing changed. What it observes of the outside (the
  stop event, the clock, the length of the pool's queue, the state of its futures) is input,
  one observation per iteration of its loop.
\<close>

definition INITIAL_BATCH_SIZE :: int where "INITIAL_BATCH_SIZE = 10"
definition MAX_BATCH_SIZE :: "int \<Rightarrow> int" where
  "MAX_BATCH_SIZE cpu_count = 100 * 1000 * (cpu_count + 16) div 16"
definition BATCH_SIZE_GROWTH_FACTOR :: int where "BATCH_SIZE_GROWTH_FACTOR = 2"
definition PROPORTIONAL_DELAY :: f64 where "PROPORTIONAL_DELAY = literal 5 100"
definition MIN_DELAY :: f64 where "MIN_DELAY = literal 5 100"
definition MAX_DELAY :: f64 where "MAX_DELAY = literal 10 1"
definition POOL_SIZE :: "int \<Rightarrow> int" where "POOL_SIZE cpu_count = max 1 (cpu_count - 1)"
definition POLL_PROPORTIONAL_DELAY :: f64 where "POLL_PROPORTIONAL_DELAY = literal 1 2"
definition POLL_MIN_DELAY :: f64 where "POLL_MIN_DELAY = literal 1 100"
definition POLL_MAX_DELAY :: f64 where "POLL_MAX_DELAY = literal 1 1"

text \<open>The global pool, made by \<open>make_pool\<close> when it is first asked for: the pool, and the new global.\<close>

definition ensure_pool :: "(int \<Rightarrow> 'pool) \<Rightarrow> int \<Rightarrow> 'pool option \<Rightarrow> 'pool \<times> 'pool option" where
  "ensure_pool make_pool pool_size POOL =
     (case POOL of
        None \<Rightarrow> let p = make_pool pool_size in (p, Some p)
      | Some p \<Rightarrow> (p, Some p))"

lemma ensure_pool_once:
  "ensure_pool make_pool n (snd (ensure_pool make_pool' m POOL)) = ensure_pool make_pool' m POOL"
  by (simp add: ensure_pool_def Let_def split: option.split)

text \<open>A unit of work, numbered in the order of submission.\<close>

record 'p future =
  number :: nat
  arguments :: 'p
  batch :: int
  max_wait :: f64

record 'p coordinator =
  started :: f64
  pending :: "'p future list"
  submitted :: nat
  batch_size :: int
  last_activity :: f64
  waits :: "f64 list"

text \<open>
  What one iteration observes: the futures that are ready and what each returns or raises;
  at each attempt to add work the length of the pool's queue, the clock and the generator's
  arguments; and the clock at the end.
\<close>

record ('p, 'r) observation =
  ready :: "nat \<Rightarrow> bool"
  outcome :: "nat \<Rightarrow> 'r result"
  queue_size :: "nat \<Rightarrow> int"
  submit_clock :: "nat \<Rightarrow> f64"
  generator_args :: "nat \<Rightarrow> 'p"
  end_clock :: f64

definition clamped_delay :: "platform \<Rightarrow> f64 \<Rightarrow> f64 \<Rightarrow> f64 \<Rightarrow> f64 \<Rightarrow> f64" where
  "clamped_delay pf fraction lo hi elapsed =
     (let delay = fmul pf fraction elapsed;
          delay = (if flt delay lo then lo else delay);
          delay = (if flt hi delay then hi else delay)
      in delay)"

definition backoff :: "platform \<Rightarrow> f64 \<Rightarrow> 'p coordinator \<Rightarrow> 'p coordinator" where
  "backoff pf now st =
     (let delay = clamped_delay pf POLL_PROPORTIONAL_DELAY POLL_MIN_DELAY POLL_MAX_DELAY
            (fsub pf now (last_activity st))
      in st\<lparr>waits := waits st @ [delay]\<rparr>)"

definition consume_completed_futures ::
    "('p, 'r) observation \<Rightarrow> 'p coordinator \<Rightarrow> 'p future list \<times> 'p coordinator" where
  "consume_completed_futures obs st =
     (let completed = filter (\<lambda>f. ready obs (number f)) (pending st);
          active = filter (\<lambda>f. \<not> ready obs (number f)) (pending st)
      in (completed, st\<lparr>pending := active\<rparr>))"

definition add_work_unit :: "platform \<Rightarrow> f64 \<Rightarrow> 'p \<Rightarrow> 'p coordinator \<Rightarrow> 'p coordinator" where
  "add_work_unit pf now args st =
     (let delay = clamped_delay pf PROPORTIONAL_DELAY MIN_DELAY MAX_DELAY (fsub pf now (started st));
          future = \<lparr>number = submitted st, arguments = args, batch = batch_size st, max_wait = delay\<rparr>
      in st\<lparr>pending := pending st @ [future], submitted := Suc (submitted st)\<rparr>)"

definition max_waiting :: int where "max_waiting = 2"

fun fill_loop ::
    "platform \<Rightarrow> ('p, 'r) observation \<Rightarrow> nat \<Rightarrow> nat \<Rightarrow> bool \<Rightarrow> 'p coordinator \<Rightarrow> bool \<times> 'p coordinator" where
  "fill_loop pf obs 0 j changed st = (changed, st)"
| "fill_loop pf obs (Suc left) j changed st =
     (if max_waiting \<le> queue_size obs j then (changed, st)
      else fill_loop pf obs left (Suc j) True
             (add_work_unit pf (submit_clock obs j) (generator_args obs j) st))"

definition fill_pending_list ::
    "platform \<Rightarrow> int \<Rightarrow> ('p, 'r) observation \<Rightarrow> 'p coordinator \<Rightarrow> bool \<times> 'p coordinator" where
  "fill_pending_list pf cpu_count obs st =
     fill_loop pf obs (nat (POOL_SIZE cpu_count + max_waiting)) 0 False st"

text \<open>\<open>future.get(0)\<close> of each completed future in turn: the first exception wins.\<close>

fun get_all :: "('p, 'r) observation \<Rightarrow> 'p future list \<Rightarrow> 'r list result" where
  "get_all obs [] = Inr []"
| "get_all obs (f # fs) =
     bind_result (outcome obs (number f)) (\<lambda>r.
     bind_result (get_all obs fs) (\<lambda>rs. Inr (r # rs)))"

definition coordinator_step ::
    "platform \<Rightarrow> int \<Rightarrow> ('p, 'r) observation \<Rightarrow> 'p coordinator \<Rightarrow> ('r list \<times> 'p coordinator) result" where
  "coordinator_step pf cpu_count obs st =
     (let (completed, st1) = consume_completed_futures obs st
      in bind_result (get_all obs completed) (\<lambda>results.
         let any_completed = (results \<noteq> []);
             st2 = (if any_completed
                    then st1\<lparr>batch_size :=
                      min (BATCH_SIZE_GROWTH_FACTOR * batch_size st1) (MAX_BATCH_SIZE cpu_count)\<rparr>
                    else st1);
             (any_change, st3) = fill_pending_list pf cpu_count obs st2
         in Inr (results,
              if any_completed \<or> any_change then st3\<lparr>last_activity := end_clock obs\<rparr>
              else backoff pf (end_clock obs) st3)))"

definition coordinator_start ::
    "platform \<Rightarrow> int \<Rightarrow> f64 \<Rightarrow> ('p, 'r) observation \<Rightarrow> 'p coordinator" where
  "coordinator_start pf cpu_count now obs =
     snd (fill_pending_list pf cpu_count obs
       \<lparr>started = now, pending = [], submitted = 0, batch_size = INITIAL_BATCH_SIZE,
        last_activity = now, waits = []\<rparr>)"

text \<open>
  The generator over a sequence of observations, which ends where the stop event is found
  set: what it yields, and the exception it ends with.
\<close>

fun coordinator_run ::
    "platform \<Rightarrow> int \<Rightarrow> ('p, 'r) observation list \<Rightarrow> 'p coordinator \<Rightarrow> 'r gen \<times> 'p coordinator" where
  "coordinator_run pf cpu_count [] st = (Done, st)"
| "coordinator_run pf cpu_count (obs # rest) st =
     (case coordinator_step pf cpu_count obs st of
        Inl e \<Rightarrow> (Raise e, st)
      | Inr (results, st') \<Rightarrow>
          (let (g, st'') = coordinator_run pf cpu_count rest st'
           in (foldr Yield results g, st'')))"

subsection \<open>Delays and batch sizes\<close>

lemma fle_refl: "\<not> is_nan x \<Longrightarrow> fle x x"
  by (simp add: fle_def)

lemma fle_not_nan: "fle x y \<Longrightarrow> \<not> is_nan x \<and> \<not> is_nan y"
  by (simp add: fle_def)

lemma clamped_delay_range:
  assumes "fle lo hi" and "\<not> is_nan (clamped_delay pf fraction lo hi elapsed)"
  shows "fle lo (clamped_delay pf fraction lo hi elapsed)"
    and "fle (clamped_delay pf fraction lo hi elapsed) hi"
  using assms unfolding clamped_delay_def Let_def
  by (auto simp: flt_def fle_def split: if_splits)

lemma batch_size_bounds: "10 \<le> b \<Longrightarrow> 0 \<le> cpu_count \<Longrightarrow>
    10 \<le> min (BATCH_SIZE_GROWTH_FACTOR * b) (MAX_BATCH_SIZE cpu_count)"
  by (simp add: BATCH_SIZE_GROWTH_FACTOR_def MAX_BATCH_SIZE_def)

subsection \<open>Every unit of work is yielded at most once and none is lost\<close>

text \<open>\<open>ns\<close> are the units whose results were yielded.\<close>

definition accounted :: "nat list \<Rightarrow> 'p coordinator \<Rightarrow> bool" where
  "accounted ns st \<longleftrightarrow> mset ns + mset (map number (pending st)) = mset [0..<submitted st]"

definition sized :: "int \<Rightarrow> 'p coordinator \<Rightarrow> bool" where
  "sized cpu_count st \<longleftrightarrow> 10 \<le> batch_size st \<and> batch_size st \<le> MAX_BATCH_SIZE cpu_count \<and>
     (\<forall>f \<in> set (pending st). 10 \<le> batch f \<and> batch f \<le> MAX_BATCH_SIZE cpu_count)"

lemma accounted_add: "accounted ns st \<Longrightarrow> accounted ns (add_work_unit pf now args st)"
  by (simp add: accounted_def add_work_unit_def Let_def)

lemma sized_add: "sized cpu_count st \<Longrightarrow> sized cpu_count (add_work_unit pf now args st)"
  by (auto simp: sized_def add_work_unit_def Let_def)

lemma fill_loop_invariants:
  "fill_loop pf obs left j changed st = (c, st') \<Longrightarrow>
     (accounted ns st \<longrightarrow> accounted ns st') \<and> (sized cpu_count st \<longrightarrow> sized cpu_count st')"
proof (induction pf obs left j changed st rule: fill_loop.induct)
  case (2 pf obs left j changed st)
  show ?case
  proof (cases "max_waiting \<le> queue_size obs j")
    case True
    then show ?thesis using 2(2) by simp
  next
    case False
    let ?st = "add_work_unit pf (submit_clock obs j) (generator_args obs j) st"
    have step: "fill_loop pf obs left (Suc j) True ?st = (c, st')"
      using 2(2) False by simp
    show ?thesis
      using 2(1) [OF False step] accounted_add [of ns st] sized_add [of cpu_count st] by simp
  qed
qed simp

lemma get_all_outcomes:
  "get_all obs fs = Inr rs \<Longrightarrow>
     length rs = length fs \<and> (\<forall>i < length fs. outcome obs (number (fs ! i)) = Inr (rs ! i))"
proof (induction fs arbitrary: rs)
  case (Cons f fs)
  then obtain r rs' where "outcome obs (number f) = Inr r" "get_all obs fs = Inr rs'" "rs = r # rs'"
    by (auto simp: bind_result_eq_Inr_iff)
  then show ?case
    using Cons.IH by (auto simp: nth_Cons split: nat.split)
qed simp

lemma backoff_frame: "accounted ns (backoff pf now st) = accounted ns st"
  "sized cpu_count (backoff pf now st) = sized cpu_count st"
  by (simp_all add: accounted_def sized_def backoff_def Let_def)

lemma coordinator_step_invariants:
  assumes step: "coordinator_step pf cpu_count obs st = Inr (rs, st')"
    and acc: "accounted ns st" and size: "sized cpu_count st" and cpu: "0 \<le> cpu_count"
  defines "fs \<equiv> filter (\<lambda>f. ready obs (number f)) (pending st)"
  shows "accounted (ns @ map number fs) st'" and "sized cpu_count st'"
    and "get_all obs fs = Inr rs"
proof -
  let ?st1 = "st\<lparr>pending := filter (\<lambda>f. \<not> ready obs (number f)) (pending st)\<rparr>"
  obtain rs' where rs': "get_all obs fs = Inr rs'"
    using step by (auto simp: coordinator_step_def consume_completed_futures_def fs_def Let_def
        bind_result_eq_Inr_iff)
  define st2 where "st2 = (if rs' \<noteq> [] then ?st1\<lparr>batch_size :=
      min (BATCH_SIZE_GROWTH_FACTOR * batch_size ?st1) (MAX_BATCH_SIZE cpu_count)\<rparr> else ?st1)"
  obtain c st3 where fill: "fill_pending_list pf cpu_count obs st2 = (c, st3)"
    by fastforce
  have eq: "rs = rs'" "st' = (if rs' \<noteq> [] \<or> c then st3\<lparr>last_activity := end_clock obs\<rparr>
      else backoff pf (end_clock obs) st3)"
    using step rs' fill unfolding coordinator_step_def consume_completed_futures_def Let_def
      fs_def [symmetric] st2_def prod.case
    by (auto simp: Let_def)
  show "get_all obs fs = Inr rs" using rs' eq(1) by simp
  have "accounted (ns @ map number fs) st2"
  proof -
    have "mset (map number (pending st)) =
        mset (map number fs) + mset (map number (filter (\<lambda>f. \<not> ready obs (number f)) (pending st)))"
      unfolding fs_def by (simp flip: image_mset_union)
    then show ?thesis
      using acc by (simp add: accounted_def st2_def add.assoc)
  qed
  moreover have "sized cpu_count st2"
    using size batch_size_bounds [OF _ cpu, of "batch_size st"] by (auto simp: sized_def st2_def)
  ultimately have "accounted (ns @ map number fs) st3" "sized cpu_count st3"
    using fill_loop_invariants fill unfolding fill_pending_list_def by blast+
  then show "accounted (ns @ map number fs) st'" "sized cpu_count st'"
    unfolding eq by (auto simp: backoff_frame) (auto simp: accounted_def sized_def)
qed

lemma start_invariants:
  assumes "0 \<le> cpu_count"
  shows "accounted [] (coordinator_start pf cpu_count now obs)"
    and "sized cpu_count (coordinator_start pf cpu_count now obs)"
proof -
  let ?st = "\<lparr>started = now, pending = [], submitted = 0, batch_size = INITIAL_BATCH_SIZE,
    last_activity = now, waits = []\<rparr> :: 'a coordinator"
  have "accounted [] ?st" "sized cpu_count ?st"
    using assms by (simp_all add: accounted_def sized_def INITIAL_BATCH_SIZE_def MAX_BATCH_SIZE_def)
  then show "accounted [] (coordinator_start pf cpu_count now obs)"
    and "sized cpu_count (coordinator_start pf cpu_count now obs)"
    using fill_loop_invariants [of pf obs "nat (POOL_SIZE cpu_count + max_waiting)" 0 False ?st]
    unfolding coordinator_start_def fill_pending_list_def by (metis prod.collapse)+
qed

text \<open>What the generator yields: the outcomes of distinct units, in the order of completion.\<close>

lemma drain_foldr_Yield:
  "drain (foldr Yield rs g) = bind_result (drain g) (\<lambda>xs. Inr (rs @ xs))"
proof (induction rs)
  case Nil
  then show ?case by (cases "drain g") auto
next
  case (Cons r rs)
  then show ?case by (cases "drain g") auto
qed

lemma coordinator_run_accounted:
  "\<lbrakk>coordinator_run pf cpu_count obss st = (g, st'); drain g = Inr rs; accounted ns st;
     sized cpu_count st; 0 \<le> cpu_count\<rbrakk> \<Longrightarrow>
   \<exists>ms. length ms = length rs \<and> accounted (ns @ ms) st' \<and> sized cpu_count st' \<and>
     (\<forall>i < length rs. \<exists>obs \<in> set obss. ready obs (ms ! i) \<and> outcome obs (ms ! i) = Inr (rs ! i))"
proof (induction obss arbitrary: st g rs ns)
  case (Cons obs obss)
  obtain rs1 st1 where s: "coordinator_step pf cpu_count obs st = Inr (rs1, st1)"
    using Cons.prems(1,2) by (cases "coordinator_step pf cpu_count obs st") auto
  obtain g2 st2 where r: "coordinator_run pf cpu_count obss st1 = (g2, st2)"
    by fastforce
  have g: "g = foldr Yield rs1 g2" "st' = st2"
    using Cons.prems(1) s r by simp_all
  obtain rs2 where rs2: "drain g2 = Inr rs2" "rs = rs1 @ rs2"
    using Cons.prems(2) unfolding g(1) drain_foldr_Yield by (auto simp: bind_result_eq_Inr_iff)
  let ?fs = "filter (\<lambda>f. ready obs (number f)) (pending st)"
  note inv = coordinator_step_invariants [OF s Cons.prems(3,4,5)]
  have r': "coordinator_run pf cpu_count obss st1 = (g2, st')"
    using r g(2) by simp
  from Cons.IH [OF r' rs2(1) inv(1,2) Cons.prems(5)] obtain ms where
    ms: "length ms = length rs2" "accounted ((ns @ map number ?fs) @ ms) st'" "sized cpu_count st'"
      "\<forall>i < length rs2. \<exists>obs \<in> set obss. ready obs (ms ! i) \<and> outcome obs (ms ! i) = Inr (rs2 ! i)"
    by blast
  have o: "length rs1 = length ?fs" "\<forall>i < length ?fs. outcome obs (number (?fs ! i)) = Inr (rs1 ! i)"
    using get_all_outcomes [OF inv(3)] by simp_all
  have rd: "\<forall>i < length ?fs. ready obs (number (?fs ! i))"
    using nth_mem [of _ ?fs] by auto
  have all: "\<exists>obs' \<in> set (obs # obss). ready obs' ((map number ?fs @ ms) ! i) \<and>
      outcome obs' ((map number ?fs @ ms) ! i) = Inr ((rs1 @ rs2) ! i)" if "i < length (rs1 @ rs2)" for i
  proof (cases "i < length ?fs")
    case True
    then show ?thesis using o rd by (simp add: nth_append)
  next
    case False
    then have "i - length ?fs < length rs2" using that o(1) by simp
    then show ?thesis using ms(4) o(1) False by (auto simp: nth_append)
  qed
  show ?case
    using ms(1,2,3) o(1) all unfolding rs2(2)
    by (intro exI [of _ "map number ?fs @ ms"]) simp
qed (auto intro!: exI [of _ "[]"])

end
