(* ===== verification/Buffered.thy ===== *)
theory Buffered
  imports Prelude "HOL-Library.Sublist"
begin

text \<open>
  The buffered reader of several iterators (\<open>BufferedIterator\<close>, \<open>t/exact_test_sampler.py\<close>) as
  a transition system: one thread per iterator puts its values in a bounded queue, the reader
  takes them, and an event tells the threads to stop. A queued value carries the number of
  its thread, which the code does not store, so that what arrives can be compared with what
  each iterator produced; \<open>None\<close> is the end marker.
\<close>

definition BUFFER_SIZE :: nat where
  "BUFFER_SIZE = 4"

text \<open>A thread in \<open>_pull_from_iterator\<close>, by the next thing it does.\<close>

datatype 'v puller =
    Pulling "'v gen"        \<comment> \<open>take the next value of the iterator, then look at the event\<close>
  | Putting 'v "'v gen"     \<comment> \<open>\<open>self.queue.put(value)\<close>, which waits for room\<close>
  | Placed "'v gen"         \<comment> \<open>look at the event again\<close>
  | Ending                  \<comment> \<open>\<open>self.done.set()\<close>\<close>
  | Waking                  \<comment> \<open>\<open>self.queue.put_nowait(None)\<close>\<close>
  | Exited

text \<open>The reader, by where it is: in the body of its \<open>with\<close>, or in \<open>__exit__\<close>.\<close>

datatype reader =
    Reading       \<comment> \<open>in the body, free to call \<open>get\<close>\<close>
  | Closing       \<comment> \<open>\<open>self.done.set()\<close> is done, \<open>self.queue.put_nowait(None)\<close> comes next\<close>
  | Emptying      \<comment> \<open>taking what is left while it joins the threads\<close>

record 'v buffered =
  queue :: "(nat \<times> 'v) option list"
  finished :: bool
  pullers :: "'v puller list"
  reader_at :: reader
  received :: "(nat \<times> 'v) option list"
  discarded :: "(nat \<times> 'v) option list"

definition capacity :: "'v buffered \<Rightarrow> nat" where
  "capacity st = BUFFER_SIZE + 2 * length (pullers st)"

definition buffered_enter :: "'v gen list \<Rightarrow> 'v buffered" where
  "buffered_enter iterators =
     \<lparr>queue = [], finished = False, pullers = map Pulling iterators, reader_at = Reading,
      received = [], discarded = []\<rparr>"

text \<open>\<open>put_nowait\<close>, with \<open>queue.Full\<close> ignored.\<close>

definition put_nowait :: "(nat \<times> 'v) option \<Rightarrow> 'v buffered \<Rightarrow> 'v buffered" where
  "put_nowait x st = (if length (queue st) < capacity st then st\<lparr>queue := queue st @ [x]\<rparr> else st)"

text \<open>
  The two other calls of the reader: \<open>get_nowait\<close>, \<open>None\<close> for \<open>queue.Empty\<close>, and \<open>is_done\<close>, which
  reads \<open>self.worker\<close>, an attribute that no method assigns.
\<close>

definition get_nowait :: "'v buffered \<Rightarrow> ((nat \<times> 'v) option \<times> 'v buffered) option" where
  "get_nowait st =
     (case queue st of
        [] \<Rightarrow> None
      | x # q \<Rightarrow> Some (x, st\<lparr>queue := q, received := received st @ [x]\<rparr>))"

definition buffered_is_done :: "'v buffered \<Rightarrow> bool result" where
  "buffered_is_done st = (if finished st then Inr True else Inl AttributeError)"

definition set_puller :: "nat \<Rightarrow> 'v puller \<Rightarrow> 'v buffered \<Rightarrow> 'v buffered" where
  "set_puller i p st = st\<lparr>pullers := (pullers st)[i := p]\<rparr>"

inductive buffered_step :: "'v buffered \<Rightarrow> 'v buffered \<Rightarrow> bool" where
  pull: "\<lbrakk>i < length (pullers st); pullers st ! i = Pulling (Yield v g)\<rbrakk>
    \<Longrightarrow> buffered_step st (set_puller i (if finished st then Ending else Putting v g) st)"
| pull_end: "\<lbrakk>i < length (pullers st); pullers st ! i = Pulling Done\<rbrakk>
    \<Longrightarrow> buffered_step st (set_puller i Ending st)"
| pull_raise: "\<lbrakk>i < length (pullers st); pullers st ! i = Pulling (Raise e)\<rbrakk>
    \<Longrightarrow> buffered_step st (set_puller i Exited st)"
| put: "\<lbrakk>i < length (pullers st); pullers st ! i = Putting v g; length (queue st) < capacity st\<rbrakk>
    \<Longrightarrow> buffered_step st (set_puller i (Placed g) (st\<lparr>queue := queue st @ [Some (i, v)]\<rparr>))"
| placed: "\<lbrakk>i < length (pullers st); pullers st ! i = Placed g\<rbrakk>
    \<Longrightarrow> buffered_step st (set_puller i (if finished st then Ending else Pulling g) st)"
| set_done: "\<lbrakk>i < length (pullers st); pullers st ! i = Ending\<rbrakk>
    \<Longrightarrow> buffered_step st (set_puller i Waking (st\<lparr>finished := True\<rparr>))"
| wake: "\<lbrakk>i < length (pullers st); pullers st ! i = Waking\<rbrakk>
    \<Longrightarrow> buffered_step st (set_puller i Exited (put_nowait None st))"
  \<comment> \<open>The reader: \<open>get\<close>, then the two statements of \<open>__exit__\<close> and its emptying of the queue.\<close>
| get: "\<lbrakk>reader_at st = Reading; queue st = x # q\<rbrakk>
    \<Longrightarrow> buffered_step st (st\<lparr>queue := q, received := received st @ [x]\<rparr>)"
| leave: "reader_at st = Reading
    \<Longrightarrow> buffered_step st (st\<lparr>finished := True, reader_at := Closing\<rparr>)"
| leave_wake: "reader_at st = Closing
    \<Longrightarrow> buffered_step st (put_nowait None (st\<lparr>reader_at := Emptying\<rparr>))"
| discard: "\<lbrakk>reader_at st = Emptying; queue st = x # q\<rbrakk>
    \<Longrightarrow> buffered_step st (st\<lparr>queue := q, discarded := discarded st @ [x]\<rparr>)"

inductive buffered_reachable :: "'v gen list \<Rightarrow> 'v buffered \<Rightarrow> bool" for iterators where
  enter: "buffered_reachable iterators (buffered_enter iterators)"
| step: "\<lbrakk>buffered_reachable iterators st; buffered_step st st'\<rbrakk> \<Longrightarrow> buffered_reachable iterators st'"

text \<open>The reader's calls are steps, and an answer of \<open>is_done\<close> is final.\<close>

lemma get_nowait_step:
  "\<lbrakk>reader_at st = Reading; get_nowait st = Some (x, st')\<rbrakk> \<Longrightarrow> buffered_step st st'"
  by (auto simp: get_nowait_def split: list.splits intro: buffered_step.get)

lemma finished_stable: "buffered_step st st' \<Longrightarrow> finished st \<Longrightarrow> finished st'"
  by (induction rule: buffered_step.induct) (auto simp: set_puller_def put_nowait_def)

lemma buffered_is_done_stable:
  assumes "buffered_step\<^sup>*\<^sup>* st st'" "buffered_is_done st = Inr b"
  shows "buffered_is_done st' = Inr b"
  using assms by (induction rule: rtranclp_induct)
    (auto simp: buffered_is_done_def finished_stable split: if_splits)

subsection \<open>What the reader sees of an iterator\<close>

fun gen_values :: "'v gen \<Rightarrow> 'v list" where
  "gen_values Done = []"
| "gen_values (Raise e) = []"
| "gen_values (Yield v g) = v # gen_values g"

fun remaining :: "'v puller \<Rightarrow> 'v list" where
  "remaining (Pulling g) = gen_values g"
| "remaining (Putting v g) = v # gen_values g"
| "remaining (Placed g) = gen_values g"
| "remaining _ = []"

definition items_of :: "nat \<Rightarrow> (nat \<times> 'v) option list \<Rightarrow> 'v list" where
  "items_of i xs = map snd (filter (\<lambda>(j, v). j = i) (map the (filter (\<lambda>x. x \<noteq> None) xs)))"

lemma items_of_simps [simp]:
  "items_of i [] = []"
  "items_of i (None # xs) = items_of i xs"
  "items_of i (Some (j, v) # xs) = (if j = i then v # items_of i xs else items_of i xs)"
  "items_of i (xs @ ys) = items_of i xs @ items_of i ys"
  by (simp_all add: items_of_def)

text \<open>Everything that has left a thread, in order: received, discarded, still queued.\<close>

definition outgoing :: "'v buffered \<Rightarrow> (nat \<times> 'v) option list" where
  "outgoing st = received st @ discarded st @ queue st"

definition in_order :: "'v gen list \<Rightarrow> 'v buffered \<Rightarrow> bool" where
  "in_order iterators st \<longleftrightarrow>
     length (pullers st) = length iterators \<and> length (queue st) \<le> capacity st \<and>
     (reader_at st \<noteq> Emptying \<longrightarrow> discarded st = []) \<and>
     (\<forall>i < length iterators.
        prefix (items_of i (outgoing st) @ remaining (pullers st ! i)) (gen_values (iterators ! i)))"

lemma in_order_enter: "in_order iterators (buffered_enter iterators)"
  by (simp add: in_order_def buffered_enter_def outgoing_def)

lemma prefix_drop_rest: "prefix (xs @ ys) zs \<Longrightarrow> prefix xs zs"
  by (metis append_prefixD)

text \<open>Steps of a thread that put nothing in the queue.\<close>

lemma in_order_quiet:
  assumes "in_order iterators st" "i < length (pullers st)"
    and "remaining p = remaining (pullers st ! i) \<or> remaining p = []"
  shows "in_order iterators (set_puller i p st)"
proof -
  have "prefix (items_of j (outgoing st) @ remaining ((pullers st)[i := p] ! j)) (gen_values (iterators ! j))"
    if "j < length iterators" for j
  proof -
    have "prefix (items_of j (outgoing st) @ remaining (pullers st ! j)) (gen_values (iterators ! j))"
      using assms(1) that by (simp add: in_order_def)
    then show ?thesis
      using assms(2,3) prefix_drop_rest by (cases "j = i") fastforce+
  qed
  then show ?thesis
    using assms(1) by (simp add: in_order_def set_puller_def outgoing_def capacity_def)
qed

lemma in_order_put_nowait: "in_order iterators st \<Longrightarrow> in_order iterators (put_nowait None st)"
  by (auto simp: in_order_def put_nowait_def outgoing_def capacity_def)

lemma in_order_finished: "in_order iterators st \<Longrightarrow> in_order iterators (st\<lparr>finished := True\<rparr>)"
  by (simp add: in_order_def outgoing_def capacity_def)

lemma in_order_step:
  assumes "buffered_step st st'" "in_order iterators st"
  shows "in_order iterators st'"
  using assms
proof cases
  case (pull i v g)
  then show ?thesis
    using assms(2) by (auto intro!: in_order_quiet)
next
  case (put i v g)
  then show ?thesis
    using assms(2)
    by (auto simp: in_order_def set_puller_def outgoing_def capacity_def nth_list_update)
next
  case (set_done i)
  then show ?thesis
    using in_order_quiet [OF in_order_finished [OF assms(2)], of i Waking] by simp
next
  case (wake i)
  then show ?thesis
    using in_order_quiet [OF in_order_put_nowait [OF assms(2)], of i Exited]
    by (auto simp: put_nowait_def)
next
  case (get x q)
  then show ?thesis
    using assms(2) by (auto simp: in_order_def outgoing_def capacity_def)
next
  case leave
  then show ?thesis
    using assms(2) by (auto simp: in_order_def outgoing_def capacity_def)
next
  case leave_wake
  have "in_order iterators (st\<lparr>reader_at := Emptying\<rparr>)"
    using assms(2) by (simp add: in_order_def outgoing_def capacity_def)
  then show ?thesis
    using leave_wake(1) in_order_put_nowait by simp
next
  case (discard x q)
  then show ?thesis
    using assms(2) by (auto simp: in_order_def outgoing_def capacity_def)
qed (use assms(2) in \<open>auto intro!: in_order_quiet\<close>)

lemma buffered_reachable_in_order: "buffered_reachable iterators st \<Longrightarrow> in_order iterators st"
  by (induction rule: buffered_reachable.induct) (auto intro: in_order_enter in_order_step)

lemma received_prefix:
  assumes "buffered_reachable iterators st" "i < length iterators"
  shows "prefix (items_of i (received st)) (gen_values (iterators ! i))"
    and "length (queue st) \<le> BUFFER_SIZE + 2 * length iterators"
proof -
  have o: "in_order iterators st"
    using buffered_reachable_in_order [OF assms(1)] .
  then have "prefix (items_of i (outgoing st) @ remaining (pullers st ! i)) (gen_values (iterators ! i))"
    using assms(2) by (simp add: in_order_def)
  then show "prefix (items_of i (received st)) (gen_values (iterators ! i))"
    unfolding outgoing_def items_of_simps append_assoc by (rule prefix_drop_rest)
  show "length (queue st) \<le> BUFFER_SIZE + 2 * length iterators"
    using o by (simp add: in_order_def capacity_def)
qed

subsection \<open>The reader may wait for ever\<close>

text \<open>
  A reader that takes items until it sees the end marker is stuck when the queue is empty,
  every thread has exited and no marker came. A thread drops its marker when the queue is
  full at that moment.
\<close>

definition stuck :: "'v buffered \<Rightarrow> bool" where
  "stuck st \<longleftrightarrow> reader_at st = Reading \<and> queue st = [] \<and> None \<notin> set (received st) \<and>
     (\<forall>p \<in> set (pullers st). p = Exited)"

lemma buffered_steps:
  assumes "buffered_reachable iterators st" "buffered_step\<^sup>*\<^sup>* st st'"
  shows "buffered_reachable iterators st'"
  using assms(2,1) by (induction rule: rtranclp_induct) (auto intro: buffered_reachable.step)

text \<open>One thread fills the queue.\<close>

definition filling :: "'v list \<Rightarrow> 'v gen \<Rightarrow> 'v buffered" where
  "filling vs g =
     \<lparr>queue = map (\<lambda>v. Some (0, v)) vs, finished = False, pullers = [Pulling g], reader_at = Reading,
      received = [], discarded = []\<rparr>"

lemma filling_step:
  assumes "length vs < BUFFER_SIZE + 2"
  shows "buffered_step\<^sup>*\<^sup>* (filling vs (Yield v g)) (filling (vs @ [v]) g)"
proof -
  let ?s = "filling vs (Yield v g)"
  let ?a = "set_puller 0 (Putting v g) ?s"
  let ?b = "set_puller 0 (Placed g) (?a\<lparr>queue := queue ?a @ [Some (0, v)]\<rparr>)"
  have "buffered_step ?s ?a"
    using buffered_step.pull [of 0 ?s v g] by (simp add: filling_def)
  moreover have "buffered_step ?a ?b"
    using assms by (intro buffered_step.put) (simp_all add: filling_def set_puller_def capacity_def)
  moreover have "buffered_step ?b (filling (vs @ [v]) g)"
    using buffered_step.placed [of 0 ?b g] by (simp add: filling_def set_puller_def)
  ultimately show ?thesis by (meson converse_rtranclp_into_rtranclp r_into_rtranclp)
qed

lemma filling_steps:
  "length vs + length ws \<le> BUFFER_SIZE + 2 \<Longrightarrow>
     buffered_step\<^sup>*\<^sup>* (filling vs (foldr Yield ws g)) (filling (vs @ ws) g)"
proof (induction ws arbitrary: vs)
  case (Cons w ws)
  have "buffered_step\<^sup>*\<^sup>* (filling vs (Yield w (foldr Yield ws g))) (filling (vs @ [w]) (foldr Yield ws g))"
    using Cons.prems by (intro filling_step) simp
  also have "buffered_step\<^sup>*\<^sup>* \<dots> (filling ((vs @ [w]) @ ws) g)"
    using Cons.prems by (intro Cons.IH) simp
  finally show ?case by simp
qed simp

definition drained :: "(nat \<times> 'v) option list \<Rightarrow> (nat \<times> 'v) option list \<Rightarrow> 'v buffered" where
  "drained got q =
     \<lparr>queue = q, finished = True, pullers = [Exited], reader_at = Reading, received = got, discarded = []\<rparr>"

lemma drained_steps: "buffered_step\<^sup>*\<^sup>* (drained got q) (drained (got @ q) [])"
proof (induction q arbitrary: got)
  case (Cons x q)
  have "buffered_step (drained got (x # q)) (drained (got @ [x]) q)"
    using buffered_step.get [of "drained got (x # q)" x q] by (simp add: drained_def)
  also have "buffered_step\<^sup>*\<^sup>* \<dots> (drained ((got @ [x]) @ q) [])"
    by (rule Cons.IH)
  finally show ?case by simp
qed simp

lemma lost_wakeup:
  assumes "length vs = BUFFER_SIZE + 2"
  shows "\<exists>st. buffered_reachable [foldr Yield vs Done] st \<and> stuck st \<and>
    items_of 0 (received st) = vs"
proof -
  let ?q = "map (\<lambda>v. Some (0::nat, v)) vs"
  let ?full = "filling vs Done"
  let ?ended = "set_puller 0 Ending ?full"
  let ?waking = "set_puller 0 Waking (?ended\<lparr>finished := True\<rparr>)"
  have "buffered_reachable [foldr Yield vs Done] (filling [] (foldr Yield vs Done))"
    using buffered_reachable.enter [of "[foldr Yield vs Done]"]
    by (simp add: filling_def buffered_enter_def)
  then have full: "buffered_reachable [foldr Yield vs Done] ?full"
    using filling_steps [of "[]" vs Done] assms buffered_steps by fastforce
  have "buffered_step ?full ?ended"
    by (intro buffered_step.pull_end) (simp_all add: filling_def)
  moreover have "buffered_step ?ended ?waking"
    by (intro buffered_step.set_done) (simp_all add: filling_def set_puller_def)
  moreover have "buffered_step ?waking (drained [] ?q)"
    using buffered_step.wake [of 0 ?waking] assms
    by (simp add: filling_def set_puller_def put_nowait_def capacity_def drained_def)
  moreover have "buffered_step\<^sup>*\<^sup>* (drained [] ?q) (drained ?q [])"
    using drained_steps [of "[]" ?q] by simp
  ultimately have "buffered_step\<^sup>*\<^sup>* ?full (drained ?q [])"
    by (meson converse_rtranclp_into_rtranclp)
  then have r: "buffered_reachable [foldr Yield vs Done] (drained ?q [])"
    by (rule buffered_steps [OF full])
  have "items_of 0 ?q = vs"
    by (induction vs) auto
  moreover have "stuck (drained ?q [])"
    by (auto simp: stuck_def drained_def)
  ultimately show ?thesis
    using r by (intro exI [of _ "drained ?q []"]) (simp add: drained_def)
qed

end
