(* ===== verification/Sampler_Data.thy ===== *)
theory Sampler_Data
  imports Results "HOL-Library.Multiset"
begin

text \<open>
  Samples, statistics and their computation (\<open>Sample\<close>, \<open>Statistic\<close>, \<open>actual_data_results\<close> and
  \<open>_resampled_data_results_1\<close>, \<open>t/exact_test_sampler.py\<close>; the constructors of statistics and
  \<open>_group_statistics_in_plan\<close>, \<open>t/exact_test.py\<close>). The functions of the C library \<open>exact.so\<close>
  are a parameter.
\<close>

subsection \<open>Ordered dicts\<close>

text \<open>
  \<open>d[k] = f(d[k])\<close> on a \<open>defaultdict\<close> with default \<open>z\<close>: the entry keeps its place, a new one
  goes to the end. Keys are compared with \<open>eq\<close>.
\<close>

fun default_update :: "('k \<Rightarrow> 'k \<Rightarrow> bool) \<Rightarrow> 'k \<Rightarrow> 'v \<Rightarrow> ('v \<Rightarrow> 'v) \<Rightarrow> ('k \<times> 'v) list \<Rightarrow> ('k \<times> 'v) list" where
  "default_update eq k z f [] = [(k, f z)]"
| "default_update eq k z f ((k', v) # d) =
     (if eq k' k then (k', f v) # d else (k', v) # default_update eq k z f d)"

subsection \<open>Samples and statistics\<close>

record sample =
  a_class :: "int list"
  b_class :: "int list"

record statistic =
  name :: string
  probability_a_lower :: f64
  a_offset :: int
  b_offset :: int
  fn_name :: string
  fn_args :: "f64 list"

text \<open>
  The constructors replace the name and the function of \<open>DEFAULT_STATISTIC\<close>, which are \<open>None\<close>
  there; the definition takes them as arguments instead.
\<close>

definition DEFAULT_STATISTIC :: "string \<Rightarrow> string \<Rightarrow> statistic" where
  "DEFAULT_STATISTIC nm fn = \<lparr>name = nm, probability_a_lower = f_half, a_offset = 0, b_offset = 0,
     fn_name = fn, fn_args = []\<rparr>"

definition lte_prob :: "string \<Rightarrow> f64 \<Rightarrow> int \<Rightarrow> int \<Rightarrow> statistic" where
  "lte_prob nm p_a_lower a_off b_off = (DEFAULT_STATISTIC nm ''exact_test_lte_prob'')
     \<lparr>probability_a_lower := p_a_lower, a_offset := a_off, b_offset := b_off, fn_args := []\<rparr>"

definition gt_prob :: "string \<Rightarrow> f64 \<Rightarrow> int \<Rightarrow> int \<Rightarrow> statistic" where
  "gt_prob nm p_a_lower a_off b_off = (DEFAULT_STATISTIC nm ''exact_test_gt_prob'')
     \<lparr>probability_a_lower := p_a_lower, a_offset := a_off, b_offset := b_off, fn_args := []\<rparr>"

definition mean :: "string \<Rightarrow> f64 \<Rightarrow> f64 \<Rightarrow> int \<Rightarrow> int \<Rightarrow> statistic" where
  "mean nm truncate_tails p_a_lower a_off b_off = (DEFAULT_STATISTIC nm ''exact_test_truncated_mean_diff'')
     \<lparr>probability_a_lower := p_a_lower, a_offset := a_off, b_offset := b_off, fn_args := [truncate_tails]\<rparr>"

definition quantile :: "string \<Rightarrow> f64 \<Rightarrow> f64 \<Rightarrow> int \<Rightarrow> int \<Rightarrow> statistic" where
  "quantile nm q p_a_lower a_off b_off = (DEFAULT_STATISTIC nm ''exact_test_quantile_diff'')
     \<lparr>probability_a_lower := p_a_lower, a_offset := a_off, b_offset := b_off, fn_args := [q]\<rparr>"

definition median :: "string \<Rightarrow> f64 \<Rightarrow> int \<Rightarrow> int \<Rightarrow> statistic" where
  "median nm p_a_lower a_off b_off = quantile nm f_half p_a_lower a_off b_off"

definition q99 :: "string \<Rightarrow> f64 \<Rightarrow> int \<Rightarrow> int \<Rightarrow> statistic" where
  "q99 nm p_a_lower a_off b_off = quantile nm (literal 99 100) p_a_lower a_off b_off"

subsection \<open>The plan\<close>

text \<open>
  Statistics grouped by probability, then by offsets. Dict keys that are floats are the same
  when they compare equal or are one object; two NaNs are taken for one object when they have
  the same bits. \<open>undefaultdict\<close> changes the type of the dicts and nothing else.
\<close>

type_synonym offsets = "int \<times> int"
type_synonym plan = "(f64 \<times> (offsets \<times> statistic list) list) list"

definition same_float :: "f64 \<Rightarrow> f64 \<Rightarrow> bool" where
  "same_float x y \<longleftrightarrow> x = y \<or> feq x y"

definition plan_append :: "plan \<Rightarrow> statistic \<Rightarrow> plan" where
  "plan_append plan stat =
     (let p_a_lower = probability_a_lower stat;
          offs = (a_offset stat, b_offset stat)
      in default_update same_float p_a_lower []
           (default_update (=) offs [] (\<lambda>stats. stats @ [stat])) plan)"

definition group_statistics_in_plan :: "statistic list \<Rightarrow> plan" where
  "group_statistics_in_plan statistics = foldl plan_append [] statistics"

text \<open>The statistics of a plan, in the order in which they are computed.\<close>

definition plan_statistics :: "plan \<Rightarrow> statistic list" where
  "plan_statistics plan = concat (map (\<lambda>(p, groups). concat (map snd groups)) plan)"

definition plan_names :: "plan \<Rightarrow> string set" where
  "plan_names plan = name ` set (plan_statistics plan)"

text \<open>A plan whose offsets are 64-bit numbers, which it is when those of its statistics are.\<close>

definition offsets_fit :: "plan \<Rightarrow> bool" where
  "offsets_fit plan \<longleftrightarrow> list_all (\<lambda>(p, groups). list_all (\<lambda>((a_off, b_off), stats). u64 a_off \<and> u64 b_off) groups) plan"

lemma offsets_fit_simps [simp]:
  "offsets_fit []"
  "offsets_fit ((p, groups) # plan) \<longleftrightarrow>
     list_all (\<lambda>((a_off, b_off), stats). u64 a_off \<and> u64 b_off) groups \<and> offsets_fit plan"
  by (simp_all add: offsets_fit_def)

lemma default_update_all:
  assumes "list_all Q d" "Q (k, f z)" "\<And>k' v. Q (k', v) \<Longrightarrow> Q (k', f v)"
  shows "list_all Q (default_update eq k z f d)"
  using assms(1)
proof (induction d)
  case (Cons q d)
  then show ?case
    by (cases q) (simp add: assms(3))
qed (simp add: assms(2))

lemma plan_append_fits:
  assumes "offsets_fit plan" "u64 (a_offset stat)" "u64 (b_offset stat)"
  shows "offsets_fit (plan_append plan stat)"
  using assms unfolding offsets_fit_def plan_append_def Let_def
  by (intro default_update_all) (auto intro: default_update_all)

lemma group_statistics_fit:
  assumes "\<forall>stat \<in> set statistics. u64 (a_offset stat) \<and> u64 (b_offset stat)"
  shows "offsets_fit (group_statistics_in_plan statistics)"
  using assms unfolding group_statistics_in_plan_def
  by (induction statistics rule: rev_induct) (simp_all add: plan_append_fits)

subsection \<open>Computing statistics\<close>

text \<open>
  What the Python uses of \<open>exact.so\<close>, over the state \<open>'x\<close> of its pseudo-random generator: a
  generator made after seeding, a shuffle that may fail with a message, the sort that applies
  the offsets, and the statistics by name (with the exception of a call that fails).
\<close>

record 'x exact_lib =
  prng_create :: "int \<Rightarrow> 'x"
  exact_shuffle :: "'x \<Rightarrow> int list \<Rightarrow> nat \<Rightarrow> nat \<Rightarrow> f64 \<Rightarrow> (string + int list) \<times> 'x"
  offset_sort :: "'x \<Rightarrow> int list \<Rightarrow> nat \<Rightarrow> nat \<Rightarrow> int \<Rightarrow> int \<Rightarrow> int list \<times> 'x"
  statistic_fn :: "string \<Rightarrow> int list \<Rightarrow> nat \<Rightarrow> nat \<Rightarrow> f64 list \<Rightarrow> f64 result"

definition make_buf :: "sample \<Rightarrow> int list result" where
  "make_buf s =
     (let xs = a_class s @ b_class s
      in if list_all u64 xs then Inr xs else Inl OverflowError)"

fun compute_statistics ::
    "'x exact_lib \<Rightarrow> int list \<Rightarrow> nat \<Rightarrow> nat \<Rightarrow> statistic list \<Rightarrow> f64 dict \<Rightarrow> f64 dict result" where
  "compute_statistics ex buf m n [] results = Inr results"
| "compute_statistics ex buf m n (stat # stats) results =
     bind_result (statistic_fn ex (fn_name stat) buf m n (fn_args stat)) (\<lambda>value.
       compute_statistics ex buf m n stats (AList.update (name stat) value results))"

definition actual_data_results :: "'x exact_lib \<Rightarrow> 'x \<Rightarrow> sample \<Rightarrow> statistic list \<Rightarrow> f64 dict result" where
  "actual_data_results ex xoshiro s statistics =
     bind_result (make_buf s) (\<lambda>buf.
     let m = length (a_class s); n = length (b_class s);
         (copy, xoshiro') = offset_sort ex xoshiro buf m n 0 0
     in compute_statistics ex copy m n statistics [])"

text \<open>\<open>cffi\<close> converts the two offsets to \<open>uint64_t\<close>, and raises when one does not fit.\<close>

fun compute_groups ::
    "'x exact_lib \<Rightarrow> int list \<Rightarrow> nat \<Rightarrow> nat \<Rightarrow> (offsets \<times> statistic list) list \<Rightarrow> 'x \<Rightarrow> f64 dict
      \<Rightarrow> (f64 dict \<times> 'x) result" where
  "compute_groups ex shuffled m n [] xoshiro results = Inr (results, xoshiro)"
| "compute_groups ex shuffled m n (((a_off, b_off), stats) # groups) xoshiro results =
     (if \<not> u64 a_off \<or> \<not> u64 b_off then Inl OverflowError
      else
        let (sorted, xoshiro') = offset_sort ex xoshiro shuffled m n a_off b_off
        in bind_result (compute_statistics ex sorted m n stats results) (\<lambda>results'.
             compute_groups ex shuffled m n groups xoshiro' results'))"

fun compute_results ::
    "'x exact_lib \<Rightarrow> int list \<Rightarrow> nat \<Rightarrow> nat \<Rightarrow> plan \<Rightarrow> 'x \<Rightarrow> f64 dict \<Rightarrow> (f64 dict \<times> 'x) result" where
  "compute_results ex buf m n [] xoshiro results = Inr (results, xoshiro)"
| "compute_results ex buf m n ((p_a_lt, groups) # rest) xoshiro results =
     (case exact_shuffle ex xoshiro buf m n p_a_lt of
        (Inl message, xoshiro') \<Rightarrow> Inl PlainException
      | (Inr shuffled, xoshiro') \<Rightarrow>
          bind_result (compute_groups ex shuffled m n groups xoshiro' results) (\<lambda>(results', xoshiro'').
            compute_results ex buf m n rest xoshiro'' results'))"

text \<open>The generator: not started, with the seed it will draw, or suspended in its loop.\<close>

datatype 'x resampler = Unstarted int | Suspended "int list" 'x

definition resample ::
    "'x exact_lib \<Rightarrow> sample \<Rightarrow> plan \<Rightarrow> int list \<Rightarrow> 'x \<Rightarrow> (f64 dict, 'x resampler) pull" where
  "resample ex s grouped_statistics buf xoshiro =
     (case compute_results ex buf (length (a_class s)) (length (b_class s)) grouped_statistics xoshiro [] of
        Inl e \<Rightarrow> Raised e
      | Inr (results, xoshiro') \<Rightarrow> Got results (Suspended buf xoshiro'))"

fun resampled_data_results_1 ::
    "'x exact_lib \<Rightarrow> sample \<Rightarrow> plan \<Rightarrow> 'x resampler \<Rightarrow> (f64 dict, 'x resampler) pull" where
  "resampled_data_results_1 ex s grouped_statistics (Unstarted seed) =
     (case make_buf s of
        Inl e \<Rightarrow> Raised e
      | Inr buf \<Rightarrow> resample ex s grouped_statistics buf (prng_create ex seed))"
| "resampled_data_results_1 ex s grouped_statistics (Suspended buf xoshiro) =
     resample ex s grouped_statistics buf xoshiro"

subsection \<open>Dicts whose keys are compared by an equivalence\<close>

locale key_equality =
  fixes eq :: "'k \<Rightarrow> 'k \<Rightarrow> bool"
  assumes equiv: "equivp eq"
begin

lemma eq_refl [simp]: "eq k k"
  using equiv by (rule equivp_reflp)

lemma eq_sym: "eq k l \<Longrightarrow> eq l k"
  using equiv by (rule equivp_symp)

lemma eq_trans: "eq k l \<Longrightarrow> eq l m \<Longrightarrow> eq k m"
  using equiv by (rule equivp_transp)

definition apart :: "('k \<times> 'v) list \<Rightarrow> bool" where
  "apart d \<longleftrightarrow> sorted_wrt (\<lambda>p q. \<not> eq (fst p) (fst q)) d"

lemma apart_simps [simp]: "apart []" "apart (p # d) \<longleftrightarrow> (\<forall>q \<in> set d. \<not> eq (fst p) (fst q)) \<and> apart d"
  by (simp_all add: apart_def)

text \<open>The entries after an update: the others are kept, the one of the key is replaced or added.\<close>

definition has_key :: "'k \<Rightarrow> ('k \<times> 'v) list \<Rightarrow> bool" where
  "has_key k d \<longleftrightarrow> (\<exists>q \<in> set d. eq (fst q) k)"

lemma update_entries:
  "apart d \<Longrightarrow> (k', v') \<in> set (default_update eq k z f d) \<longleftrightarrow>
     (if eq k' k then (\<exists>v. (k', v) \<in> set d \<and> v' = f v) \<or> \<not> has_key k d \<and> k' = k \<and> v' = f z
      else (k', v') \<in> set d)"
proof (induction d)
  case (Cons p d)
  obtain l v where p: "p = (l, v)" by fastforce
  have other: "\<not> eq k1 k" if "eq l k" "(k1, v1) \<in> set d" for k1 v1
  proof
    assume "eq k1 k"
    then have "eq l k1"
      using eq_trans [OF that(1) eq_sym] by blast
    then show False
      using Cons.prems that(2) p by auto
  qed
  show ?case
  proof (cases "eq l k")
    case True
    then show ?thesis
      using other [OF True] p by (auto simp: has_key_def)
  next
    case False
    then show ?thesis
      using Cons p by (auto simp: has_key_def)
  qed
qed (auto simp: has_key_def)

lemma apart_unique: "\<lbrakk>apart d; q \<in> set d; r \<in> set d; eq (fst q) (fst r)\<rbrakk> \<Longrightarrow> q = r"
proof (induction d)
  case (Cons p d)
  then show ?case
    using eq_sym [of "fst q" "fst r"] by auto
qed simp

lemma apart_update: "apart d \<Longrightarrow> apart (default_update eq k z f d)"
proof (induction d)
  case (Cons p d)
  obtain l v where p: "p = (l, v)" by fastforce
  have "\<not> eq l k'" if "\<not> eq l k" "(k', v') \<in> set (default_update eq k z f d)" for k' v'
  proof -
    have "eq k' k \<or> (k', v') \<in> set d"
      using update_entries [of d k' v' k z f] Cons.prems that(2) by (auto split: if_splits)
    then show ?thesis
      using that(1) Cons.prems p eq_trans [of l k' k] by auto
  qed
  then show ?case
    using Cons p by auto
qed simp

end

definition float_key :: "f64 \<Rightarrow> f64 + int" where
  "float_key x = (if is_nan x then Inl x else Inr (order_key x))"

lemma same_float_key: "same_float x y \<longleftrightarrow> float_key x = float_key y"
  by (cases "x = y") (auto simp: same_float_def feq_def float_key_def)

lemma same_float_equivp: "equivp same_float"
  by (rule equivpI) (simp_all add: same_float_key reflp_def symp_def transp_def)

interpretation float_keys: key_equality same_float
  by unfold_locales (rule same_float_equivp)

interpretation plain_keys: key_equality "(=) :: 'k \<Rightarrow> 'k \<Rightarrow> bool"
  by unfold_locales (rule identity_equivp)

subsection \<open>Grouping keeps every statistic, once\<close>

lemma plan_append_statistics:
  "mset (plan_statistics (plan_append plan stat)) = add_mset stat (mset (plan_statistics plan))"
proof -
  have inner: "mset (concat (map snd (default_update (=) offs [] (\<lambda>stats. stats @ [stat]) groups))) =
      add_mset stat (mset (concat (map snd groups)))" for offs groups
    by (induction groups) auto
  have "mset (plan_statistics (default_update eq p [] (default_update (=) offs [] (\<lambda>stats. stats @ [stat])) plan)) =
      add_mset stat (mset (plan_statistics plan))" for eq p offs
    by (induction plan) (auto simp: plan_statistics_def inner)
  then show ?thesis
    by (simp add: plan_append_def)
qed

lemma group_statistics_mset: "mset (plan_statistics (group_statistics_in_plan statistics)) = mset statistics"
proof (induction statistics rule: rev_induct)
  case (snoc stat statistics)
  then show ?case
    by (simp add: group_statistics_in_plan_def plan_append_statistics)
qed (simp add: group_statistics_in_plan_def plan_statistics_def)

lemma plan_names_group: "plan_names (group_statistics_in_plan statistics) = name ` set statistics"
  using group_statistics_mset [of statistics] mset_eq_setD by (auto simp: plan_names_def)

text \<open>
  The groups: keys are apart, and a group is the sublist of the statistics that share its
  probability and offsets, in the order given.
\<close>

definition group_members :: "f64 \<Rightarrow> offsets \<Rightarrow> statistic list \<Rightarrow> statistic list" where
  "group_members p offs statistics =
     filter (\<lambda>s. same_float p (probability_a_lower s) \<and> offs = (a_offset s, b_offset s)) statistics"

definition well_grouped :: "statistic list \<Rightarrow> plan \<Rightarrow> bool" where
  "well_grouped statistics plan \<longleftrightarrow> float_keys.apart plan \<and>
     (\<forall>(p, groups) \<in> set plan. distinct (map fst groups) \<and>
        (\<forall>(offs, stats) \<in> set groups. stats \<noteq> [] \<and> stats = group_members p offs statistics))"

lemma well_grouped_covers:
  assumes "well_grouped statistics plan" "mset (plan_statistics plan) = mset statistics"
    and "s \<in> set statistics"
  obtains p groups stats where "(p, groups) \<in> set plan" "same_float p (probability_a_lower s)"
    "((a_offset s, b_offset s), stats) \<in> set groups"
proof -
  have "s \<in> set (plan_statistics plan)"
    using assms(2,3) mset_eq_setD by blast
  then obtain p groups offs stats where g: "(p, groups) \<in> set plan" "(offs, stats) \<in> set groups" "s \<in> set stats"
    by (auto simp: plan_statistics_def)
  then have "stats = group_members p offs statistics"
    using assms(1) by (fastforce simp: well_grouped_def)
  then show ?thesis
    using that g by (auto simp: group_members_def)
qed

lemma members_snoc:
  "group_members p offs (statistics @ [stat]) = group_members p offs statistics @
     (if same_float p (probability_a_lower stat) \<and> offs = (a_offset stat, b_offset stat) then [stat] else [])"
  by (simp add: group_members_def)

lemma plain_apart: "plain_keys.apart d \<longleftrightarrow> distinct (map fst d)"
  by (induction d) force+

lemma no_members:
  assumes wf: "well_grouped statistics plan" "mset (plan_statistics plan) = mset statistics"
    and g: "(p, groups) \<in> set plan \<or> \<not> float_keys.has_key q plan \<and> p = q \<and> groups = []"
    and p: "same_float p q" and o: "\<not> plain_keys.has_key offs groups"
  shows "group_members p offs statistics = []"
proof (rule ccontr)
  assume "group_members p offs statistics \<noteq> []"
  then obtain s where s: "s \<in> set statistics" "same_float p (probability_a_lower s)"
    "offs = (a_offset s, b_offset s)"
    by (auto simp: group_members_def filter_empty_conv)
  obtain p' groups' stats where c: "(p', groups') \<in> set plan" "same_float p' (probability_a_lower s)"
    "(offs, stats) \<in> set groups'"
    using well_grouped_covers [OF wf s(1)] s(3) by metis
  have pp: "same_float p p'" "same_float p' q"
    using s(2) c(2) p by (simp_all add: same_float_key)
  then have "(p, groups) \<in> set plan"
    using g c(1) by (auto simp: float_keys.has_key_def)
  then have "groups = groups'"
    using float_keys.apart_unique [of plan "(p, groups)" "(p', groups')"] wf(1) c(1) pp(1)
    by (simp add: well_grouped_def)
  then show False
    using o c(3) by (auto simp: plain_keys.has_key_def)
qed

text \<open>Adding a statistic to the groups of its probability.\<close>

lemma group_update_members:
  fixes stat defines "key \<equiv> (a_offset stat, b_offset stat)"
  assumes d: "plain_keys.apart groups" and p: "same_float p (probability_a_lower stat)"
    and old: "\<And>offs st. (offs, st) \<in> set groups \<Longrightarrow> st \<noteq> [] \<and> st = group_members p offs statistics"
    and new: "\<not> plain_keys.has_key key groups \<Longrightarrow> group_members p key statistics = []"
    and mem: "(offs, stats) \<in> set (default_update (=) key [] (\<lambda>stats. stats @ [stat]) groups)"
  shows "stats \<noteq> [] \<and> stats = group_members p offs (statistics @ [stat])"
proof (cases "offs = key")
  case True
  then have "(\<exists>st. (offs, st) \<in> set groups \<and> stats = st @ [stat]) \<or>
      \<not> plain_keys.has_key key groups \<and> stats = [stat]"
    using mem plain_keys.update_entries [OF d, of offs stats key "[]" "\<lambda>stats. stats @ [stat]"] by auto
  then show ?thesis
    using old new p True by (auto simp: members_snoc key_def)
next
  case False
  then have "(offs, stats) \<in> set groups"
    using mem plain_keys.update_entries [OF d, of offs stats key "[]" "\<lambda>stats. stats @ [stat]"] by simp
  then show ?thesis
    using old False by (auto simp: members_snoc key_def)
qed

lemma plan_append_entry:
  fixes stat defines "p' \<equiv> probability_a_lower stat" and "key \<equiv> (a_offset stat, b_offset stat)"
  defines "add \<equiv> default_update (=) key [] (\<lambda>stats. stats @ [stat])"
  assumes ap: "float_keys.apart plan" and mem: "(p, groups) \<in> set (plan_append plan stat)" and same: "same_float p p'"
  obtains gs where "groups = add gs" "(p, gs) \<in> set plan \<or> \<not> float_keys.has_key p' plan \<and> p = p' \<and> gs = []"
proof -
  have "(p, groups) \<in> set (default_update same_float p' [] add plan)"
    using mem by (simp add: plan_append_def Let_def add_def key_def p'_def)
  then have "(\<exists>gs. (p, gs) \<in> set plan \<and> groups = add gs) \<or>
      \<not> float_keys.has_key p' plan \<and> p = p' \<and> groups = add []"
    by (simp only: float_keys.update_entries [OF ap] same if_True)
  then show ?thesis
    using that by blast
qed

lemma well_grouped_entry:
  assumes wf: "well_grouped statistics plan" "mset (plan_statistics plan) = mset statistics"
    and mem: "(p, groups) \<in> set (plan_append plan stat)"
  shows "distinct (map fst groups) \<and>
    (\<forall>(offs, stats) \<in> set groups. stats \<noteq> [] \<and> stats = group_members p offs (statistics @ [stat]))"
proof (cases "same_float p (probability_a_lower stat)")
  case True
  let ?p = "probability_a_lower stat" and ?o = "(a_offset stat, b_offset stat)"
  have ap: "float_keys.apart plan"
    using wf(1) by (simp add: well_grouped_def)
  obtain gs where gs: "groups = default_update (=) ?o [] (\<lambda>stats. stats @ [stat]) gs"
    "(p, gs) \<in> set plan \<or> \<not> float_keys.has_key ?p plan \<and> p = ?p \<and> gs = []"
    using plan_append_entry [OF ap mem True] .
  have d: "plain_keys.apart gs"
    using gs(2) wf(1) plain_apart by (fastforce simp: well_grouped_def)
  have old: "st \<noteq> [] \<and> st = group_members p offs statistics" if "(offs, st) \<in> set gs" for offs st
    using gs(2) wf(1) that by (fastforce simp: well_grouped_def)
  have "distinct (map fst groups)"
    using plain_keys.apart_update [OF d] plain_apart unfolding gs(1) by blast
  moreover have "stats \<noteq> [] \<and> stats = group_members p offs (statistics @ [stat])"
    if "(offs, stats) \<in> set groups" for offs stats
    using group_update_members [OF d True old no_members [OF wf gs(2) True] that [unfolded gs(1)]] .
  ultimately show ?thesis
    by blast
next
  case False
  have "float_keys.apart plan"
    using wf(1) by (simp add: well_grouped_def)
  then have "(p, groups) \<in> set plan"
    using mem False by (simp add: plan_append_def float_keys.update_entries)
  then show ?thesis
    using wf(1) False by (fastforce simp: well_grouped_def members_snoc)
qed

lemma well_grouped_append:
  assumes wf: "well_grouped statistics plan" "mset (plan_statistics plan) = mset statistics"
  shows "well_grouped (statistics @ [stat]) (plan_append plan stat)"
proof -
  have "float_keys.apart plan"
    using wf(1) by (simp add: well_grouped_def)
  then have "float_keys.apart (plan_append plan stat)"
    using float_keys.apart_update by (simp add: plan_append_def)
  moreover have "case q of (p, groups) \<Rightarrow> distinct (map fst groups) \<and>
      (\<forall>(offs, stats) \<in> set groups. stats \<noteq> [] \<and> stats = group_members p offs (statistics @ [stat]))"
    if "q \<in> set (plan_append plan stat)" for q
  proof (cases q)
    case (Pair p groups)
    from well_grouped_entry [OF wf that [unfolded this]] show ?thesis
      unfolding Pair prod.case .
  qed
  ultimately show ?thesis
    unfolding well_grouped_def by (intro conjI ballI)
qed

lemma group_statistics_well_grouped: "well_grouped statistics (group_statistics_in_plan statistics)"
proof (induction statistics rule: rev_induct)
  case (snoc stat statistics)
  then show ?case
    using well_grouped_append [OF _ group_statistics_mset] by (simp add: group_statistics_in_plan_def)
qed (simp add: well_grouped_def group_statistics_in_plan_def)

subsection \<open>What a value holds\<close>

text \<open>Keys: those of the statistics computed, added to the earlier ones.\<close>

definition extends_by :: "f64 dict \<Rightarrow> f64 dict \<Rightarrow> string set \<Rightarrow> bool" where
  "extends_by d d' ks \<longleftrightarrow> (distinct (map fst d) \<longrightarrow> distinct (map fst d')) \<and>
     fst ` set d' = fst ` set d \<union> ks \<and> (\<forall>k. k \<notin> ks \<longrightarrow> map_of d' k = map_of d k)"

lemma extends_by_refl: "extends_by d d {}"
  by (simp add: extends_by_def)

lemma extends_by_trans: "\<lbrakk>extends_by d d' ks; extends_by d' d'' ls\<rbrakk> \<Longrightarrow> extends_by d d'' (ks \<union> ls)"
  by (auto simp: extends_by_def)

lemma extends_by_update: "extends_by d (AList.update k v d) {k}"
  by (auto simp: extends_by_def distinct_update dom_update update_conv')

lemma compute_statistics_keys:
  "compute_statistics ex buf m n stats d = Inr d' \<Longrightarrow> extends_by d d' (name ` set stats)"
proof (induction ex buf m n stats d rule: compute_statistics.induct)
  case (2 ex buf m n stat stats d)
  then show ?case
    using extends_by_trans [OF extends_by_update [of d "name stat"]]
    by (fastforce simp: bind_result_eq_Inr_iff)
qed (simp add: extends_by_refl)

text \<open>Values: one call of the library per statistic, on the same buffer.\<close>

definition computed_on :: "'x exact_lib \<Rightarrow> int list \<Rightarrow> nat \<Rightarrow> nat \<Rightarrow> f64 dict \<Rightarrow> statistic \<Rightarrow> bool" where
  "computed_on ex buf m n d stat \<longleftrightarrow>
     (\<exists>v. statistic_fn ex (fn_name stat) buf m n (fn_args stat) = Inr v \<and> map_of d (name stat) = Some v)"

lemma computed_on_extends:
  "\<lbrakk>computed_on ex buf m n d stat; extends_by d d' ks; name stat \<notin> ks\<rbrakk> \<Longrightarrow> computed_on ex buf m n d' stat"
  by (auto simp: computed_on_def extends_by_def)

lemma compute_statistics_values:
  "\<lbrakk>compute_statistics ex buf m n stats d = Inr d'; distinct (map name stats)\<rbrakk> \<Longrightarrow>
     \<forall>stat \<in> set stats. computed_on ex buf m n d' stat"
proof (induction ex buf m n stats d rule: compute_statistics.induct)
  case (2 ex buf m n stat stats d)
  then obtain v where v: "statistic_fn ex (fn_name stat) buf m n (fn_args stat) = Inr v"
    "compute_statistics ex buf m n stats (AList.update (name stat) v d) = Inr d'"
    by (auto simp: bind_result_eq_Inr_iff)
  have "computed_on ex buf m n (AList.update (name stat) v d) stat"
    using v(1) by (simp add: computed_on_def update_conv')
  moreover have "name stat \<notin> name ` set stats"
    using 2(3) by simp
  ultimately have "computed_on ex buf m n d' stat"
    by (rule computed_on_extends [OF _ compute_statistics_keys [OF v(2)]])
  then show ?case
    using 2 v by auto
qed simp

text \<open>The groups of one probability share one shuffle of the data.\<close>

definition group_computed ::
    "'x exact_lib \<Rightarrow> int list \<Rightarrow> nat \<Rightarrow> nat \<Rightarrow> f64 dict \<Rightarrow> offsets \<times> statistic list \<Rightarrow> bool" where
  "group_computed ex shuffled m n d = (\<lambda>((a_off, b_off), stats).
     \<exists>x. \<forall>stat \<in> set stats. computed_on ex (fst (offset_sort ex x shuffled m n a_off b_off)) m n d stat)"

definition plan_computed :: "'x exact_lib \<Rightarrow> int list \<Rightarrow> nat \<Rightarrow> nat \<Rightarrow> plan \<Rightarrow> f64 dict \<Rightarrow> bool" where
  "plan_computed ex buf m n plan d \<longleftrightarrow>
     (\<forall>(p, groups) \<in> set plan. \<exists>x shuffled. fst (exact_shuffle ex x buf m n p) = Inr shuffled \<and>
        (\<forall>g \<in> set groups. group_computed ex shuffled m n d g))"

definition groups_statistics :: "(offsets \<times> statistic list) list \<Rightarrow> statistic list" where
  "groups_statistics groups = concat (map snd groups)"

lemma groups_statistics_simps [simp]:
  "groups_statistics [] = []"
  "groups_statistics ((offs, stats) # groups) = stats @ groups_statistics groups"
  by (simp_all add: groups_statistics_def)

lemma plan_statistics_simps [simp]:
  "plan_statistics [] = []"
  "plan_statistics ((p, groups) # plan) = groups_statistics groups @ plan_statistics plan"
  by (simp_all add: plan_statistics_def groups_statistics_def)

lemma group_computed_extends:
  assumes "group_computed ex sh m n d (offs, stats)" "extends_by d d' ks" "name ` set stats \<inter> ks = {}"
  shows "group_computed ex sh m n d' (offs, stats)"
proof -
  have keep: "computed_on ex buf m n d' stat" if "computed_on ex buf m n d stat" "stat \<in> set stats" for buf stat
    using that(2) assms(3) by (intro computed_on_extends [OF that(1) assms(2)]) blast
  show ?thesis
    using assms(1) keep unfolding group_computed_def by (auto split: prod.splits)
qed

lemma compute_groups_spec:
  "compute_groups ex sh m n groups x d = Inr (d', x') \<Longrightarrow>
     extends_by d d' (name ` set (groups_statistics groups)) \<and>
     (distinct (map name (groups_statistics groups)) \<longrightarrow> (\<forall>g \<in> set groups. group_computed ex sh m n d' g))"
proof (induction ex sh m n groups x d rule: compute_groups.induct)
  case (2 ex sh m n a_off b_off stats groups x d)
  obtain sorted y where y: "offset_sort ex x sh m n a_off b_off = (sorted, y)"
    by fastforce
  then obtain d1 where d1: "compute_statistics ex sorted m n stats d = Inr d1"
    "compute_groups ex sh m n groups y d1 = Inr (d', x')"
    using 2(2) by (auto simp: bind_result_eq_Inr_iff split: if_splits)
  have fits: "\<not> (\<not> u64 a_off \<or> \<not> u64 b_off)"
    using 2(2) by (auto split: if_splits)
  note IH = 2(1) [OF fits refl y [symmetric] d1(2)]
  show ?case
  proof (intro conjI impI)
    show "extends_by d d' (name ` set (groups_statistics (((a_off, b_off), stats) # groups)))"
      using extends_by_trans [OF compute_statistics_keys [OF d1(1)]] IH by (simp add: image_Un)
    assume dist: "distinct (map name (groups_statistics (((a_off, b_off), stats) # groups)))"
    then have "\<forall>stat \<in> set stats. computed_on ex (fst (offset_sort ex x sh m n a_off b_off)) m n d1 stat"
      using compute_statistics_values [OF d1(1)] y by simp
    then have "group_computed ex sh m n d1 ((a_off, b_off), stats)"
      by (auto simp: group_computed_def)
    moreover have "name ` set stats \<inter> name ` set (groups_statistics groups) = {}"
      using dist by auto
    ultimately have "group_computed ex sh m n d' ((a_off, b_off), stats)"
      by (rule group_computed_extends [OF _ conjunct1 [OF IH]])
    then show "\<forall>g \<in> set (((a_off, b_off), stats) # groups). group_computed ex sh m n d' g"
      using IH dist by simp
  qed
qed (simp add: extends_by_refl)

lemma compute_results_spec:
  "compute_results ex buf m n plan x d = Inr (d', x') \<Longrightarrow>
     extends_by d d' (plan_names plan) \<and>
     (distinct (map name (plan_statistics plan)) \<longrightarrow> plan_computed ex buf m n plan d')"
proof (induction ex buf m n plan x d rule: compute_results.induct)
  case (2 ex buf m n p groups plan x d)
  obtain sh y where sh: "exact_shuffle ex x buf m n p = (Inr sh, y)"
    using 2(2) by (cases "exact_shuffle ex x buf m n p") (auto split: sum.splits)
  then obtain d1 z where d1: "compute_groups ex sh m n groups y d = Inr (d1, z)"
    "compute_results ex buf m n plan z d1 = Inr (d', x')"
    using 2(2) by (auto simp: bind_result_eq_Inr_iff)
  note IH = 2(1) [OF sh [symmetric] refl d1(2)] and G = compute_groups_spec [OF d1(1)]
  have ext: "extends_by d d' (plan_names ((p, groups) # plan))"
    using extends_by_trans [OF conjunct1 [OF G] conjunct1 [OF IH]] by (simp add: plan_names_def image_Un)
  have "plan_computed ex buf m n ((p, groups) # plan) d'"
    if dist: "distinct (map name (plan_statistics ((p, groups) # plan)))"
  proof -
    have "group_computed ex sh m n d' (offs, stats)" if g: "(offs, stats) \<in> set groups" for offs stats
    proof (rule group_computed_extends [OF _ conjunct1 [OF IH]])
      show "group_computed ex sh m n d1 (offs, stats)"
        using G dist g by auto
      have "set stats \<subseteq> set (groups_statistics groups)"
        using g by (auto simp: groups_statistics_def)
      then show "name ` set stats \<inter> plan_names plan = {}"
        using dist by (auto simp: plan_names_def)
    qed
    then have "\<forall>g \<in> set groups. group_computed ex sh m n d' g"
      by auto
    moreover have "fst (exact_shuffle ex x buf m n p) = Inr sh"
      using sh by simp
    ultimately show ?thesis
      using IH dist unfolding plan_computed_def by auto
  qed
  then show ?case
    using ext by blast
qed (simp add: extends_by_refl plan_names_def plan_computed_def)

text \<open>A plan with an offset that does not fit yields nothing.\<close>

lemma compute_groups_fit:
  "compute_groups ex sh m n groups x d = Inr r \<Longrightarrow>
     list_all (\<lambda>((a_off, b_off), stats). u64 a_off \<and> u64 b_off) groups"
  by (induction ex sh m n groups x d rule: compute_groups.induct)
    (auto simp: bind_result_eq_Inr_iff split: if_splits prod.splits)

lemma compute_results_fit: "compute_results ex buf m n plan x d = Inr r \<Longrightarrow> offsets_fit plan"
  by (induction ex buf m n plan x d rule: compute_results.induct)
    (auto simp: bind_result_eq_Inr_iff split: prod.splits sum.splits dest: compute_groups_fit)

lemma resample_spec:
  assumes "resample ex s plan buf x = Got d g"
  shows "distinct (map fst d)" "set (map fst d) = plan_names plan"
    and "distinct (map name (plan_statistics plan)) \<Longrightarrow>
      plan_computed ex buf (length (a_class s)) (length (b_class s)) plan d"
    and "\<exists>x'. g = Suspended buf x'"
proof -
  obtain x' where r: "compute_results ex buf (length (a_class s)) (length (b_class s)) plan x [] = Inr (d, x')"
    and g: "g = Suspended buf x'"
    using assms by (auto simp: resample_def split: sum.splits)
  note c = compute_results_spec [OF r]
  then show "distinct (map fst d)" "set (map fst d) = plan_names plan"
    by (auto simp: extends_by_def)
  show "distinct (map name (plan_statistics plan)) \<Longrightarrow>
      plan_computed ex buf (length (a_class s)) (length (b_class s)) plan d"
    using c by simp
  show "\<exists>x'. g = Suspended buf x'"
    using g by simp
qed

text \<open>
  Every value of the generator is computed from the whole sample, by the plan; in particular
  all of them have the same keys, which is what the transport of batches relies on.
\<close>

lemma taken_spec:
  assumes "d \<in> set (taken (resampled_data_results_1 ex s plan) n g)" "g = Unstarted seed \<or> g = Suspended (a_class s @ b_class s) x"
  shows "distinct (map fst d) \<and> set (map fst d) = plan_names plan \<and>
    (distinct (map name (plan_statistics plan)) \<longrightarrow>
      plan_computed ex (a_class s @ b_class s) (length (a_class s)) (length (b_class s)) plan d)"
  using assms
proof (induction n arbitrary: g x)
  case (Suc n)
  obtain d1 g1 where d1: "resampled_data_results_1 ex s plan g = Got d1 g1"
    using Suc.prems(1) by (cases "resampled_data_results_1 ex s plan g") auto
  obtain y where y: "resample ex s plan (a_class s @ b_class s) y = Got d1 g1"
    using d1 Suc.prems(2) by (auto simp: make_buf_def Let_def split: if_splits)
  note spec = resample_spec [OF y]
  show ?case
  proof (cases "d = d1")
    case False
    then have "d \<in> set (taken (resampled_data_results_1 ex s plan) n g1)"
      using Suc.prems(1) d1 by simp
    then show ?thesis
      using Suc.IH spec(4) by blast
  qed (use spec in simp)
qed simp

lemma resampled_uniform: "uniform (plan_names plan) (taken (resampled_data_results_1 ex s plan) n (Unstarted seed))"
  using taken_spec unfolding uniform_def by fast

lemma plan_computed_cong: "map_of d = map_of d' \<Longrightarrow> plan_computed ex buf m n plan d \<longleftrightarrow> plan_computed ex buf m n plan d'"
  by (simp add: plan_computed_def group_computed_def computed_on_def)

text \<open>What reaches the other end of the transport, from a worker that runs this generator.\<close>

lemma resampled_batch:
  assumes "generate_in_parallel_worker pf (resampled_data_results_1 ex s plan) (Unstarted seed) max_results max_delay
      r1 r2 now clock = Inr (Some rs)"
    and "plan_names plan \<noteq> {}" "distinct (map name (plan_statistics plan))"
  shows "\<exists>ds. convert_proto_to_result_dicts rs = Inr ds \<and> ds \<noteq> [] \<and>
    (\<forall>d \<in> set ds. dom (map_of d) = plan_names plan \<and>
      plan_computed ex (a_class s @ b_class s) (length (a_class s)) (length (b_class s)) plan d)"
proof -
  obtain n ds where ds: "convert_proto_to_result_dicts rs = Inr ds" "length ds = Suc n"
    "map map_of ds = map map_of (taken (resampled_data_results_1 ex s plan) (Suc n) (Unstarted seed))"
    using worker_round_trip [OF assms(1) resampled_uniform assms(2)] by blast
  have "dom (map_of d) = plan_names plan \<and>
      plan_computed ex (a_class s @ b_class s) (length (a_class s)) (length (b_class s)) plan d" if "d \<in> set ds" for d
  proof -
    have "map_of d \<in> set (map map_of ds)"
      using that by simp
    then obtain t where t: "t \<in> set (taken (resampled_data_results_1 ex s plan) (Suc n) (Unstarted seed))"
      "map_of d = map_of t"
      unfolding ds(3) by (auto simp del: taken.simps)
    note spec = taken_spec [OF t(1), of seed]
    have "dom (map_of t) = plan_names plan"
      using spec by (simp add: dom_map_of_conv_image_fst)
    then show ?thesis
      unfolding plan_computed_cong [OF t(2)] t(2) using spec assms(3) by simp
  qed
  then show ?thesis
    using ds by (intro exI [of _ ds]) auto
qed

end
