(* ===== verification/Exact_Test.thy ===== *)
theory Exact_Test
  imports Sampler_Data Csm
begin

text \<open>
  The sequential significance test (\<open>_significance_test\<close> and \<open>exact_test\<close>,
  \<open>t/exact_test.py\<close>). The loop is a step on an explicit state, fed with the values of
  \<open>resampled_data_results\<close>; the plans that the code puts in the queue of that generator are
  collected in the state. What goes to the log is left out.
\<close>

record test_result =
  actual_value :: f64
  judgement :: "int option"
  class_m :: nat
  class_n :: nat
  num_trials :: int

record result_accumulator =
  acc_trials :: int
  lte_actual :: int
  gte_actual :: int

definition INITIAL_RESULT_ACCUMULATOR :: result_accumulator where
  "INITIAL_RESULT_ACCUMULATOR = \<lparr>acc_trials = 0, lte_actual = 0, gte_actual = 0\<rparr>"

text \<open>True division of two integers: the quotient, correctly rounded.\<close>

definition int_true_div :: "int \<Rightarrow> int \<Rightarrow> f64 result" where
  "int_true_div a b =
     (if b = 0 then Inl ZeroDivisionError
      else let m = round_mag (\<bar>a\<bar> * unit_scale) \<bar>b\<bar>
           in if m = inf_mag then Inl OverflowError else Inr (make_f64 ((a < 0) \<noteq> (b < 0)) m))"

text \<open>The second component says whether a new significant result was found.\<close>

definition significance_test ::
    "platform \<Rightarrow> test_result dict \<Rightarrow> f64 \<Rightarrow> f64 \<Rightarrow> string \<Rightarrow> sample \<Rightarrow> f64 \<Rightarrow> int \<Rightarrow> int \<Rightarrow> int
      \<Rightarrow> (test_result dict \<times> bool) result" where
  "significance_test pf ret eps log_inner_eps nm actual_data actual lte gte trials =
     bind_result (csm pf trials eps lte log_inner_eps) (\<lambda>(lt_significant, lt_level).
     bind_result (csm pf trials eps gte log_inner_eps) (\<lambda>(gt_significant, gt_level).
     let partial_result = \<lparr>actual_value = actual, judgement = None,
           class_m = length (a_class actual_data), class_n = length (b_class actual_data),
           num_trials = trials\<rparr>;
         found = (\<lambda>j. Inr (AList.update nm (partial_result\<lparr>judgement := Some j\<rparr>) ret, True))
     in bind_result (if lt_significant then bind_result (int_true_div lte trials) (\<lambda>q. Inr (flt q eps)) else Inr False)
          (\<lambda>too_low.
        if too_low then found (- 1)
        else bind_result (if gt_significant then bind_result (int_true_div gte trials) (\<lambda>q. Inr (flt q eps)) else Inr False)
          (\<lambda>too_high.
            if too_high then found 1
            else if lt_significant \<and> gt_significant then found 0
            else Inr (ret, False)))))"

subsection \<open>The state of a test\<close>

record test_state =
  accumulators :: "result_accumulator dict"
  resolved :: "test_result dict"  \<comment> \<open>\<open>ret\<close>\<close>
  seen :: int
  test_every :: int
  plans :: "plan list"

record test_config =
  cfg_data :: sample
  cfg_statistics :: "statistic list"
  cfg_eps :: f64
  cfg_log_inner_eps :: f64
  cfg_actual :: "f64 dict"

text \<open>\<open>eps /= 2 * num_stats * 1.1\<close>, and the logarithm of a tenth of it.\<close>

definition bonferroni_eps :: "platform \<Rightarrow> nat \<Rightarrow> f64 \<Rightarrow> f64 result" where
  "bonferroni_eps pf num_stats eps =
     bind_result (int_times pf (2 * int num_stats) (literal 11 10)) (\<lambda>v. fdiv pf eps v)"

definition inner_log_eps :: "platform \<Rightarrow> f64 \<Rightarrow> f64 result" where
  "inner_log_eps pf eps = bind_result (div_int pf eps 10) (\<lambda>v. math_1 (libm_log pf) False v)"

definition update_grouped_stats :: "test_config \<Rightarrow> test_state \<Rightarrow> test_state" where
  "update_grouped_stats cfg st =
     st\<lparr>plans := plans st @ [group_statistics_in_plan
       (filter (\<lambda>stat. map_of (resolved st) (name stat) = None) (cfg_statistics cfg))]\<rparr>"

text \<open>The statistics that are resolved before any sampling: NaNs, and all of them without data.\<close>

definition resolve_early :: "sample \<Rightarrow> f64 dict \<Rightarrow> test_result dict" where
  "resolve_early data actual_stats =
     foldl (\<lambda>ret (nm, actual).
       if \<not> feq actual actual \<or> (a_class data = [] \<and> b_class data = [])
       then AList.update nm \<lparr>actual_value = actual, judgement = Some 0, class_m = length (a_class data),
              class_n = length (b_class data), num_trials = 0\<rparr> ret
       else ret) [] actual_stats"

text \<open>What the code before the loop leads to: a result, or a configuration and a state.\<close>

datatype ('c, 's) start = Decided "test_result dict" | Sampling 'c 's

definition exact_start ::
    "platform \<Rightarrow> 'x exact_lib \<Rightarrow> 'x \<Rightarrow> int list \<Rightarrow> int list \<Rightarrow> statistic list \<Rightarrow> f64
      \<Rightarrow> (test_config, test_state) start result" where
  "exact_start pf ex xoshiro a b statistics eps =
     (if statistics = [] then Inr (Decided [])
      else if length statistics \<noteq> card (set (map name statistics)) then Inl PlainException
      else
        let actual_data = \<lparr>a_class = a, b_class = b\<rparr> in
        bind_result (bonferroni_eps pf (length statistics) eps) (\<lambda>eps'.
        bind_result (inner_log_eps pf eps') (\<lambda>log_inner_eps.
        bind_result (actual_data_results ex xoshiro actual_data statistics) (\<lambda>actual_stats.
        let early = resolve_early actual_data actual_stats;
            cfg = \<lparr>cfg_data = actual_data, cfg_statistics = statistics, cfg_eps = eps',
              cfg_log_inner_eps = log_inner_eps, cfg_actual = actual_stats\<rparr>;
            st = \<lparr>accumulators = map (\<lambda>(nm, _). (nm, INITIAL_RESULT_ACCUMULATOR)) actual_stats,
              resolved = early, seen = 0, test_every = 250, plans = []\<rparr>
        in if length early = length actual_stats then Inr (Decided early)
           else Inr (Sampling cfg (update_grouped_stats cfg st))))))"

subsection \<open>The loop\<close>

text \<open>\<open>d[k]\<close>.\<close>

definition dict_get :: "'v dict \<Rightarrow> string \<Rightarrow> 'v result" where
  "dict_get d k = (case map_of d k of None \<Rightarrow> Inl KeyError | Some v \<Rightarrow> Inr v)"

fun count_sample :: "f64 dict \<Rightarrow> f64 dict \<Rightarrow> result_accumulator dict \<Rightarrow> result_accumulator dict result" where
  "count_sample actual_stats [] accs = Inr accs"
| "count_sample actual_stats ((nm, stat) # smp) accs =
     bind_result (dict_get actual_stats nm) (\<lambda>actual.
     bind_result (dict_get accs nm) (\<lambda>current.
     let c1 = (if fle stat actual then current\<lparr>lte_actual := lte_actual current + 1\<rparr> else current);
         c2 = (if fle actual stat then c1\<lparr>gte_actual := gte_actual c1 + 1\<rparr> else c1)
     in count_sample actual_stats smp
          (AList.update nm (c2\<lparr>acc_trials := acc_trials c2 + 1\<rparr>) accs)))"

text \<open>One round of tests over the accumulators; \<open>sample[name]\<close> is read for the log.\<close>

fun test_round ::
    "platform \<Rightarrow> test_config \<Rightarrow> f64 dict \<Rightarrow> (string \<times> result_accumulator) list \<Rightarrow> test_result dict
      \<Rightarrow> bool \<Rightarrow> (test_result dict \<times> bool) result" where
  "test_round pf cfg smp [] ret new_significant = Inr (ret, new_significant)"
| "test_round pf cfg smp ((nm, acc) # accs) ret new_significant =
     (if map_of ret nm \<noteq> None then test_round pf cfg smp accs ret new_significant
      else
        bind_result (dict_get smp nm) (\<lambda>monte_carlo_value.
        bind_result (dict_get (cfg_actual cfg) nm) (\<lambda>actual.
        bind_result (significance_test pf ret (cfg_eps cfg) (cfg_log_inner_eps cfg) nm (cfg_data cfg)
            actual (lte_actual acc) (gte_actual acc) (acc_trials acc)) (\<lambda>(ret', found).
          test_round pf cfg smp accs ret' (new_significant \<or> found)))))"

datatype 's progress = Next 's | Final "test_result dict"

definition final_dict :: "test_config \<Rightarrow> test_result dict \<Rightarrow> test_result dict result" where
  "final_dict cfg ret = foldl (\<lambda>acc (nm, _).
     bind_result acc (\<lambda>d. bind_result (dict_get ret nm) (\<lambda>r. Inr (AList.update nm r d)))) (Inr []) (cfg_actual cfg)"

definition exact_step ::
    "platform \<Rightarrow> test_config \<Rightarrow> test_state \<Rightarrow> f64 dict \<Rightarrow> test_state progress result" where
  "exact_step pf cfg st smp =
     bind_result (count_sample (cfg_actual cfg) smp (accumulators st)) (\<lambda>accs.
     let st1 = st\<lparr>accumulators := accs, seen := seen st + 1\<rparr>
     in if seen st1 mod test_every st1 \<noteq> 0 then Inr (Next st1)
        else
          let st2 = (if 40 * test_every st1 \<le> seen st1
                     then st1\<lparr>test_every := test_every st1 * 10\<rparr> else st1)
          in bind_result (test_round pf cfg smp (accumulators st2) (resolved st2) False) (\<lambda>(ret', new_significant).
             let st3 = st2\<lparr>resolved := ret'\<rparr>;
                 st4 = (if new_significant then update_grouped_stats cfg st3 else st3)
             in if length (resolved st4) = length (cfg_actual cfg)
                then bind_result (final_dict cfg (resolved st4)) (\<lambda>d. Inr (Final d))
                else Inr (Next st4)))"

text \<open>
  The loop over the generator of values. When the generator ends, the code falls out of its
  loop and returns \<open>None\<close>: the outcome is then the last state.
\<close>

fun exact_run :: "platform \<Rightarrow> test_config \<Rightarrow> test_state \<Rightarrow> f64 dict gen \<Rightarrow> test_state progress result" where
  "exact_run pf cfg st Done = Inr (Next st)"
| "exact_run pf cfg st (Raise e) = Inl e"
| "exact_run pf cfg st (Yield smp samples) =
     bind_result (exact_step pf cfg st smp) (\<lambda>p. case p of
       Next st' \<Rightarrow> exact_run pf cfg st' samples
     | Final d \<Rightarrow> Inr (Final d))"

definition exact_test ::
    "platform \<Rightarrow> 'x exact_lib \<Rightarrow> 'x \<Rightarrow> int list \<Rightarrow> int list \<Rightarrow> statistic list \<Rightarrow> f64 \<Rightarrow> f64 dict gen
      \<Rightarrow> test_result dict option result" where
  "exact_test pf ex xoshiro a b statistics eps samples =
     bind_result (exact_start pf ex xoshiro a b statistics eps) (\<lambda>s. case s of
       Decided d \<Rightarrow> Inr (Some d)
     | Sampling cfg st \<Rightarrow>
         bind_result (exact_run pf cfg st samples) (\<lambda>p. case p of
           Final d \<Rightarrow> Inr (Some d)
         | Next st' \<Rightarrow> Inr None))"

end
