(* ===== verification/Exact_Soundness.thy ===== *)
theory Exact_Soundness
  imports Exact_Test Bisection
begin

text \<open>
  What the significance test guarantees. The accumulators of an open statistic hold the tally
  of its values; a result is either given before sampling or is the judgement of the two
  confidence sequence tests over a prefix of the values; every plan in the queue covers the
  open statistics. As long as the values do too, only \<open>csm\<close> can raise.
\<close>

subsection \<open>Counting\<close>

definition bump :: "f64 \<Rightarrow> f64 \<Rightarrow> result_accumulator \<Rightarrow> result_accumulator" where
  "bump actual v acc = \<lparr>acc_trials = acc_trials acc + 1,
     lte_actual = lte_actual acc + (if fle v actual then 1 else 0),
     gte_actual = gte_actual acc + (if fle actual v then 1 else 0)\<rparr>"

definition tally :: "f64 \<Rightarrow> f64 list \<Rightarrow> result_accumulator" where
  "tally actual vs = \<lparr>acc_trials = int (length vs),
     lte_actual = int (length (filter (\<lambda>v. fle v actual) vs)),
     gte_actual = int (length (filter (\<lambda>v. fle actual v) vs))\<rparr>"

lemma bump_tally: "bump actual v (tally actual vs) = tally actual (vs @ [v])"
  by (simp add: bump_def tally_def)

lemma tally_ranges: "0 \<le> lte_actual (tally actual vs)" "lte_actual (tally actual vs) \<le> int (length vs)"
  "0 \<le> gte_actual (tally actual vs)" "gte_actual (tally actual vs) \<le> int (length vs)"
  by (simp_all add: tally_def)

lemma update_existing: "map_of d k \<noteq> None \<Longrightarrow> map fst (AList.update k v d) = map fst d"
  by (induction d) auto

lemma map_of_in_keys: "map_of d k \<noteq> None \<longleftrightarrow> k \<in> set (map fst d)"
  by (simp add: map_of_eq_None_iff)

lemma count_sample_returns:
  assumes "set (map fst smp) \<subseteq> set (map fst actuals)" "set (map fst actuals) \<subseteq> set (map fst accs)"
    and "distinct (map fst smp)"
  shows "\<exists>accs'. count_sample actuals smp accs = Inr accs' \<and> map fst accs' = map fst accs \<and>
    (\<forall>k. map_of accs' k = (case map_of smp k of None \<Rightarrow> map_of accs k
       | Some v \<Rightarrow> Some (bump (the (map_of actuals k)) v (the (map_of accs k)))))"
  using assms
proof (induction smp arbitrary: accs)
  case (Cons q smp)
  obtain nm v where q: "q = (nm, v)" by fastforce
  have "map_of actuals nm \<noteq> None" "map_of accs nm \<noteq> None"
    using Cons.prems(1,2) unfolding map_of_in_keys q by auto
  then obtain actual acc where e: "map_of actuals nm = Some actual" "map_of accs nm = Some acc"
    by blast
  let ?accs = "AList.update nm (bump actual v acc) accs"
  have keys: "map fst ?accs = map fst accs"
    using e(2) by (simp add: update_existing)
  have step: "count_sample actuals (q # smp) accs = count_sample actuals smp ?accs"
    using e q by (cases acc) (simp add: dict_get_def Let_def bump_def)
  have none: "map_of smp nm = None"
    using Cons.prems(3) q by (simp add: map_of_eq_None_iff)
  have sub: "set (map fst smp) \<subseteq> set (map fst actuals)" "set (map fst actuals) \<subseteq> set (map fst ?accs)"
      "distinct (map fst smp)"
    using Cons.prems unfolding keys by auto
  from Cons.IH [OF sub] obtain accs' where accs': "count_sample actuals smp ?accs = Inr accs'"
    "map fst accs' = map fst ?accs"
    "\<And>k. map_of accs' k = (case map_of smp k of None \<Rightarrow> map_of ?accs k
      | Some v \<Rightarrow> Some (bump (the (map_of actuals k)) v (the (map_of ?accs k))))"
    by blast
  have "map_of accs' k = (case map_of (q # smp) k of None \<Rightarrow> map_of accs k
      | Some v \<Rightarrow> Some (bump (the (map_of actuals k)) v (the (map_of accs k))))" for k
    using accs'(3) [of k] none e q by (cases "k = nm") (auto simp: update_conv' split: option.splits)
  then show ?case
    unfolding step using accs'(1,2) keys by auto
qed simp

subsection \<open>One test\<close>

text \<open>The judgement that the two confidence sequence tests and the two fractions support.\<close>

definition judges :: "platform \<Rightarrow> f64 \<Rightarrow> f64 \<Rightarrow> result_accumulator \<Rightarrow> int \<Rightarrow> bool" where
  "judges pf eps log_eps acc j \<longleftrightarrow>
     (\<exists>low low_level high high_level low_fraction high_fraction.
        csm pf (acc_trials acc) eps (lte_actual acc) log_eps = Inr (low, low_level) \<and>
        csm pf (acc_trials acc) eps (gte_actual acc) log_eps = Inr (high, high_level) \<and>
        int_true_div (lte_actual acc) (acc_trials acc) = Inr low_fraction \<and>
        int_true_div (gte_actual acc) (acc_trials acc) = Inr high_fraction \<and>
        (if low \<and> flt low_fraction eps then j = - 1
         else if high \<and> flt high_fraction eps then j = 1
         else low \<and> high \<and> j = 0))"

definition csm_raises :: "platform \<Rightarrow> f64 \<Rightarrow> f64 \<Rightarrow> py_error \<Rightarrow> bool" where
  "csm_raises pf eps log_eps e \<longleftrightarrow> (\<exists>n s. csm pf n eps s log_eps = Inl e)"

lemma int_true_div_unit:
  assumes "0 \<le> a" "a \<le> b" "0 < b"
  obtains q where "int_true_div a b = Inr q" "in_unit q"
proof -
  let ?z = "make_f64 False (round_mag (a * unit_scale) b)"
  have r: "rounds_to (a * unit_scale) b ?z"
    using assms unit_scale_pos rounds_to_make [of b False "a * unit_scale"] by simp
  have p: "0 \<le> a * unit_scale" "a * unit_scale \<le> b * unit_scale"
    using assms unit_scale_pos by (auto intro: mult_right_mono)
  have z: "in_unit ?z"
    by (rule in_unit_round [OF r p])
  have m: "0 \<le> round_mag (a * unit_scale) b" "round_mag (a * unit_scale) b \<le> inf_mag"
    using round_mag_range [OF p(1) assms(3)] by simp_all
  then have "round_mag (a * unit_scale) b \<noteq> inf_mag"
    using in_unitD(1) [OF z] inf_mag_less by (simp add: is_finite_def)
  then show ?thesis
    using that z assms by (simp add: int_true_div_def Let_def)
qed

lemma judgesI:
  assumes "csm pf (acc_trials acc) eps (lte_actual acc) log_eps = Inr (low, low_level)"
    and "csm pf (acc_trials acc) eps (gte_actual acc) log_eps = Inr (high, high_level)"
    and "int_true_div (lte_actual acc) (acc_trials acc) = Inr low_fraction"
    and "int_true_div (gte_actual acc) (acc_trials acc) = Inr high_fraction"
    and "if low \<and> flt low_fraction eps then j = - 1 else if high \<and> flt high_fraction eps then j = 1
      else low \<and> high \<and> j = 0"
  shows "judges pf eps log_eps acc j"
  unfolding judges_def using assms by blast

lemma significance_test_cases:
  assumes "0 < acc_trials acc" "0 \<le> lte_actual acc" "lte_actual acc \<le> acc_trials acc"
    and "0 \<le> gte_actual acc" "gte_actual acc \<le> acc_trials acc"
    and r_def: "r = significance_test pf res eps log_eps nm data actual (lte_actual acc) (gte_actual acc) (acc_trials acc)"
  obtains (raises) e where "r = Inl e" "csm_raises pf eps log_eps e"
    | (found) j where "judges pf eps log_eps acc j"
        "r = Inr (AList.update nm \<lparr>actual_value = actual, judgement = Some j,
          class_m = length (a_class data), class_n = length (b_class data), num_trials = acc_trials acc\<rparr> res, True)"
    | (undecided) "r = Inr (res, False)"
proof -
  obtain lq where lq: "int_true_div (lte_actual acc) (acc_trials acc) = Inr lq"
    using int_true_div_unit assms(1-3) by metis
  obtain gq where gq: "int_true_div (gte_actual acc) (acc_trials acc) = Inr gq"
    using int_true_div_unit assms(1,4,5) by metis
  show ?thesis
  proof (cases "csm pf (acc_trials acc) eps (lte_actual acc) log_eps")
    case (Inl e)
    then show ?thesis
      using raises [of e] by (auto simp: r_def significance_test_def csm_raises_def)
  next
    case low: (Inr l)
    show ?thesis
    proof (cases "csm pf (acc_trials acc) eps (gte_actual acc) log_eps")
      case (Inl e)
      then show ?thesis
        using low raises [of e] by (auto simp: r_def significance_test_def csm_raises_def split: prod.splits)
    next
      case high: (Inr g)
      obtain ls ll gs gl where lg: "l = (ls, ll)" "g = (gs, gl)"
        by (cases l, cases g) auto
      note facts = low high lg lq gq
      consider "ls" "flt lq eps" | "\<not> (ls \<and> flt lq eps)" "gs" "flt gq eps"
        | "\<not> (ls \<and> flt lq eps)" "\<not> (gs \<and> flt gq eps)" "ls" "gs"
        | "\<not> (ls \<and> flt lq eps)" "\<not> (gs \<and> flt gq eps)" "\<not> (ls \<and> gs)"
        by blast
      then show ?thesis
      proof cases
        case 1
        have "judges pf eps log_eps acc (- 1)"
          by (rule judgesI [OF low [unfolded lg] high [unfolded lg] lq gq]) (simp add: 1)
        then show ?thesis
          by (rule found) (use facts 1 in \<open>simp add: r_def significance_test_def Let_def\<close>)
      next
        case 2
        have "judges pf eps log_eps acc 1"
          by (rule judgesI [OF low [unfolded lg] high [unfolded lg] lq gq]) (use 2 in auto)
        then show ?thesis
          by (rule found) (use facts 2 in \<open>cases ls; simp add: r_def significance_test_def Let_def\<close>)
      next
        case 3
        have "judges pf eps log_eps acc 0"
          by (rule judgesI [OF low [unfolded lg] high [unfolded lg] lq gq]) (use 3 in auto)
        then show ?thesis
          by (rule found) (use facts 3 in \<open>simp add: r_def significance_test_def Let_def\<close>)
      next
        case 4
        then show ?thesis
          using facts undecided by (cases ls; cases gs) (simp_all add: r_def significance_test_def Let_def)
      qed
    qed
  qed
qed

subsection \<open>A round of tests\<close>

definition result_of :: "test_config \<Rightarrow> string \<Rightarrow> int \<Rightarrow> int \<Rightarrow> test_result" where
  "result_of cfg nm j trials = \<lparr>actual_value = the (map_of (cfg_actual cfg) nm), judgement = Some j,
     class_m = length (a_class (cfg_data cfg)), class_n = length (b_class (cfg_data cfg)), num_trials = trials\<rparr>"

definition sound_counts :: "result_accumulator \<Rightarrow> bool" where
  "sound_counts acc \<longleftrightarrow> 0 < acc_trials acc \<and> 0 \<le> lte_actual acc \<and> lte_actual acc \<le> acc_trials acc \<and>
     0 \<le> gte_actual acc \<and> gte_actual acc \<le> acc_trials acc"

text \<open>What a round adds to the results: judged statistics only; the others stay as they are.\<close>

definition round_adds :: "platform \<Rightarrow> test_config \<Rightarrow> (string \<times> result_accumulator) list \<Rightarrow> test_result dict
    \<Rightarrow> test_result dict \<Rightarrow> bool" where
  "round_adds pf cfg accs res res' \<longleftrightarrow>
     (distinct (map fst res) \<longrightarrow> distinct (map fst res')) \<and>
     (\<forall>nm r. map_of res nm = Some r \<longrightarrow> map_of res' nm = Some r) \<and>
     (\<forall>nm r. map_of res nm = None \<and> map_of res' nm = Some r \<longrightarrow>
        (\<exists>acc j. (nm, acc) \<in> set accs \<and> judges pf (cfg_eps cfg) (cfg_log_inner_eps cfg) acc j \<and>
           r = result_of cfg nm j (acc_trials acc)))"

lemma round_adds_refl: "round_adds pf cfg accs res res"
  by (auto simp: round_adds_def)

lemma round_adds_found:
  assumes "map_of res nm = None" "judges pf (cfg_eps cfg) (cfg_log_inner_eps cfg) acc j"
    and "round_adds pf cfg accs (AList.update nm (result_of cfg nm j (acc_trials acc)) res) res'"
  shows "round_adds pf cfg ((nm, acc) # accs) res res'"
  unfolding round_adds_def
proof (intro conjI allI impI)
  let ?res = "AList.update nm (result_of cfg nm j (acc_trials acc)) res"
  show "distinct (map fst res')" if "distinct (map fst res)"
    using assms(3) that by (simp add: round_adds_def distinct_update)
  show "map_of res' k = Some r" if "map_of res k = Some r" for k r
    using assms(1,3) that unfolding round_adds_def by (metis update_conv' fun_upd_other option.distinct(1))
  fix k r assume k: "map_of res k = None \<and> map_of res' k = Some r"
  show "\<exists>acc' j. (k, acc') \<in> set ((nm, acc) # accs) \<and>
      judges pf (cfg_eps cfg) (cfg_log_inner_eps cfg) acc' j \<and> r = result_of cfg k j (acc_trials acc')"
  proof (cases "k = nm")
    case True
    then have "map_of ?res k = Some (result_of cfg nm j (acc_trials acc))"
      by (simp add: update_conv')
    then have "r = result_of cfg nm j (acc_trials acc)"
      using assms(3) k by (simp add: round_adds_def)
    then show ?thesis
      using assms(2) True by auto
  next
    case False
    then have "map_of ?res k = None"
      using k by (simp add: update_conv')
    then have "\<exists>acc' j. (k, acc') \<in> set accs \<and>
        judges pf (cfg_eps cfg) (cfg_log_inner_eps cfg) acc' j \<and> r = result_of cfg k j (acc_trials acc')"
      using assms(3) k unfolding round_adds_def by blast
    then show ?thesis by auto
  qed
qed

lemma round_adds_skip: "round_adds pf cfg accs res res' \<Longrightarrow> round_adds pf cfg (q # accs) res res'"
  unfolding round_adds_def by (cases q) (meson list.set_intros(2))

lemma test_round_new: "test_round pf cfg smp accs res True = Inr (res', new') \<Longrightarrow> new'"
  by (induction accs arbitrary: res)
    (auto simp: bind_result_eq_Inr_iff split: if_splits prod.splits)

text \<open>What a round does: it raises as the tests do, or adds judgements, none unless it says so.\<close>

definition round_outcome ::
    "platform \<Rightarrow> test_config \<Rightarrow> (string \<times> result_accumulator) list \<Rightarrow> test_result dict
      \<Rightarrow> (test_result dict \<times> bool) result \<Rightarrow> bool" where
  "round_outcome pf cfg accs res r =
     (case r of
        Inl e \<Rightarrow> csm_raises pf (cfg_eps cfg) (cfg_log_inner_eps cfg) e
      | Inr (res', new') \<Rightarrow> round_adds pf cfg accs res res' \<and> (\<not> new' \<longrightarrow> res' = res))"

definition round_due :: "test_config \<Rightarrow> (string \<times> 'a) list \<Rightarrow> (string \<times> result_accumulator) list \<Rightarrow> test_result dict \<Rightarrow> bool" where
  "round_due cfg smp accs res \<longleftrightarrow> (\<forall>(nm, acc) \<in> set accs. map_of res nm = None \<longrightarrow>
      sound_counts acc \<and> map_of (cfg_actual cfg) nm \<noteq> None \<and> map_of smp nm \<noteq> None)"

lemma round_outcome_skip: "round_outcome pf cfg accs res r \<Longrightarrow> round_outcome pf cfg (q # accs) res r"
  using round_adds_skip [of pf cfg accs res _ q] by (auto simp: round_outcome_def split: sum.splits)

lemma round_due_later:
  assumes "round_due cfg smp (q # accs) res" "\<And>k. map_of res' k = None \<Longrightarrow> map_of res k = None"
  shows "round_due cfg smp accs res'"
  using assms by (fastforce simp: round_due_def)

lemma round_outcome_found:
  assumes "map_of res nm = None" "judges pf (cfg_eps cfg) (cfg_log_inner_eps cfg) acc j"
  defines "res1 \<equiv> AList.update nm (result_of cfg nm j (acc_trials acc)) res"
  assumes r: "round_outcome pf cfg accs res1 r" "r = test_round pf cfg smp accs res1 True"
  shows "round_outcome pf cfg ((nm, acc) # accs) res r"
proof (cases r)
  case (Inl e)
  then show ?thesis
    using r(1) by (simp add: round_outcome_def)
next
  case (Inr q)
  obtain res' new' where q: "q = (res', new')" by (cases q)
  have "new'"
    using test_round_new [of pf cfg smp accs res1 res' new'] r(2) Inr q by simp
  moreover have "round_adds pf cfg accs res1 res'"
    using r(1) Inr q by (simp add: round_outcome_def)
  ultimately show ?thesis
    using round_adds_found [OF assms(1,2), of accs res'] Inr q by (simp add: round_outcome_def res1_def)
qed

lemma test_round_outcome:
  "round_due cfg smp accs res \<Longrightarrow> round_outcome pf cfg accs res (test_round pf cfg smp accs res new)"
proof (induction accs arbitrary: res new)
  case (Cons q accs)
  obtain nm acc where q: "q = (nm, acc)" by fastforce
  have same: "round_outcome pf cfg (q # accs) res (test_round pf cfg smp accs res new)"
    using round_due_later [OF Cons.prems] by (intro round_outcome_skip Cons.IH) blast
  show ?case
  proof (cases "map_of res nm = None")
    case False
    then show ?thesis
      using same q by auto
  next
    case True
    then obtain mc actual where e: "map_of smp nm = Some mc" "map_of (cfg_actual cfg) nm = Some actual"
      using Cons.prems q by (auto simp: round_due_def)
    have counts: "0 < acc_trials acc" "0 \<le> lte_actual acc" "lte_actual acc \<le> acc_trials acc"
      "0 \<le> gte_actual acc" "gte_actual acc \<le> acc_trials acc"
      using True Cons.prems q by (auto simp: round_due_def sound_counts_def)
    let ?t = "significance_test pf res (cfg_eps cfg) (cfg_log_inner_eps cfg) nm (cfg_data cfg) actual
      (lte_actual acc) (gte_actual acc) (acc_trials acc)"
    have step: "test_round pf cfg smp (q # accs) res new =
        bind_result ?t (\<lambda>(res', found). test_round pf cfg smp accs res' (new \<or> found))"
      using True e q by (simp add: dict_get_def)
    show ?thesis
    proof (cases rule: significance_test_cases [OF counts refl, of pf res "cfg_eps cfg" "cfg_log_inner_eps cfg" nm "cfg_data cfg" actual,
          consumes 0, case_names raises found undecided])
      case (raises e)
      then show ?thesis
        unfolding step by (simp add: round_outcome_def)
    next
      case (found j)
      let ?res = "AList.update nm (result_of cfg nm j (acc_trials acc)) res"
      have eq: "test_round pf cfg smp (q # accs) res new = test_round pf cfg smp accs ?res True"
        unfolding step using found(2) e(2) by (simp add: result_of_def)
      have "round_due cfg smp accs ?res"
        by (rule round_due_later [OF Cons.prems]) (simp add: update_conv' split: if_splits)
      then show ?thesis
        unfolding eq unfolding q by (intro round_outcome_found [OF True found(1) _ refl] Cons.IH)
    next
      case undecided
      then show ?thesis
        unfolding step using same by simp
    qed
  qed
qed (simp add: round_outcome_def round_adds_refl)

lemma test_round_cases:
  assumes "\<forall>(nm, acc) \<in> set accs. map_of res nm = None \<longrightarrow>
      sound_counts acc \<and> map_of (cfg_actual cfg) nm \<noteq> None \<and> map_of smp nm \<noteq> None"
  shows "case test_round pf cfg smp accs res new of
      Inl e \<Rightarrow> csm_raises pf (cfg_eps cfg) (cfg_log_inner_eps cfg) e
    | Inr (res', new') \<Rightarrow> round_adds pf cfg accs res res' \<and> (\<not> new' \<longrightarrow> res' = res)"
  using test_round_outcome assms unfolding round_due_def round_outcome_def .

subsection \<open>The invariant of the loop\<close>

definition stat_names :: "test_config \<Rightarrow> string set" where
  "stat_names cfg = set (map fst (cfg_actual cfg))"

definition config_ok :: "test_config \<Rightarrow> bool" where
  "config_ok cfg \<longleftrightarrow> distinct (map fst (cfg_actual cfg)) \<and> name ` set (cfg_statistics cfg) = stat_names cfg"

definition unresolved :: "test_config \<Rightarrow> test_state \<Rightarrow> string set" where
  "unresolved cfg st = {nm \<in> stat_names cfg. map_of (resolved st) nm = None}"

definition values_of :: "string \<Rightarrow> f64 dict list \<Rightarrow> f64 list" where
  "values_of nm samples = map (\<lambda>d. the (map_of d nm)) samples"

definition tally_of :: "test_config \<Rightarrow> string \<Rightarrow> f64 dict list \<Rightarrow> result_accumulator" where
  "tally_of cfg nm samples = tally (the (map_of (cfg_actual cfg) nm)) (values_of nm samples)"

text \<open>
  Why a statistic has a result: it was resolved before sampling, or the tests judged its tally
  over the first \<open>k\<close> values, at one of the counts at which the code tests.
\<close>

definition resolved_early :: "test_config \<Rightarrow> string \<Rightarrow> bool" where
  "resolved_early cfg nm \<longleftrightarrow>
     \<not> feq (the (map_of (cfg_actual cfg) nm)) (the (map_of (cfg_actual cfg) nm)) \<or>
     a_class (cfg_data cfg) = [] \<and> b_class (cfg_data cfg) = []"

definition justified :: "platform \<Rightarrow> test_config \<Rightarrow> f64 dict list \<Rightarrow> string \<Rightarrow> test_result \<Rightarrow> bool" where
  "justified pf cfg samples nm r \<longleftrightarrow>
     resolved_early cfg nm \<and> r = result_of cfg nm 0 0 \<or>
     (\<exists>k j. 0 < k \<and> k \<le> length samples \<and> 250 dvd k \<and> r = result_of cfg nm j (int k) \<and>
        judges pf (cfg_eps cfg) (cfg_log_inner_eps cfg) (tally_of cfg nm (take k samples)) j)"

definition exact_inv :: "platform \<Rightarrow> test_config \<Rightarrow> f64 dict list \<Rightarrow> test_state \<Rightarrow> bool" where
  "exact_inv pf cfg samples st \<longleftrightarrow>
     map fst (accumulators st) = map fst (cfg_actual cfg) \<and>
     seen st = int (length samples) \<and> 250 dvd test_every st \<and> 0 < test_every st \<and>
     distinct (map fst (resolved st)) \<and>
     (\<forall>nm r. map_of (resolved st) nm = Some r \<longrightarrow> nm \<in> stat_names cfg \<and> justified pf cfg samples nm r) \<and>
     (\<forall>nm \<in> unresolved cfg st. map_of (accumulators st) nm = Some (tally_of cfg nm samples)) \<and>
     plans st \<noteq> [] \<and>
     (\<forall>p \<in> set (plans st). unresolved cfg st \<subseteq> plan_names p \<and> plan_names p \<subseteq> stat_names cfg)"

text \<open>What the loop needs of a value: every statistic that is still open is there.\<close>

definition sample_fits :: "test_config \<Rightarrow> test_state \<Rightarrow> f64 dict \<Rightarrow> bool" where
  "sample_fits cfg st smp \<longleftrightarrow> distinct (map fst smp) \<and> set (map fst smp) \<subseteq> stat_names cfg \<and>
     unresolved cfg st \<subseteq> set (map fst smp)"

lemma justified_snoc: "justified pf cfg samples nm r \<Longrightarrow> justified pf cfg (samples @ [smp]) nm r"
  unfolding justified_def by fastforce

lemma tally_of_snoc:
  "map_of smp nm = Some v \<Longrightarrow>
     bump (the (map_of (cfg_actual cfg) nm)) v (tally_of cfg nm samples) = tally_of cfg nm (samples @ [smp])"
  by (simp add: tally_of_def values_of_def bump_tally)

lemma tally_sound: "samples \<noteq> [] \<Longrightarrow> sound_counts (tally_of cfg nm samples)"
  using tally_ranges [of "the (map_of (cfg_actual cfg) nm)" "values_of nm samples"]
  by (simp add: sound_counts_def tally_of_def values_of_def tally_def)

text \<open>Counting a value keeps the tallies.\<close>

lemma count_step:
  assumes inv: "exact_inv pf cfg samples st" and ok: "config_ok cfg" and fits: "sample_fits cfg st smp"
  obtains accs where "count_sample (cfg_actual cfg) smp (accumulators st) = Inr accs"
    "map fst accs = map fst (cfg_actual cfg)"
    "\<forall>nm \<in> unresolved cfg st. map_of accs nm = Some (tally_of cfg nm (samples @ [smp]))"
proof -
  have keys: "map fst (accumulators st) = map fst (cfg_actual cfg)"
    using inv by (simp add: exact_inv_def)
  have "set (map fst smp) \<subseteq> set (map fst (cfg_actual cfg))"
    "set (map fst (cfg_actual cfg)) \<subseteq> set (map fst (accumulators st))" "distinct (map fst smp)"
    using fits keys unfolding sample_fits_def stat_names_def by simp_all
  from count_sample_returns [OF this] obtain accs where
    accs: "count_sample (cfg_actual cfg) smp (accumulators st) = Inr accs"
    "map fst accs = map fst (accumulators st)"
    and at: "\<And>k. map_of accs k = (case map_of smp k of None \<Rightarrow> map_of (accumulators st) k
       | Some v \<Rightarrow> Some (bump (the (map_of (cfg_actual cfg) k)) v (the (map_of (accumulators st) k))))"
    by blast
  have "map_of accs nm = Some (tally_of cfg nm (samples @ [smp]))" if nm: "nm \<in> unresolved cfg st" for nm
  proof -
    have "nm \<in> set (map fst smp)"
      using fits nm by (auto simp: sample_fits_def)
    then obtain v where v: "map_of smp nm = Some v"
      using map_of_in_keys [of smp nm] by blast
    have "map_of (accumulators st) nm = Some (tally_of cfg nm samples)"
      using inv nm by (simp add: exact_inv_def)
    then show ?thesis
      using at [of nm] v tally_of_snoc [OF v] by simp
  qed
  then show ?thesis
    using that accs keys by auto
qed

text \<open>The dict that the code returns.\<close>

lemma final_dict_eq:
  assumes "distinct (map fst (cfg_actual cfg))" "\<forall>nm \<in> stat_names cfg. map_of res nm \<noteq> None"
  shows "final_dict cfg res = Inr (map (\<lambda>(nm, _). (nm, the (map_of res nm))) (cfg_actual cfg))"
proof -
  let ?f = "\<lambda>acc (nm, _ :: f64). bind_result acc (\<lambda>d. bind_result (dict_get res nm) (\<lambda>r. Inr (AList.update nm r d)))"
  have fresh: "AList.update k v d = d @ [(k, v)]" if "k \<notin> set (map fst d)" for k and v :: test_result and d
    using that by (induction d) auto
  have "foldl ?f (Inr d) xs = Inr (d @ map (\<lambda>(nm, _). (nm, the (map_of res nm))) xs)"
    if "distinct (map fst d @ map fst xs)" "\<forall>nm \<in> set (map fst xs). map_of res nm \<noteq> None" for d xs
    using that
  proof (induction xs arbitrary: d)
    case (Cons q xs)
    obtain nm a where q: "q = (nm, a)" by fastforce
    obtain r where r: "map_of res nm = Some r"
      using Cons.prems(2) q by auto
    have "foldl ?f (Inr d) (q # xs) = foldl ?f (Inr (d @ [(nm, r)])) xs"
      using Cons.prems(1) q r fresh [of nm d r] by (auto simp: dict_get_def)
    also have "\<dots> = Inr ((d @ [(nm, r)]) @ map (\<lambda>(nm, _). (nm, the (map_of res nm))) xs)"
      using Cons.prems q by (intro Cons.IH) auto
    finally show ?case
      using q r by simp
  qed simp
  from this [of "[]" "cfg_actual cfg"] show ?thesis
    using assms by (simp add: final_dict_def stat_names_def)
qed

text \<open>A round that is allowed to look at the values \<open>samples\<close> keeps the invariant's clauses.\<close>

lemma round_justified:
  assumes adds: "round_adds pf cfg accs (resolved st) res'" and ok: "config_ok cfg"
    and keys: "map fst accs = map fst (cfg_actual cfg)"
    and tallies: "\<forall>nm \<in> unresolved cfg st. map_of accs nm = Some (tally_of cfg nm samples)"
    and old: "\<forall>nm r. map_of (resolved st) nm = Some r \<longrightarrow> nm \<in> stat_names cfg \<and> justified pf cfg samples nm r"
    and len: "samples \<noteq> []" "250 dvd length samples" and r: "map_of res' nm = Some r"
  shows "nm \<in> stat_names cfg \<and> justified pf cfg samples nm r"
proof (cases "map_of (resolved st) nm")
  case (Some r')
  then show ?thesis
    using adds old r by (auto simp: round_adds_def)
next
  case None
  then obtain acc j where j: "(nm, acc) \<in> set accs" "judges pf (cfg_eps cfg) (cfg_log_inner_eps cfg) acc j"
    "r = result_of cfg nm j (acc_trials acc)"
    using adds r unfolding round_adds_def by blast
  have dist: "distinct (map fst accs)"
    using keys ok by (simp add: config_ok_def)
  have nm: "nm \<in> stat_names cfg"
    using j(1) keys unfolding stat_names_def by (metis fst_conv image_eqI set_map)
  then have "nm \<in> unresolved cfg st"
    using None by (simp add: unresolved_def)
  then have acc: "acc = tally_of cfg nm samples"
    using tallies map_of_is_SomeI [OF dist j(1)] by auto
  then have "acc_trials acc = int (length samples)"
    by (simp add: tally_of_def tally_def values_of_def)
  then have "justified pf cfg samples nm r"
    unfolding justified_def using j acc len
    by (intro disjI2 exI [of _ "length samples"] exI [of _ j]) simp
  then show ?thesis
    using nm by simp
qed

lemma plan_names_unresolved:
  assumes "config_ok cfg"
  shows "plan_names (group_statistics_in_plan (filter (\<lambda>stat. map_of (resolved st) (name stat) = None)
    (cfg_statistics cfg))) = unresolved cfg st"
  using assms by (auto simp: plan_names_group unresolved_def config_ok_def)

lemma all_resolved:
  assumes "length (resolved st) = length (cfg_actual cfg)" "distinct (map fst (resolved st))" "config_ok cfg"
    and "\<forall>nm r. map_of (resolved st) nm = Some r \<longrightarrow> nm \<in> stat_names cfg"
  shows "unresolved cfg st = {}"
proof -
  have sub: "set (map fst (resolved st)) \<subseteq> stat_names cfg"
    using assms(2,4) by auto
  have "card (set (map fst (resolved st))) = card (stat_names cfg)"
    unfolding stat_names_def using assms(1-3) distinct_card by (metis config_ok_def length_map)
  then have "set (map fst (resolved st)) = stat_names cfg"
    using sub by (intro card_subset_eq) (simp_all add: stat_names_def)
  then have "map_of (resolved st) nm \<noteq> None" if "nm \<in> stat_names cfg" for nm
    using that unfolding map_of_in_keys by simp
  then show ?thesis
    by (auto simp: unresolved_def)
qed

text \<open>One iteration.\<close>

definition step_outcome ::
    "platform \<Rightarrow> test_config \<Rightarrow> f64 dict list \<Rightarrow> test_state progress result \<Rightarrow> bool" where
  "step_outcome pf cfg samples r \<longleftrightarrow>
     (case r of
        Inl e \<Rightarrow> csm_raises pf (cfg_eps cfg) (cfg_log_inner_eps cfg) e
      | Inr (Next st') \<Rightarrow> exact_inv pf cfg samples st'
      | Inr (Final d) \<Rightarrow> map fst d = map fst (cfg_actual cfg) \<and>
          (\<forall>(nm, r) \<in> set d. justified pf cfg samples nm r))"

text \<open>The last part of an iteration: a round of tests, a new plan, and the test for the end.\<close>

definition end_test :: "test_config \<Rightarrow> test_state \<Rightarrow> test_state progress result" where
  "end_test cfg st =
     (if length (resolved st) = length (cfg_actual cfg)
      then bind_result (final_dict cfg (resolved st)) (\<lambda>d. Inr (Final d)) else Inr (Next st))"

definition finish_step :: "platform \<Rightarrow> test_config \<Rightarrow> f64 dict \<Rightarrow> test_state \<Rightarrow> test_state progress result" where
  "finish_step pf cfg smp st =
     bind_result (test_round pf cfg smp (accumulators st) (resolved st) False) (\<lambda>(ret', new_significant).
       let st3 = st\<lparr>resolved := ret'\<rparr>;
           st4 = (if new_significant then update_grouped_stats cfg st3 else st3)
       in end_test cfg st4)"

lemma round_ready:
  assumes inv: "exact_inv pf cfg samples st" and ok: "config_ok cfg" and ne: "samples \<noteq> []"
    and smp: "unresolved cfg st \<subseteq> set (map fst smp)"
  shows "\<forall>(nm, acc) \<in> set (accumulators st). map_of (resolved st) nm = None \<longrightarrow>
    sound_counts acc \<and> map_of (cfg_actual cfg) nm \<noteq> None \<and> map_of smp nm \<noteq> None"
proof (intro ballI, unfold split_paired_all prod.case, intro impI)
  fix nm acc assume m: "(nm, acc) \<in> set (accumulators st)" "map_of (resolved st) nm = None"
  have keys: "map fst (accumulators st) = map fst (cfg_actual cfg)"
    using inv by (simp add: exact_inv_def)
  have nm: "nm \<in> stat_names cfg"
    using m(1) keys unfolding stat_names_def by (metis fst_conv image_eqI set_map)
  then have u: "nm \<in> unresolved cfg st"
    using m(2) by (simp add: unresolved_def)
  have "distinct (map fst (accumulators st))"
    using keys ok by (simp add: config_ok_def)
  then have "map_of (accumulators st) nm = Some acc"
    by (rule map_of_is_SomeI [OF _ m(1)])
  moreover have "map_of (accumulators st) nm = Some (tally_of cfg nm samples)"
    using inv u unfolding exact_inv_def by blast
  ultimately have "acc = tally_of cfg nm samples"
    by simp
  moreover have "nm \<in> set (map fst smp)"
    using smp u by blast
  ultimately show "sound_counts acc \<and> map_of (cfg_actual cfg) nm \<noteq> None \<and> map_of smp nm \<noteq> None"
    using nm tally_sound [OF ne, of cfg nm] unfolding map_of_in_keys stat_names_def by simp
qed

lemma round_keeps_inv:
  assumes inv: "exact_inv pf cfg samples st" and ok: "config_ok cfg" and len: "samples \<noteq> []" "250 dvd length samples"
    and adds: "round_adds pf cfg (accumulators st) (resolved st) res'"
  shows "exact_inv pf cfg samples (st\<lparr>resolved := res'\<rparr>)"
    and "exact_inv pf cfg samples (update_grouped_stats cfg (st\<lparr>resolved := res'\<rparr>))"
proof -
  let ?st = "st\<lparr>resolved := res'\<rparr>"
  have just: "\<forall>nm r. map_of res' nm = Some r \<longrightarrow> nm \<in> stat_names cfg \<and> justified pf cfg samples nm r"
    using round_justified [OF adds ok _ _ _ len] inv unfolding exact_inv_def by blast
  have fewer: "unresolved cfg ?st \<subseteq> unresolved cfg st"
  proof
    fix nm assume "nm \<in> unresolved cfg ?st"
    then have "nm \<in> stat_names cfg" "map_of res' nm = None"
      by (simp_all add: unresolved_def)
    then show "nm \<in> unresolved cfg st"
      using adds by (cases "map_of (resolved st) nm") (auto simp: unresolved_def round_adds_def)
  qed
  show first: "exact_inv pf cfg samples ?st"
  proof -
    have "\<forall>p \<in> set (plans st). unresolved cfg ?st \<subseteq> plan_names p \<and> plan_names p \<subseteq> stat_names cfg"
      and "\<forall>nm \<in> unresolved cfg ?st. map_of (accumulators st) nm = Some (tally_of cfg nm samples)"
      using inv fewer unfolding exact_inv_def by blast+
    moreover have "distinct (map fst res')"
      using inv adds by (simp add: exact_inv_def round_adds_def)
    ultimately show ?thesis
      using inv just by (simp add: exact_inv_def)
  qed
  have "unresolved cfg (update_grouped_stats cfg ?st) = unresolved cfg ?st"
    by (simp add: unresolved_def update_grouped_stats_def)
  moreover have "unresolved cfg ?st \<subseteq> stat_names cfg"
    by (auto simp: unresolved_def)
  ultimately show "exact_inv pf cfg samples (update_grouped_stats cfg ?st)"
    using first plan_names_unresolved [OF ok, of ?st]
    unfolding exact_inv_def by (simp add: update_grouped_stats_def)
qed

lemma end_test_outcome:
  assumes inv: "exact_inv pf cfg samples st" and ok: "config_ok cfg"
  shows "step_outcome pf cfg samples (end_test cfg st)"
proof (cases "length (resolved st) = length (cfg_actual cfg)")
  case True
  have "distinct (map fst (resolved st))"
    and "\<forall>nm r. map_of (resolved st) nm = Some r \<longrightarrow> nm \<in> stat_names cfg"
    using inv unfolding exact_inv_def by blast+
  then have none: "unresolved cfg st = {}"
    by (intro all_resolved [OF True _ ok])
  have all: "\<forall>nm \<in> stat_names cfg. map_of (resolved st) nm \<noteq> None"
  proof (intro ballI notI)
    fix nm assume "nm \<in> stat_names cfg" "map_of (resolved st) nm = None"
    then have "nm \<in> unresolved cfg st"
      by (simp add: unresolved_def)
    then show False
      using none by simp
  qed
  let ?d = "map (\<lambda>(nm, _). (nm, the (map_of (resolved st) nm))) (cfg_actual cfg)"
  have "justified pf cfg samples nm (the (map_of (resolved st) nm))" if "nm \<in> stat_names cfg" for nm
  proof -
    have "map_of (resolved st) nm = Some (the (map_of (resolved st) nm))"
      using bspec [OF all that] by (cases "map_of (resolved st) nm") simp_all
    then show ?thesis
      using inv unfolding exact_inv_def by blast
  qed
  then have "\<forall>(nm, r) \<in> set ?d. justified pf cfg samples nm r"
    by (force simp: stat_names_def)
  moreover have "map fst ?d = map fst (cfg_actual cfg)"
    by (auto simp: split_beta)
  moreover have "final_dict cfg (resolved st) = Inr ?d"
    using ok all by (intro final_dict_eq) (simp_all add: config_ok_def)
  ultimately show ?thesis
    using True by (simp add: step_outcome_def end_test_def)
qed (use inv in \<open>simp add: step_outcome_def end_test_def\<close>)

lemma finish_step_outcome:
  assumes inv: "exact_inv pf cfg samples st" and ok: "config_ok cfg" and len: "samples \<noteq> []" "250 dvd length samples"
    and smp: "unresolved cfg st \<subseteq> set (map fst smp)"
  shows "step_outcome pf cfg samples (finish_step pf cfg smp st)"
proof -
  note round = test_round_cases [OF round_ready [OF inv ok len(1) smp], of pf False]
  show ?thesis
  proof (cases "test_round pf cfg smp (accumulators st) (resolved st) False")
    case (Inl e)
    then show ?thesis
      using round by (simp add: finish_step_def step_outcome_def)
  next
    case (Inr q)
    obtain res' new where q: "q = (res', new)" by (cases q)
    then have "round_adds pf cfg (accumulators st) (resolved st) res'"
      using round Inr by simp
    note keeps = round_keeps_inv [OF inv ok len this]
    show ?thesis
      using Inr q end_test_outcome [OF keeps(1) ok] end_test_outcome [OF keeps(2) ok]
      by (cases new) (simp_all add: finish_step_def Let_def)
  qed
qed

lemma exact_step_outcome:
  assumes inv: "exact_inv pf cfg samples st" and ok: "config_ok cfg" and fits: "sample_fits cfg st smp"
  shows "step_outcome pf cfg (samples @ [smp]) (exact_step pf cfg st smp)"
proof -
  let ?samples = "samples @ [smp]"
  obtain accs where accs: "count_sample (cfg_actual cfg) smp (accumulators st) = Inr accs"
    "map fst accs = map fst (cfg_actual cfg)"
    "\<forall>nm \<in> unresolved cfg st. map_of accs nm = Some (tally_of cfg nm ?samples)"
    using count_step [OF inv ok fits] .
  let ?st1 = "st\<lparr>accumulators := accs, seen := seen st + 1\<rparr>"
  let ?st2 = "if 40 * test_every ?st1 \<le> seen ?st1 then ?st1\<lparr>test_every := test_every ?st1 * 10\<rparr> else ?st1"
  have inv1: "exact_inv pf cfg ?samples ?st1"
    using inv accs(2,3) justified_snoc by (auto simp: exact_inv_def unresolved_def)
  show ?thesis
  proof (cases "seen ?st1 mod test_every ?st1 \<noteq> 0")
    case True
    then show ?thesis
      using accs(1) inv1 by (simp add: exact_step_def step_outcome_def Let_def)
  next
    case test: False
    have inv2: "exact_inv pf cfg ?samples ?st2"
      using inv1 by (auto simp: exact_inv_def unresolved_def)
    have "test_every ?st1 dvd seen ?st1" "250 dvd test_every ?st1" "seen ?st1 = int (length ?samples)"
      using inv1 test by (simp_all add: exact_inv_def dvd_eq_mod_eq_0)
    then have "int 250 dvd int (length ?samples)"
      using dvd_trans [of 250 "test_every ?st1" "seen ?st1"] by (simp add: add.commute)
    then have dvd: "250 dvd length ?samples"
      unfolding int_dvd_int_iff .
    have "unresolved cfg ?st2 = unresolved cfg st"
      by (simp add: unresolved_def)
    then have "unresolved cfg ?st2 \<subseteq> set (map fst smp)"
      using fits by (simp add: sample_fits_def)
    from finish_step_outcome [OF inv2 ok _ dvd this] have
      "step_outcome pf cfg ?samples (finish_step pf cfg smp ?st2)" by simp
    moreover have "exact_step pf cfg st smp = finish_step pf cfg smp ?st2"
      using test accs(1) by (simp add: exact_step_def finish_step_def end_test_def Let_def)
    ultimately show ?thesis by simp
  qed
qed

subsection \<open>The whole loop\<close>

text \<open>Values that fit for as long as the loop asks for them.\<close>

fun stream_fits :: "platform \<Rightarrow> test_config \<Rightarrow> test_state \<Rightarrow> f64 dict gen \<Rightarrow> bool" where
  "stream_fits pf cfg st (Yield smp samples) =
     (sample_fits cfg st smp \<and>
      (case exact_step pf cfg st smp of Inr (Next st') \<Rightarrow> stream_fits pf cfg st' samples | _ \<Rightarrow> True))"
| "stream_fits pf cfg st Done = True"
| "stream_fits pf cfg st (Raise e) = True"

text \<open>The values a generator produces, and how it ends.\<close>

fun gen_items :: "'a gen \<Rightarrow> 'a list" where
  "gen_items Done = []"
| "gen_items (Raise e) = []"
| "gen_items (Yield x g) = x # gen_items g"

fun gen_raises :: "'a gen \<Rightarrow> py_error \<Rightarrow> bool" where
  "gen_raises Done e = False"
| "gen_raises (Raise e') e = (e' = e)"
| "gen_raises (Yield x g) e = gen_raises g e"

definition run_outcome ::
    "platform \<Rightarrow> test_config \<Rightarrow> f64 dict list \<Rightarrow> f64 dict gen \<Rightarrow> test_state progress result \<Rightarrow> bool" where
  "run_outcome pf cfg before g r \<longleftrightarrow>
     (case r of
        Inl e \<Rightarrow> csm_raises pf (cfg_eps cfg) (cfg_log_inner_eps cfg) e \<or> gen_raises g e
      | Inr (Next st') \<Rightarrow> exact_inv pf cfg (before @ gen_items g) st'
      | Inr (Final d) \<Rightarrow> map fst d = map fst (cfg_actual cfg) \<and>
          (\<exists>n \<le> length (gen_items g). \<forall>(nm, r) \<in> set d. justified pf cfg (before @ take n (gen_items g)) nm r))"

lemma exact_run_outcome:
  "\<lbrakk>exact_inv pf cfg before st; config_ok cfg; stream_fits pf cfg st g\<rbrakk> \<Longrightarrow>
     run_outcome pf cfg before g (exact_run pf cfg st g)"
proof (induction g arbitrary: before st)
  case (Yield smp g)
  have step: "step_outcome pf cfg (before @ [smp]) (exact_step pf cfg st smp)"
    using Yield.prems by (intro exact_step_outcome) simp_all
  show ?case
  proof (cases "exact_step pf cfg st smp")
    case (Inl e)
    then show ?thesis
      using step by (simp add: run_outcome_def step_outcome_def)
  next
    case (Inr p)
    show ?thesis
    proof (cases p)
      case (Next st')
      then have "run_outcome pf cfg (before @ [smp]) g (exact_run pf cfg st' g)"
        using step Inr Yield.prems by (intro Yield.IH) (simp_all add: step_outcome_def)
      moreover have "exact_run pf cfg st (Yield smp g) = exact_run pf cfg st' g"
        using Inr Next by simp
      ultimately show ?thesis
        by (fastforce simp: run_outcome_def split: sum.splits progress.splits intro: exI [of _ "Suc _"])
    next
      case (Final d)
      then show ?thesis
        using step Inr by (auto simp: run_outcome_def step_outcome_def intro!: exI [of _ "Suc 0"])
    qed
  qed
qed (simp_all add: run_outcome_def)

subsection \<open>Before the loop\<close>

lemma resolve_early_entries:
  assumes "distinct (map fst actuals)"
  shows "map_of (resolve_early data actuals) nm =
      (case map_of actuals nm of None \<Rightarrow> None | Some actual \<Rightarrow>
         if \<not> feq actual actual \<or> a_class data = [] \<and> b_class data = []
         then Some \<lparr>actual_value = actual, judgement = Some 0, class_m = length (a_class data),
           class_n = length (b_class data), num_trials = 0\<rparr> else None) \<and>
    distinct (map fst (resolve_early data actuals))"
  using assms
proof (induction actuals rule: rev_induct)
  case (snoc q actuals)
  obtain k a where q: "q = (k, a)" by fastforce
  have "map_of actuals k = None"
    using snoc.prems q by (simp add: map_of_eq_None_iff)
  then show ?case
    using snoc q by (auto simp: resolve_early_def update_conv' distinct_update map_add_def split: option.splits)
qed (simp add: resolve_early_def)

lemma filter_full_length: "length (filter P xs) = length xs \<Longrightarrow> filter P xs = xs"
  by (induction xs) (auto split: if_splits, metis Suc_n_not_le_n length_filter_le)

lemma resolve_early_filter:
  assumes "distinct (map fst actuals)"
  shows "resolve_early data actuals =
    map (\<lambda>(nm, actual). (nm, \<lparr>actual_value = actual, judgement = Some 0, class_m = length (a_class data),
        class_n = length (b_class data), num_trials = 0\<rparr>))
      (filter (\<lambda>(nm, actual). \<not> feq actual actual \<or> a_class data = [] \<and> b_class data = []) actuals)"
  using assms
proof (induction actuals rule: rev_induct)
  case (snoc q actuals)
  obtain k a where q: "q = (k, a)" by fastforce
  have fresh: "AList.update k v xs = xs @ [(k, v)]" if "k \<notin> set (map fst xs)" for v :: test_result and xs
    using that by (induction xs) auto
  have step: "resolve_early data (actuals @ [q]) =
      (if \<not> feq a a \<or> (a_class data = [] \<and> b_class data = [])
       then AList.update k \<lparr>actual_value = a, judgement = Some 0, class_m = length (a_class data),
              class_n = length (b_class data), num_trials = 0\<rparr> (resolve_early data actuals)
       else resolve_early data actuals)"
    by (simp add: resolve_early_def q)
  have "k \<notin> fst ` set actuals"
    using snoc.prems q by simp
  then have "k \<notin> set (map fst (resolve_early data actuals))"
    using snoc.IH snoc.prems by (auto simp: image_iff)
  then have grow: "AList.update k v (resolve_early data actuals) = resolve_early data actuals @ [(k, v)]" for v
    by (rule fresh)
  show ?case
    unfolding step grow using snoc.IH snoc.prems q by simp
qed (simp add: resolve_early_def)

lemma compute_statistics_order:
  "\<lbrakk>compute_statistics ex buf m n stats d = Inr d'; distinct (map fst d @ map name stats)\<rbrakk> \<Longrightarrow>
     map fst d' = map fst d @ map name stats"
proof (induction ex buf m n stats d rule: compute_statistics.induct)
  case (2 ex buf m n stat stats d)
  then obtain v where v: "statistic_fn ex (fn_name stat) buf m n (fn_args stat) = Inr v"
    "compute_statistics ex buf m n stats (AList.update (name stat) v d) = Inr d'"
    by (auto simp: bind_result_eq_Inr_iff)
  have fresh: "map fst (AList.update k v xs) = map fst xs @ [k]" if "k \<notin> set (map fst xs)" for k and xs :: "f64 dict"
    using that by (induction xs) auto
  have keys: "map fst (AList.update (name stat) v d) = map fst d @ [name stat]"
    using 2(3) by (intro fresh) simp
  have "map fst d' = map fst (AList.update (name stat) v d) @ map name stats"
    using 2(3) keys by (intro 2(1) [OF v(2)]) simp
  then show ?case
    using keys by simp
qed simp

lemma initial_inv:
  assumes ok: "config_ok cfg" and data: "early = resolve_early (cfg_data cfg) (cfg_actual cfg)"
  shows "exact_inv pf cfg [] (update_grouped_stats cfg
    \<lparr>accumulators = map (\<lambda>(nm, _). (nm, INITIAL_RESULT_ACCUMULATOR)) (cfg_actual cfg),
     resolved = early, seen = 0, test_every = 250, plans = []\<rparr>)"
proof -
  let ?st = "\<lparr>accumulators = map (\<lambda>(nm, _). (nm, INITIAL_RESULT_ACCUMULATOR)) (cfg_actual cfg),
     resolved = early, seen = 0, test_every = 250, plans = []\<rparr>"
  have dist: "distinct (map fst (cfg_actual cfg))"
    using ok by (simp add: config_ok_def)
  note entries = resolve_early_entries [OF dist, of "cfg_data cfg"]
  have just: "nm \<in> stat_names cfg \<and> justified pf cfg [] nm r" if found: "map_of early nm = Some r" for nm r
  proof -
    obtain actual where actual: "map_of (cfg_actual cfg) nm = Some actual"
      using found entries [of nm] unfolding data by (auto split: option.splits)
    then have "nm \<in> stat_names cfg"
      unfolding stat_names_def map_of_in_keys [symmetric] by simp
    moreover have "resolved_early cfg nm \<and> r = result_of cfg nm 0 0"
      using found entries [of nm] actual unfolding data
      by (auto simp: resolved_early_def result_of_def split: if_splits)
    ultimately show ?thesis
      by (simp add: justified_def)
  qed
  have start: "map_of (map (\<lambda>(nm, _). (nm, INITIAL_RESULT_ACCUMULATOR)) xs) nm = Some (tally_of cfg nm [])"
    if "nm \<in> set (map fst xs)" for nm and xs :: "f64 dict"
    using that by (induction xs) (auto simp: tally_of_def values_of_def tally_def INITIAL_RESULT_ACCUMULATOR_def)
  have same: "unresolved cfg (update_grouped_stats cfg ?st) = unresolved cfg ?st"
    by (simp add: unresolved_def update_grouped_stats_def)
  have "distinct (map fst early)"
    using entries data by simp
  moreover have "\<forall>nm \<in> unresolved cfg ?st. map_of (accumulators ?st) nm = Some (tally_of cfg nm [])"
    using start by (simp add: unresolved_def stat_names_def)
  moreover have "map fst (accumulators ?st) = map fst (cfg_actual cfg)"
    by (auto simp: split_beta)
  moreover have "unresolved cfg ?st \<subseteq> stat_names cfg"
    by (auto simp: unresolved_def)
  ultimately show ?thesis
    using just plan_names_unresolved [OF ok, of ?st] unfolding exact_inv_def same
    by (simp add: update_grouped_stats_def)
qed

lemma exact_start_looping:
  assumes "exact_start pf ex xoshiro a b statistics eps = Inr (Sampling cfg st)"
  shows "config_ok cfg" "exact_inv pf cfg [] st" "cfg_data cfg = \<lparr>a_class = a, b_class = b\<rparr>"
    "cfg_statistics cfg = statistics" "map fst (cfg_actual cfg) = map name statistics"
proof -
  have ne: "statistics \<noteq> []" "length statistics = card (set (map name statistics))"
    using assms by (auto simp: exact_start_def split: if_splits)
  have dist: "distinct (map name statistics)"
    using ne(2) by (intro card_distinct) simp
  let ?data = "\<lparr>a_class = a, b_class = b\<rparr>"
  obtain eps' log_eps actuals where parts: "bonferroni_eps pf (length statistics) eps = Inr eps'"
      "inner_log_eps pf eps' = Inr log_eps" "actual_data_results ex xoshiro ?data statistics = Inr actuals"
    using assms ne by (auto simp: exact_start_def Let_def bind_result_eq_Inr_iff)
  let ?cfg = "\<lparr>cfg_data = ?data, cfg_statistics = statistics, cfg_eps = eps', cfg_log_inner_eps = log_eps,
    cfg_actual = actuals\<rparr>"
  have cfg: "cfg = ?cfg" and st: "st = update_grouped_stats ?cfg
    \<lparr>accumulators = map (\<lambda>(nm, _). (nm, INITIAL_RESULT_ACCUMULATOR)) actuals,
     resolved = resolve_early ?data actuals, seen = 0, test_every = 250, plans = []\<rparr>"
    using assms ne parts by (auto simp: exact_start_def Let_def split: if_splits)
  obtain buf m n where "compute_statistics ex buf m n statistics [] = Inr actuals"
    using parts(3) by (auto simp: actual_data_results_def Let_def bind_result_eq_Inr_iff split_beta)
  then have keys: "map fst actuals = map name statistics"
    using compute_statistics_order dist by fastforce
  show "cfg_data cfg = ?data" "cfg_statistics cfg = statistics" "map fst (cfg_actual cfg) = map name statistics"
    using cfg keys by simp_all
  show ok: "config_ok cfg"
    using cfg keys dist by (simp add: config_ok_def stat_names_def del: set_map) simp
  show "exact_inv pf cfg [] st"
    using initial_inv [OF ok refl, of pf] unfolding st cfg by simp
qed

subsection \<open>What a call gives\<close>

lemma exact_start_finished:
  assumes "exact_start pf ex xoshiro a b statistics eps = Inr (Decided d)"
  shows "map fst d = map name statistics \<and> (\<forall>(nm, r) \<in> set d. judgement r = Some 0 \<and> num_trials r = 0 \<and>
    (\<not> feq (actual_value r) (actual_value r) \<or> a = [] \<and> b = []))"
proof (cases "statistics = []")
  case True
  then show ?thesis
    using assms by (simp add: exact_start_def)
next
  case ne: False
  have "length statistics = card (set (map name statistics))"
    using assms ne by (auto simp: exact_start_def split: if_splits)
  then have dist: "distinct (map name statistics)"
    by (intro card_distinct) simp
  let ?data = "\<lparr>a_class = a, b_class = b\<rparr>"
  obtain actuals where act: "actual_data_results ex xoshiro ?data statistics = Inr actuals"
    "d = resolve_early ?data actuals" "length d = length actuals"
    using assms ne by (auto simp: exact_start_def Let_def bind_result_eq_Inr_iff split: if_splits)
  obtain buf m n where "compute_statistics ex buf m n statistics [] = Inr actuals"
    using act(1) by (auto simp: actual_data_results_def Let_def bind_result_eq_Inr_iff split_beta)
  then have keys: "map fst actuals = map name statistics"
    using compute_statistics_order dist by fastforce
  have d: "d = resolve_early ?data actuals" and dist': "distinct (map fst actuals)"
    using act(2) keys dist by simp_all
  have all: "filter (\<lambda>(nm, actual). \<not> feq actual actual \<or> a = [] \<and> b = []) actuals = actuals"
    using act(3) unfolding d resolve_early_filter [OF dist']
    by (intro filter_full_length) simp
  then have d: "d = map (\<lambda>(nm, actual). (nm, \<lparr>actual_value = actual, judgement = Some 0, class_m = length a,
      class_n = length b, num_trials = 0\<rparr>)) actuals"
    unfolding act(2) resolve_early_filter [OF dist'] by simp
  have "\<forall>(nm, actual) \<in> set actuals. \<not> feq actual actual \<or> a = [] \<and> b = []"
    using all by (simp add: filter_id_conv)
  moreover have "map fst d = map fst actuals"
    unfolding d by (simp add: split_beta comp_def)
  ultimately show ?thesis
    unfolding d using keys by fastforce
qed

end
