(* ===== verification/Service.thy ===== *)
theory Service
  imports Prelude
begin

text \<open>
  The sampling service (\<open>ExactTestParameters\<close> and \<open>ExactTestSampler._update_test_params\<close> and
  \<open>simulate\<close>, \<open>t/exact_test_sampler.py\<close>) as a transition system. Three threads share the
  parameters: the updater that reads requests, the callback that marks a cancellation, and
  the generator that waits for data and then feeds workers. Each of them ends by setting
  \<open>done\<close> and then \<open>ready\<close>, in two steps that the others may come between; what happens under
  the lock is one step.
\<close>

record 'p request =
  a_values :: "int list"
  b_values :: "int list"
  parameters :: bytes

record 'p shared =
  is_done :: bool
  is_ready :: bool
  sample :: "(int list \<times> int list) option"
  params :: "'p option"

text \<open>
  One request, under the lock: the new state and the exception that ends the updater, if any.
  \<open>loads\<close> is \<open>pickle.loads\<close>; the plans that clients send are dicts, never \<open>None\<close>.
\<close>

definition update_request ::
    "(bytes \<Rightarrow> 'p result) \<Rightarrow> 'p request \<Rightarrow> 'p shared \<Rightarrow> 'p shared \<times> py_error option" where
  "update_request loads req s =
     (let s1 = (if a_values req \<noteq> [] \<or> b_values req \<noteq> []
                then s\<lparr>sample := Some (a_values req, b_values req)\<rparr> else s)
      in case (if parameters req \<noteq> [] then bind_result (loads (parameters req)) (\<lambda>p. Inr (Some p))
               else Inr (params s1)) of
           Inl e \<Rightarrow> (s1, Some e)
         | Inr p \<Rightarrow>
             (let s2 = s1\<lparr>params := p\<rparr> in
              (if sample s2 \<noteq> None \<and> params s2 \<noteq> None then s2\<lparr>is_ready := True\<rparr> else s2, None)))"

text \<open>Progress through \<open>done.set(); ready.set()\<close>.\<close>

datatype closer = Open | Half | Closed

fun close_step :: "closer \<Rightarrow> 'p shared \<Rightarrow> closer \<times> 'p shared" where
  "close_step Open s = (Half, s\<lparr>is_done := True\<rparr>)"
| "close_step Half s = (Closed, s\<lparr>is_ready := True\<rparr>)"
| "close_step Closed s = (Closed, s)"

datatype 'p updater = Serving "'p request list" | Finishing closer

datatype 'v simulator = Waiting | Checking | Looping | Holding 'v | Delivered | Leaving closer

record ('p, 'v) service =
  shared_state :: "'p shared"
  updater :: "'p updater"
  canceller :: closer
  simulator :: "'v simulator"
  reads :: "((int list \<times> int list) option \<times> 'p option) list"
  yielded :: "'v list"

definition service_start :: "'p request list \<Rightarrow> ('p, 'v) service" where
  "service_start requests =
     \<lparr>shared_state = \<lparr>is_done = False, is_ready = False, sample = None, params = None\<rparr>,
      updater = Serving requests, canceller = Open, simulator = Waiting, reads = [], yielded = []\<rparr>"

inductive service_step ::
    "(bytes \<Rightarrow> 'p result) \<Rightarrow> ('p, 'v) service \<Rightarrow> ('p, 'v) service \<Rightarrow> bool"
  for loads :: "bytes \<Rightarrow> 'p result" where
  \<comment> \<open>The updater: a request, a request that raises, the end of the requests or of the context.\<close>
  serve: "\<lbrakk>updater st = Serving (req # rest); update_request loads req (shared_state st) = (s, None)\<rbrakk>
    \<Longrightarrow> service_step loads st (st\<lparr>shared_state := s, updater := Serving rest\<rparr>)"
| serve_raises: "\<lbrakk>updater st = Serving (req # rest);
      update_request loads req (shared_state st) = (s, Some e)\<rbrakk>
    \<Longrightarrow> service_step loads st (st\<lparr>shared_state := s, updater := Finishing Open\<rparr>)"
| serve_ends: "updater st = Serving rest \<Longrightarrow> service_step loads st (st\<lparr>updater := Finishing Open\<rparr>)"
| finish: "\<lbrakk>updater st = Finishing k; close_step k (shared_state st) = (k', s)\<rbrakk>
    \<Longrightarrow> service_step loads st (st\<lparr>shared_state := s, updater := Finishing k'\<rparr>)"
  \<comment> \<open>The callback of the context.\<close>
| cancel: "close_step (canceller st) (shared_state st) = (k', s)
    \<Longrightarrow> service_step loads st (st\<lparr>shared_state := s, canceller := k'\<rparr>)"
  \<comment> \<open>The generator: waiting for data, checking, handing arguments to workers, yielding.\<close>
| wait_ready: "\<lbrakk>simulator st = Waiting; is_ready (shared_state st)\<rbrakk>
    \<Longrightarrow> service_step loads st (st\<lparr>simulator := Checking\<rparr>)"
| wait_timeout: "\<lbrakk>simulator st = Waiting; \<not> is_ready (shared_state st)\<rbrakk>
    \<Longrightarrow> service_step loads st (st\<lparr>simulator := Leaving Open\<rparr>)"
| check: "simulator st = Checking
    \<Longrightarrow> service_step loads st
      (st\<lparr>simulator := (if is_done (shared_state st) then Leaving Open else Looping)\<rparr>)"
| read_params: "simulator st = Looping
    \<Longrightarrow> service_step loads st
      (st\<lparr>reads := reads st @ [(sample (shared_state st), params (shared_state st))]\<rparr>)"
| produce: "simulator st = Looping
    \<Longrightarrow> service_step loads st
      (st\<lparr>simulator := (if is_done (shared_state st) then Leaving Open else Holding v)\<rparr>)"
| deliver: "simulator st = Holding v
    \<Longrightarrow> service_step loads st (st\<lparr>simulator := Delivered, yielded := yielded st @ [v]\<rparr>)"
| resume: "simulator st = Delivered
    \<Longrightarrow> service_step loads st
      (st\<lparr>simulator := (if is_done (shared_state st) then Leaving Open else Looping)\<rparr>)"
| abandon: "simulator st = Looping \<or> simulator st = Delivered
    \<Longrightarrow> service_step loads st (st\<lparr>simulator := Leaving Open\<rparr>)"
| leave: "\<lbrakk>simulator st = Leaving k; close_step k (shared_state st) = (k', s)\<rbrakk>
    \<Longrightarrow> service_step loads st (st\<lparr>shared_state := s, simulator := Leaving k'\<rparr>)"

inductive service_reachable ::
    "(bytes \<Rightarrow> 'p result) \<Rightarrow> 'p request list \<Rightarrow> ('p, 'v) service \<Rightarrow> bool"
  for loads requests where
  start: "service_reachable loads requests (service_start requests)"
| step: "\<lbrakk>service_reachable loads requests st; service_step loads st st'\<rbrakk>
    \<Longrightarrow> service_reachable loads requests st'"

subsection \<open>Workers always get both the sample and the parameters\<close>

definition populated :: "'p shared \<Rightarrow> bool" where
  "populated s \<longleftrightarrow> sample s \<noteq> None \<and> params s \<noteq> None"

text \<open>A shared state may only say \<open>ready\<close> without data once it says \<open>done\<close>.\<close>

definition announced :: "'p shared \<Rightarrow> bool" where
  "announced s \<longleftrightarrow> (is_ready s \<longrightarrow> populated s \<or> is_done s)"

definition closing :: "closer \<Rightarrow> 'p shared \<Rightarrow> bool" where
  "closing k s \<longleftrightarrow> (k \<noteq> Open \<longrightarrow> is_done s) \<and> (k = Closed \<longrightarrow> is_ready s)"

text \<open>Progress of the shared state: nothing is taken back.\<close>

definition grows :: "'p shared \<Rightarrow> 'p shared \<Rightarrow> bool" where
  "grows s s' \<longleftrightarrow> (is_done s \<longrightarrow> is_done s') \<and> (is_ready s \<longrightarrow> is_ready s') \<and> (populated s \<longrightarrow> populated s')"

definition service_invariant :: "('p, 'v) service \<Rightarrow> bool" where
  "service_invariant st \<longleftrightarrow>
     (let s = shared_state st in
      announced s \<and> closing (canceller st) s \<and>
      (\<forall>k. updater st = Finishing k \<longrightarrow> closing k s) \<and>
      (\<forall>k. simulator st = Leaving k \<longrightarrow> closing k s) \<and>
      (simulator st = Checking \<longrightarrow> is_ready s) \<and>
      (simulator st = Looping \<or> simulator st = Delivered \<or> (\<exists>v. simulator st = Holding v) \<longrightarrow> populated s) \<and>
      (\<forall>(x, y) \<in> set (reads st). x \<noteq> None \<and> y \<noteq> None))"

lemma update_request_grows:
  assumes "update_request loads req s = (s', e)"
  shows "grows s s'" and "announced s \<Longrightarrow> announced s'" and "is_done s' = is_done s"
  using assms
  by (auto simp: update_request_def grows_def announced_def populated_def Let_def
      bind_result_eq_Inr_iff split: sum.splits if_splits)

lemma close_step_grows:
  assumes "close_step k s = (k', s')"
  shows "grows s s'" and "\<lbrakk>announced s; closing k s\<rbrakk> \<Longrightarrow> announced s'" and "closing k s \<Longrightarrow> closing k' s'"
  using assms
  by (cases k; auto simp: grows_def announced_def populated_def closing_def)+

lemma closing_grows: "grows s s' \<Longrightarrow> closing k s \<Longrightarrow> closing k s'"
  by (auto simp: grows_def closing_def)

lemma grows_refl [simp]: "grows s s"
  by (simp add: grows_def)

lemma service_invariant_start: "service_invariant (service_start requests)"
  by (simp add: service_invariant_def service_start_def announced_def closing_def)

text \<open>A step of another thread keeps what a thread knows.\<close>

lemma invariant_frame:
  assumes "service_invariant st" "grows (shared_state st) s" "announced s"
  shows "service_invariant (st\<lparr>shared_state := s\<rparr>)"
  using assms closing_grows [OF assms(2)]
  by (auto simp: service_invariant_def Let_def grows_def)

lemma service_invariant_step:
  assumes "service_step loads st st'" "service_invariant st"
  shows "service_invariant st'"
  using assms
proof cases
  case (serve req rest s)
  then have "service_invariant (st\<lparr>shared_state := s\<rparr>)"
    using assms(2) update_request_grows [OF serve(3)]
    by (intro invariant_frame) (auto simp: service_invariant_def Let_def)
  then show ?thesis
    using serve(1) by (auto simp: service_invariant_def Let_def)
next
  case (serve_raises req rest s e)
  then have "service_invariant (st\<lparr>shared_state := s\<rparr>)"
    using assms(2) update_request_grows [OF serve_raises(3)]
    by (intro invariant_frame) (auto simp: service_invariant_def Let_def)
  then show ?thesis
    using serve_raises(1) by (auto simp: service_invariant_def Let_def closing_def)
next
  case (finish k k' s)
  then have k: "closing k (shared_state st)" "announced (shared_state st)"
    using assms(2) by (auto simp: service_invariant_def Let_def)
  then have "service_invariant (st\<lparr>shared_state := s\<rparr>)"
    using assms(2) close_step_grows [OF finish(3)] by (intro invariant_frame) auto
  then show ?thesis
    using finish(1) close_step_grows(3) [OF finish(3) k(1)]
    by (auto simp: service_invariant_def Let_def)
next
  case (cancel k' s)
  then have k: "closing (canceller st) (shared_state st)" "announced (shared_state st)"
    using assms(2) by (auto simp: service_invariant_def Let_def)
  then have "service_invariant (st\<lparr>shared_state := s\<rparr>)"
    using assms(2) close_step_grows [OF cancel(2)] by (intro invariant_frame) auto
  then show ?thesis
    using cancel(1) close_step_grows(3) [OF cancel(2) k(1)]
    by (auto simp: service_invariant_def Let_def)
next
  case (leave k k' s)
  then have k: "closing k (shared_state st)" "announced (shared_state st)"
    using assms(2) by (auto simp: service_invariant_def Let_def)
  then have "service_invariant (st\<lparr>shared_state := s\<rparr>)"
    using assms(2) close_step_grows [OF leave(3)] by (intro invariant_frame) auto
  then show ?thesis
    using leave(1) close_step_grows(3) [OF leave(3) k(1)]
    by (auto simp: service_invariant_def Let_def)
next
  case check
  then show ?thesis
    using assms(2) by (auto simp: service_invariant_def Let_def announced_def closing_def)
qed (auto simp: service_invariant_def Let_def closing_def populated_def)

lemma service_reachable_invariant:
  "service_reachable loads requests st \<Longrightarrow> service_invariant st"
  by (induction rule: service_reachable.induct)
    (auto intro: service_invariant_start service_invariant_step)

lemma service_reads_populated:
  assumes "service_reachable loads requests st" "(x, y) \<in> set (reads st)"
  shows "x \<noteq> None \<and> y \<noteq> None"
  using service_reachable_invariant [OF assms(1)] assms(2)
  by (fastforce simp: service_invariant_def Let_def)

subsection \<open>Nobody waits for ever\<close>

text \<open>Once the updater or the callback has ended, a waiting generator is awake and leaves.\<close>

lemma service_wakes:
  assumes "service_reachable loads requests st"
    and "updater st = Finishing Closed \<or> canceller st = Closed"
  shows "is_ready (shared_state st)" and "is_done (shared_state st)"
  using service_reachable_invariant [OF assms(1)] assms(2)
  by (auto simp: service_invariant_def Let_def closing_def)

text \<open>After \<open>done\<close>, at most the value already in hand is delivered.\<close>

lemma done_stable: "service_step loads st st' \<Longrightarrow> is_done (shared_state st) \<Longrightarrow> is_done (shared_state st')"
  by (erule service_step.cases)
    (auto dest: update_request_grows(3) close_step_grows(1) simp: grows_def)

definition in_hand :: "('p, 'v) service \<Rightarrow> nat" where
  "in_hand st = length (yielded st) + (case simulator st of Holding v \<Rightarrow> 1 | _ \<Rightarrow> 0)"

lemma done_step_bound:
  "service_step loads st st' \<Longrightarrow> is_done (shared_state st) \<Longrightarrow> in_hand st' \<le> in_hand st"
  by (erule service_step.cases) (auto simp: in_hand_def split: simulator.splits)

lemma done_bounds_yields:
  assumes "(service_step loads)\<^sup>*\<^sup>* st st'" "is_done (shared_state st)"
  shows "length (yielded st') \<le> length (yielded st) + 1"
proof -
  have "in_hand st' \<le> in_hand st \<and> is_done (shared_state st')"
    using assms
  proof (induction rule: rtranclp_induct)
    case (step y z)
    then show ?case
      using done_stable [OF step(2)] done_step_bound [OF step(2)] by fastforce
  qed simp
  moreover have "in_hand st \<le> length (yielded st) + 1" "length (yielded st') \<le> in_hand st'"
    by (auto simp: in_hand_def split: simulator.split)
  ultimately show ?thesis by linarith
qed

subsection \<open>What workers read\<close>

text \<open>
  The sample and the parameters are always those that the requests leave when they are served
  one after the other: the updater never skips one, and a worker reads the result of a prefix.
\<close>

definition requests_state :: "(bytes \<Rightarrow> 'p result) \<Rightarrow> 'p request list \<Rightarrow> 'p shared" where
  "requests_state loads requests =
     foldl (\<lambda>s req. fst (update_request loads req s))
       \<lparr>is_done = False, is_ready = False, sample = None, params = None\<rparr> requests"

definition held :: "'p shared \<Rightarrow> (int list \<times> int list) option \<times> 'p option" where
  "held s = (sample s, params s)"

lemma update_request_held: "held s = held s' \<Longrightarrow>
   held (fst (update_request loads req s)) = held (fst (update_request loads req s'))"
  by (auto simp: update_request_def held_def Let_def split: sum.split)

lemma close_step_held: "close_step k s = (k', s') \<Longrightarrow> held s' = held s"
  by (cases k) (auto simp: held_def)

lemma requests_state_snoc:
  "requests_state loads (requests @ [req]) = fst (update_request loads req (requests_state loads requests))"
  by (simp add: requests_state_def)

definition served_upto :: "(bytes \<Rightarrow> 'p result) \<Rightarrow> 'p request list \<Rightarrow> nat \<Rightarrow> ('p, 'v) service \<Rightarrow> bool" where
  "served_upto loads requests k st \<longleftrightarrow> k \<le> length requests \<and>
     held (shared_state st) = held (requests_state loads (take k requests)) \<and>
     (\<forall>rest. updater st = Serving rest \<longrightarrow> rest = drop k requests) \<and>
     (\<forall>xy \<in> set (reads st). \<exists>j \<le> k. xy = held (requests_state loads (take j requests)))"

lemma serve_next:
  assumes "served_upto loads requests k st" "updater st = Serving (req # rest)"
    and "update_request loads req (shared_state st) = (s, e)"
  shows "Suc k \<le> length requests" "held s = held (requests_state loads (take (Suc k) requests))"
    and "rest = drop (Suc k) requests"
proof -
  have d: "drop k requests = req # rest"
    using assms(1,2) by (simp add: served_upto_def)
  then have k: "k < length requests"
    by (metis drop_all list.distinct(1) not_le)
  then have "requests ! k = req" "drop (Suc k) requests = rest"
    using d by (metis Cons_nth_drop_Suc list.inject)+
  then show "rest = drop (Suc k) requests" "Suc k \<le> length requests"
    using k by simp_all
  have "take (Suc k) requests = take k requests @ [req]"
    using k \<open>requests ! k = req\<close> by (simp add: take_Suc_conv_app_nth)
  moreover have "held s = held (fst (update_request loads req (requests_state loads (take k requests))))"
    using update_request_held [of "shared_state st" "requests_state loads (take k requests)" loads req] assms(1,3)
    by (simp add: served_upto_def)
  ultimately show "held s = held (requests_state loads (take (Suc k) requests))"
    by (simp add: requests_state_snoc)
qed

lemma served_upto_step:
  assumes "service_step loads st st'" "served_upto loads requests k st"
  shows "served_upto loads requests k st' \<or> served_upto loads requests (Suc k) st'"
proof -
  have reads: "\<forall>xy \<in> set (reads st). \<exists>j \<le> Suc k. xy = held (requests_state loads (take j requests))"
    using assms(2) le_SucI unfolding served_upto_def by blast
  show ?thesis
    using assms(1)
  proof cases
    case (serve req rest s)
    have "served_upto loads requests (Suc k) st'"
      using serve(1) serve_next [OF assms(2) serve(2,3)] reads
      unfolding served_upto_def by simp
    then show ?thesis ..
  next
    case (serve_raises req rest s e)
    have "served_upto loads requests (Suc k) st'"
      using serve_raises(1) serve_next [OF assms(2) serve_raises(2,3)] reads
      unfolding served_upto_def by simp
    then show ?thesis ..
  next
    case (finish c c' s)
    then show ?thesis
      using assms(2) close_step_held [OF finish(3)] by (simp add: served_upto_def)
  next
    case (cancel c' s)
    then show ?thesis
      using assms(2) close_step_held [OF cancel(2)] by (simp add: served_upto_def)
  next
    case (leave c c' s)
    then show ?thesis
      using assms(2) close_step_held [OF leave(3)] by (simp add: served_upto_def)
  next
    case read_params
    then show ?thesis
      using assms(2) by (auto simp: served_upto_def held_def)
  qed (use assms(2) in \<open>simp_all add: served_upto_def\<close>)
qed

lemma service_serves_in_order:
  "service_reachable loads requests st \<Longrightarrow> \<exists>k. served_upto loads requests k st"
proof (induction rule: service_reachable.induct)
  case start
  show ?case
    by (rule exI [of _ 0]) (simp add: served_upto_def service_start_def requests_state_def)
next
  case (step st st')
  then show ?case
    using served_upto_step by blast
qed

end
