(* ===== verification/Resampling.thy ===== *)
theory Resampling
  imports Exact_Soundness Service
begin

text \<open>
  The generator \<open>resampled_data_results\<close> (\<open>t/exact_test_sampler.py\<close>) and its composition with
  \<open>exact_test\<close>. The generator is a coroutine: it runs until it yields a value, and its consumer
  puts plans in a queue in between. Its steps are those of the code between two looks at
  something shared: the queue of plans, or the buffer of the samplers' batches. Batches, and the
  end mark that comes when the iterator of a sampler ends, are there only if there are samplers.

  A plan object is known by the number of gets that had been made when it was taken, so the
  identity test on plans is a comparison of numbers. \<open>dumps\<close> is \<open>pickle.dumps\<close>.
\<close>

type_synonym message = "plan request option"

text \<open>The serial generator between two values: its plan object, the plan, and the generator of values.\<close>

type_synonym 'x serial = "nat \<times> plan \<times> 'x resampler"

datatype 'x phase =
    Entering                          \<comment> \<open>before the blocking get\<close>
  | Serial_start                      \<comment> \<open>first value of the serial generator\<close>
  | Serial "'x serial"                \<comment> \<open>next value of the serial generator\<close>
  | Serial_yielded "'x serial"        \<comment> \<open>suspended on a value of the serial generator\<close>
  | Polling "'x serial option"        \<comment> \<open>at \<open>buf.get\<close>\<close>
  | Delivering "f64 dict list" "'x serial option"   \<comment> \<open>in the loop over a batch\<close>
  | Over

record 'x resampling =
  waiting_plans :: "plan list"
  gets :: nat
  cached :: "plan option"
  request_queues :: "message list list"
  phase :: "'x phase"

definition initial_req :: "sample \<Rightarrow> plan request" where
  "initial_req s = \<lparr>a_values = a_class s, b_values = b_class s, parameters = []\<rparr>"

definition plan_req :: "(plan \<Rightarrow> bytes) \<Rightarrow> plan \<Rightarrow> plan request" where
  "plan_req dumps p = \<lparr>a_values = [], b_values = [], parameters = dumps p\<rparr>"

text \<open>Up to the blocking get: one queue of requests per sampler, holding the data.\<close>

definition resampling_start :: "sample \<Rightarrow> nat \<Rightarrow> plan list \<Rightarrow> 'x resampling" where
  "resampling_start s samplers queued =
     \<lparr>waiting_plans = queued, gets = 0, cached = None,
      request_queues = replicate samplers [Some (initial_req s)], phase = Entering\<rparr>"

text \<open>\<open>grouped_statistics_fn()\<close>: a plan, if there is one, goes to every sampler.\<close>

definition grouped_statistics_fn :: "(plan \<Rightarrow> bytes) \<Rightarrow> 'x resampling \<Rightarrow> 'x resampling" where
  "grouped_statistics_fn dumps g =
     (case waiting_plans g of
        [] \<Rightarrow> g
      | p # ps \<Rightarrow> g\<lparr>waiting_plans := ps, gets := Suc (gets g), cached := Some p,
          request_queues := map (\<lambda>q. q @ [Some (plan_req dumps p)]) (request_queues g)\<rparr>)"

text \<open>Both \<open>finally\<close> clauses put the end of the requests in every queue.\<close>

definition leave_resampling :: "'x resampling \<Rightarrow> 'x resampling" where
  "leave_resampling g =
     g\<lparr>request_queues := map (\<lambda>q. q @ [None, None]) (request_queues g), phase := Over\<rparr>"

text \<open>What a step does for the consumer.\<close>

datatype action = Quiet | Receives "f64 dict list" | Yields "f64 dict" | Returns | Raises py_error

inductive resampling_step ::
    "'x exact_lib \<Rightarrow> (plan \<Rightarrow> bytes) \<Rightarrow> sample \<Rightarrow> bool \<Rightarrow> 'x resampling \<Rightarrow> action \<Rightarrow> 'x resampling \<Rightarrow> bool"
  for ex :: "'x exact_lib" and dumps :: "plan \<Rightarrow> bytes" and s :: sample and inline_eval :: bool where
  enter: "\<lbrakk>phase g = Entering; waiting_plans g \<noteq> []\<rbrakk> \<Longrightarrow>
    resampling_step ex dumps s inline_eval g Quiet
      ((grouped_statistics_fn dumps g)\<lparr>phase := if inline_eval then Serial_start else Polling None\<rparr>)"
| serial_start: "\<lbrakk>phase g = Serial_start; g' = grouped_statistics_fn dumps g; cached g' = Some p\<rbrakk> \<Longrightarrow>
    resampling_step ex dumps s inline_eval g Quiet (g'\<lparr>phase := Serial (gets g', p, Unstarted seed)\<rparr>)"
| serial_value: "\<lbrakk>phase g = Serial (i, p, r); resampled_data_results_1 ex s p r = Got d r'\<rbrakk> \<Longrightarrow>
    resampling_step ex dumps s inline_eval g (Yields d) (g\<lparr>phase := Serial_yielded (i, p, r')\<rparr>)"
| serial_raises: "\<lbrakk>phase g = Serial (i, p, r); resampled_data_results_1 ex s p r = Raised e\<rbrakk> \<Longrightarrow>
    resampling_step ex dumps s inline_eval g (Raises e) (leave_resampling g)"
| serial_resumed: "phase g = Serial_yielded sp \<Longrightarrow>
    resampling_step ex dumps s inline_eval g Quiet (g\<lparr>phase := Polling (Some sp)\<rparr>)"
| poll_empty: "\<lbrakk>phase g = Polling (Some (i, p, r)); g' = grouped_statistics_fn dumps g; cached g' = Some p'\<rbrakk> \<Longrightarrow>
    resampling_step ex dumps s inline_eval g Quiet
      (g'\<lparr>phase := Serial (if gets g' = i then (i, p, r) else (gets g', p', Unstarted seed))\<rparr>)"
| poll_end: "\<lbrakk>phase g = Polling sp; request_queues g \<noteq> []\<rbrakk> \<Longrightarrow>
    resampling_step ex dumps s inline_eval g Returns (leave_resampling g)"
| poll_batch: "\<lbrakk>phase g = Polling sp; request_queues g \<noteq> []; convert_proto_to_result_dicts batch = Inr ds\<rbrakk> \<Longrightarrow>
    resampling_step ex dumps s inline_eval g (Receives ds) (g\<lparr>phase := Delivering ds sp\<rparr>)"
| poll_raises: "\<lbrakk>phase g = Polling sp; request_queues g \<noteq> []; convert_proto_to_result_dicts (batch :: f64 result_set) = Inl e\<rbrakk> \<Longrightarrow>
    resampling_step ex dumps s inline_eval g (Raises e) (leave_resampling g)"
| deliver: "phase g = Delivering (d # ds) sp \<Longrightarrow>
    resampling_step ex dumps s inline_eval g (Yields d) (g\<lparr>phase := Delivering ds sp\<rparr>)"
| delivered: "phase g = Delivering [] sp \<Longrightarrow>
    resampling_step ex dumps s inline_eval g Quiet ((grouped_statistics_fn dumps g)\<lparr>phase := Polling sp\<rparr>)"

subsection \<open>The test and its generator\<close>

record 'x system =
  test :: test_state
  seen_values :: "f64 dict list"
  sampler :: "'x resampling"
  ended :: "test_result dict option result option"

definition system_start :: "test_config \<Rightarrow> test_state \<Rightarrow> nat \<Rightarrow> 'x system" where
  "system_start cfg st samplers =
     \<lparr>test = st, seen_values = [], sampler = resampling_start (cfg_data cfg) samplers (plans st), ended = None\<rparr>"

text \<open>
  What a sampler owes: the values of a batch have the statistics of a plan that it can read in
  the requests sent so far.
\<close>

definition answers :: "(bytes \<Rightarrow> plan result) \<Rightarrow> 'x resampling \<Rightarrow> f64 dict \<Rightarrow> bool" where
  "answers loads g d \<longleftrightarrow> distinct (map fst d) \<and>
     (\<exists>q \<in> set (request_queues g). \<exists>req p. Some req \<in> set q \<and> parameters req \<noteq> [] \<and>
        loads (parameters req) = Inr p \<and> set (map fst d) = plan_names p)"

text \<open>The plans that a step of the test has put in the queue.\<close>

definition new_plans :: "test_state \<Rightarrow> test_state \<Rightarrow> plan list" where
  "new_plans st st' = drop (length (plans st)) (plans st')"

inductive system_step ::
    "platform \<Rightarrow> 'x exact_lib \<Rightarrow> (plan \<Rightarrow> bytes) \<Rightarrow> (bytes \<Rightarrow> plan result) \<Rightarrow> bool \<Rightarrow> test_config
      \<Rightarrow> 'x system \<Rightarrow> 'x system \<Rightarrow> bool"
  for pf :: platform and ex :: "'x exact_lib" and dumps :: "plan \<Rightarrow> bytes" and loads :: "bytes \<Rightarrow> plan result"
    and inline_eval :: bool and cfg :: test_config where
  quiet: "\<lbrakk>ended y = None; resampling_step ex dumps (cfg_data cfg) inline_eval (sampler y) Quiet g\<rbrakk> \<Longrightarrow>
    system_step pf ex dumps loads inline_eval cfg y (y\<lparr>sampler := g\<rparr>)"
| receive: "\<lbrakk>ended y = None; resampling_step ex dumps (cfg_data cfg) inline_eval (sampler y) (Receives ds) g;
      \<forall>d \<in> set ds. answers loads (sampler y) d\<rbrakk> \<Longrightarrow>
    system_step pf ex dumps loads inline_eval cfg y (y\<lparr>sampler := g\<rparr>)"
| continue: "\<lbrakk>ended y = None; resampling_step ex dumps (cfg_data cfg) inline_eval (sampler y) (Yields d) g;
      exact_step pf cfg (test y) d = Inr (Next st')\<rbrakk> \<Longrightarrow>
    system_step pf ex dumps loads inline_eval cfg y
      (y\<lparr>test := st', seen_values := seen_values y @ [d],
         sampler := g\<lparr>waiting_plans := waiting_plans g @ new_plans (test y) st'\<rparr>\<rparr>)"
| finish: "\<lbrakk>ended y = None; resampling_step ex dumps (cfg_data cfg) inline_eval (sampler y) (Yields d) g;
      exact_step pf cfg (test y) d = Inr (Final r)\<rbrakk> \<Longrightarrow>
    system_step pf ex dumps loads inline_eval cfg y
      (y\<lparr>seen_values := seen_values y @ [d], sampler := leave_resampling g, ended := Some (Inr (Some r))\<rparr>)"
| test_raises: "\<lbrakk>ended y = None; resampling_step ex dumps (cfg_data cfg) inline_eval (sampler y) (Yields d) g;
      exact_step pf cfg (test y) d = Inl e\<rbrakk> \<Longrightarrow>
    system_step pf ex dumps loads inline_eval cfg y
      (y\<lparr>seen_values := seen_values y @ [d], sampler := leave_resampling g, ended := Some (Inl e)\<rparr>)"
| sampler_ends: "\<lbrakk>ended y = None; resampling_step ex dumps (cfg_data cfg) inline_eval (sampler y) Returns g\<rbrakk> \<Longrightarrow>
    system_step pf ex dumps loads inline_eval cfg y (y\<lparr>sampler := g, ended := Some (Inr None)\<rparr>)"
| sampler_raises: "\<lbrakk>ended y = None; resampling_step ex dumps (cfg_data cfg) inline_eval (sampler y) (Raises e) g\<rbrakk> \<Longrightarrow>
    system_step pf ex dumps loads inline_eval cfg y (y\<lparr>sampler := g, ended := Some (Inl e)\<rparr>)"

inductive system_reachable ::
    "platform \<Rightarrow> 'x exact_lib \<Rightarrow> (plan \<Rightarrow> bytes) \<Rightarrow> (bytes \<Rightarrow> plan result) \<Rightarrow> bool \<Rightarrow> test_config
      \<Rightarrow> 'x system \<Rightarrow> 'x system \<Rightarrow> bool"
  for pf :: platform and ex :: "'x exact_lib" and dumps :: "plan \<Rightarrow> bytes" and loads :: "bytes \<Rightarrow> plan result"
    and inline_eval :: bool and cfg :: test_config and start :: "'x system" where
  start: "system_reachable pf ex dumps loads inline_eval cfg start start"
| step: "\<lbrakk>system_reachable pf ex dumps loads inline_eval cfg start y;
      system_step pf ex dumps loads inline_eval cfg y y'\<rbrakk> \<Longrightarrow>
    system_reachable pf ex dumps loads inline_eval cfg start y'"

subsection \<open>The invariant of the composition\<close>

text \<open>What a generator phase may hold: plans of the test, and values of their statistics.\<close>

definition of_plans :: "plan list \<Rightarrow> f64 dict \<Rightarrow> bool" where
  "of_plans ps d \<longleftrightarrow> distinct (map fst d) \<and> (\<exists>p \<in> set ps. set (map fst d) = plan_names p)"

fun phase_ok :: "plan list \<Rightarrow> 'x phase \<Rightarrow> bool" where
  "phase_ok ps (Serial (i, p, r)) = (p \<in> set ps)"
| "phase_ok ps (Serial_yielded (i, p, r)) = (p \<in> set ps)"
| "phase_ok ps (Polling sp) = (\<forall>i p r. sp = Some (i, p, r) \<longrightarrow> p \<in> set ps)"
| "phase_ok ps (Delivering ds sp) = ((\<forall>d \<in> set ds. of_plans ps d) \<and> (\<forall>i p r. sp = Some (i, p, r) \<longrightarrow> p \<in> set ps))"
| "phase_ok ps _ = True"

text \<open>The messages of a sampler: the data, then the plans in the order in which they were put.\<close>

definition messages :: "(plan \<Rightarrow> bytes) \<Rightarrow> sample \<Rightarrow> plan list \<Rightarrow> message list" where
  "messages dumps s ps = Some (initial_req s) # map (\<lambda>p. Some (plan_req dumps p)) ps"

definition queues_ok :: "(plan \<Rightarrow> bytes) \<Rightarrow> sample \<Rightarrow> plan list \<Rightarrow> 'x resampling \<Rightarrow> bool" where
  "queues_ok dumps s ps g \<longleftrightarrow> gets g \<le> length ps \<and> waiting_plans g = drop (gets g) ps \<and>
     (\<forall>p. cached g = Some p \<longrightarrow> p \<in> set ps) \<and>
     (\<forall>q \<in> set (request_queues g). q = messages dumps s (take (gets g) ps))"

lemma fetch_ok:
  assumes "queues_ok dumps s ps g"
  shows "queues_ok dumps s ps (grouped_statistics_fn dumps g)"
proof (cases "waiting_plans g")
  case (Cons p rest)
  then have d: "drop (gets g) ps = p # rest"
    using assms by (simp add: queues_ok_def)
  then have le: "gets g < length ps"
    by (metis drop_all list.distinct(1) not_le)
  have "drop (Suc (gets g)) ps = rest"
    using d by (metis drop_Suc list.sel(3) tl_drop)
  moreover have "ps ! gets g = p"
    using d le by (simp add: nth_via_drop)
  moreover have "p \<in> set ps"
    using d by (metis in_set_dropD list.set_intros(1))
  moreover have "grouped_statistics_fn dumps g = g\<lparr>waiting_plans := rest, gets := Suc (gets g), cached := Some p,
      request_queues := map (\<lambda>q. q @ [Some (plan_req dumps p)]) (request_queues g)\<rparr>"
    by (simp add: grouped_statistics_fn_def Cons)
  ultimately show ?thesis
    using assms le by (auto simp: queues_ok_def messages_def take_Suc_conv_app_nth)
qed (use assms in \<open>simp add: grouped_statistics_fn_def\<close>)

lemma fetch_phase [simp]: "phase (grouped_statistics_fn dumps g) = phase g"
  by (simp add: grouped_statistics_fn_def split: list.splits)

lemma queues_ok_phase [simp]: "queues_ok dumps s ps (g\<lparr>phase := ph\<rparr>) = queues_ok dumps s ps g"
  by (simp add: queues_ok_def)

text \<open>Values of the serial generator have the keys of its plan.\<close>

lemma resampled_keys:
  assumes "resampled_data_results_1 ex s p r = Got d r'"
  shows "distinct (map fst d)" "set (map fst d) = plan_names p"
proof -
  obtain buf x where "resample ex s p buf x = Got d r'"
    using assms by (cases r) (auto split: sum.splits)
  then show "distinct (map fst d)" "set (map fst d) = plan_names p"
    by (rule resample_spec(1), rule resample_spec(2))
qed

text \<open>The exceptions of the generator: those of computing a value, and of reading a batch.\<close>

definition sampling_raises :: "'x exact_lib \<Rightarrow> sample \<Rightarrow> py_error \<Rightarrow> bool" where
  "sampling_raises ex s e \<longleftrightarrow> (\<exists>p r. resampled_data_results_1 ex s p r = Raised e) \<or>
     (\<exists>batch :: f64 result_set. convert_proto_to_result_dicts batch = Inl e)"

text \<open>One step of the generator.\<close>

lemma resampling_step_ok:
  assumes "resampling_step ex dumps s inline_eval g a g'" "queues_ok dumps s ps g" "phase_ok ps (phase g)"
  shows "(a = Quiet \<longrightarrow> queues_ok dumps s ps g' \<and> phase_ok ps (phase g')) \<and>
    (\<forall>ds. a = Receives ds \<longrightarrow> (\<forall>d \<in> set ds. of_plans ps d) \<longrightarrow> queues_ok dumps s ps g' \<and> phase_ok ps (phase g')) \<and>
    (\<forall>d. a = Yields d \<longrightarrow> queues_ok dumps s ps g' \<and> phase_ok ps (phase g') \<and> of_plans ps d) \<and>
    (\<forall>e. a = Raises e \<longrightarrow> sampling_raises ex s e)"
  using assms
proof cases
  case (serial_start h p seed)
  then show ?thesis
    using fetch_ok [OF assms(2)] by (auto simp: queues_ok_def)
next
  case (serial_value i p r d r')
  then show ?thesis
    using assms resampled_keys [OF serial_value(4)] by (auto simp: of_plans_def)
next
  case (poll_empty i p r h p' seed)
  then show ?thesis
    using assms(3) fetch_ok [OF assms(2)] by (auto simp: queues_ok_def)
next
  case enter
  then show ?thesis
    using fetch_ok [OF assms(2)] by simp
next
  case (delivered sp)
  then show ?thesis
    using assms(3) fetch_ok [OF assms(2)] by simp
qed (use assms(2,3) in \<open>auto simp: sampling_raises_def\<close>)

text \<open>Leaving the generator puts the end of the requests in every queue.\<close>

definition closed_queues :: "(plan \<Rightarrow> bytes) \<Rightarrow> sample \<Rightarrow> plan list \<Rightarrow> 'x resampling \<Rightarrow> bool" where
  "closed_queues dumps s ps g \<longleftrightarrow> phase g = Over \<and>
     (\<exists>n \<le> length ps. \<forall>q \<in> set (request_queues g). q = messages dumps s (take n ps) @ [None, None])"

lemma leave_closes: "queues_ok dumps s ps g \<Longrightarrow> closed_queues dumps s ps (leave_resampling g)"
  unfolding queues_ok_def closed_queues_def leave_resampling_def by auto

lemma resampling_step_leaves:
  "\<lbrakk>resampling_step ex dumps s inline_eval g a g'; a = Returns \<or> a = Raises e\<rbrakk> \<Longrightarrow> g' = leave_resampling g"
  by (erule resampling_step.cases) auto

text \<open>A step of the test only adds plans.\<close>

lemma exact_step_plans:
  assumes "exact_step pf cfg st d = Inr (Next st')"
  shows "plans st' = plans st @ new_plans st st'"
proof -
  have "\<exists>ps. plans st' = plans st @ ps"
    using assms
    by (auto simp: exact_step_def Let_def update_grouped_stats_def bind_result_eq_Inr_iff split: if_splits prod.splits)
  then show ?thesis
    by (auto simp: new_plans_def)
qed

definition system_inv :: "platform \<Rightarrow> 'x exact_lib \<Rightarrow> (plan \<Rightarrow> bytes) \<Rightarrow> test_config \<Rightarrow> 'x system \<Rightarrow> bool" where
  "system_inv pf ex dumps cfg y \<longleftrightarrow>
     (ended y \<noteq> None \<longrightarrow> closed_queues dumps (cfg_data cfg) (plans (test y)) (sampler y)) \<and>
     (case ended y of
        None \<Rightarrow> exact_inv pf cfg (seen_values y) (test y) \<and>
          queues_ok dumps (cfg_data cfg) (plans (test y)) (sampler y) \<and>
          phase_ok (plans (test y)) (phase (sampler y))
      | Some (Inl e) \<Rightarrow> csm_raises pf (cfg_eps cfg) (cfg_log_inner_eps cfg) e \<or> sampling_raises ex (cfg_data cfg) e
      | Some (Inr None) \<Rightarrow> True
      | Some (Inr (Some d)) \<Rightarrow> map fst d = map fst (cfg_actual cfg) \<and>
          (\<forall>(nm, r) \<in> set d. justified pf cfg (seen_values y) nm r))"

lemma of_plans_append: "of_plans ps d \<Longrightarrow> of_plans (ps @ qs) d"
  by (auto simp: of_plans_def)

lemma phase_ok_append: "phase_ok ps ph \<Longrightarrow> phase_ok (ps @ qs) ph"
  using of_plans_append by (induction ps ph rule: phase_ok.induct) auto

lemma queues_ok_append:
  "queues_ok dumps s ps g \<Longrightarrow> queues_ok dumps s (ps @ qs) (g\<lparr>waiting_plans := waiting_plans g @ qs\<rparr>)"
  by (auto simp: queues_ok_def)

lemma system_inv_running:
  assumes "system_inv pf ex dumps cfg y" "ended y = None"
  shows "exact_inv pf cfg (seen_values y) (test y)"
    and "queues_ok dumps (cfg_data cfg) (plans (test y)) (sampler y)"
    and "phase_ok (plans (test y)) (phase (sampler y))"
  using assms by (simp_all add: system_inv_def)

text \<open>A value with the keys of one of the plans is one that the test can use.\<close>

lemma of_plans_fits: "\<lbrakk>exact_inv pf cfg samples st; of_plans (plans st) d\<rbrakk> \<Longrightarrow> sample_fits cfg st d"
  unfolding exact_inv_def of_plans_def sample_fits_def by fastforce

text \<open>What a sampler that reads the requests can answer.\<close>

lemma answers_of_plans:
  assumes "answers loads g d" "queues_ok dumps s ps g" "\<forall>p. loads (dumps p) = Inr p"
  shows "of_plans ps d"
proof -
  obtain q req p where q: "q \<in> set (request_queues g)" "Some req \<in> set q" "parameters req \<noteq> []"
    "loads (parameters req) = Inr p" "distinct (map fst d)" "set (map fst d) = plan_names p"
    using assms(1) by (auto simp: answers_def)
  then have "Some req \<in> set (messages dumps s (take (gets g) ps))"
    using assms(2) by (auto simp: queues_ok_def)
  then obtain p' where "p' \<in> set (take (gets g) ps)" "req = plan_req dumps p'"
    using q(3) by (auto simp: messages_def initial_req_def)
  then have "p' \<in> set ps" "p' = p"
    using q(4) assms(3) by (auto simp: plan_req_def dest: in_set_takeD)
  then show ?thesis
    using q(5,6) by (auto simp: of_plans_def)
qed

lemma system_inv_step:
  assumes "system_step pf ex dumps loads inline_eval cfg y y'" "system_inv pf ex dumps cfg y" "config_ok cfg"
    and loads: "\<forall>p. loads (dumps p) = Inr p"
  shows "system_inv pf ex dumps cfg y'"
  using assms(1)
proof cases
  case (quiet g)
  then show ?thesis
    using assms(2) resampling_step_ok [OF quiet(3)] by (simp add: system_inv_def)
next
  case (receive ds g)
  then have "queues_ok dumps (cfg_data cfg) (plans (test y)) (sampler y)"
    using assms(2) by (simp add: system_inv_def)
  then have "\<forall>d \<in> set ds. of_plans (plans (test y)) d"
    using receive(4) answers_of_plans [OF _ _ loads] by blast
  then show ?thesis
    using assms(2) receive resampling_step_ok [OF receive(3)] by (simp add: system_inv_def)
next
  case (continue d g st')
  note inv = system_inv_running [OF assms(2) continue(2)]
  note ok = resampling_step_ok [OF continue(3) inv(2) inv(3)]
  have "exact_inv pf cfg (seen_values y @ [d]) st'"
    using exact_step_outcome [OF inv(1) assms(3) of_plans_fits [OF inv(1), of d]] ok continue(4)
    by (simp add: step_outcome_def)
  moreover have "queues_ok dumps (cfg_data cfg) (plans (test y)) g" "phase_ok (plans (test y)) (phase g)"
    using ok by simp_all
  then have "queues_ok dumps (cfg_data cfg) (plans st') (g\<lparr>waiting_plans := waiting_plans g @ new_plans (test y) st'\<rparr>)"
    "phase_ok (plans st') (phase g)"
    unfolding exact_step_plans [OF continue(4)] by - (rule queues_ok_append phase_ok_append, assumption)+
  ultimately show ?thesis
    using continue(1,2) by (simp add: system_inv_def)
next
  case (finish d g r)
  note inv = system_inv_running [OF assms(2) finish(2)]
  note ok = resampling_step_ok [OF finish(3) inv(2) inv(3)]
  show ?thesis
    using exact_step_outcome [OF inv(1) assms(3) of_plans_fits [OF inv(1), of d]] ok finish(1,4) leave_closes [of dumps "cfg_data cfg" "plans (test y)" g]
    by (simp add: step_outcome_def system_inv_def)
next
  case (test_raises d g e)
  note inv = system_inv_running [OF assms(2) test_raises(2)]
  note ok = resampling_step_ok [OF test_raises(3) inv(2) inv(3)]
  show ?thesis
    using exact_step_outcome [OF inv(1) assms(3) of_plans_fits [OF inv(1), of d]] ok test_raises(1,4) leave_closes [of dumps "cfg_data cfg" "plans (test y)" g]
    by (simp add: step_outcome_def system_inv_def)
next
  case (sampler_ends g)
  note inv = system_inv_running [OF assms(2) sampler_ends(2)]
  show ?thesis
    using sampler_ends(1) leave_closes [OF inv(2)] resampling_step_leaves [OF sampler_ends(3)]
    by (simp add: system_inv_def)
next
  case (sampler_raises e g)
  note inv = system_inv_running [OF assms(2) sampler_raises(2)]
  show ?thesis
    using resampling_step_ok [OF sampler_raises(3) inv(2,3)] sampler_raises(1)
      leave_closes [OF inv(2)] resampling_step_leaves [OF sampler_raises(3)]
    by (simp add: system_inv_def)
qed

lemma start_queues_ok: "queues_ok dumps s ps (resampling_start s n ps)" "phase_ok ps (phase (resampling_start s n ps))"
  by (simp_all add: queues_ok_def resampling_start_def messages_def)

lemma system_reachable_inv:
  assumes "system_reachable pf ex dumps loads inline_eval cfg (system_start cfg st samplers) y"
    and "exact_inv pf cfg [] st" "config_ok cfg" "\<forall>p. loads (dumps p) = Inr p"
  shows "system_inv pf ex dumps cfg y"
  using assms(1)
proof induction
  case start
  then show ?case
    using assms(2) by (simp add: system_inv_def system_start_def start_queues_ok)
next
  case (step y y')
  then show ?case
    using system_inv_step assms(3,4) by blast
qed

subsection \<open>The samplers\<close>

text \<open>\<open>iter(queue.get, None)\<close>: what a sampler reads from its queue.\<close>

definition queue_requests :: "message list \<Rightarrow> plan request list" where
  "queue_requests q = map the (takeWhile (\<lambda>m. m \<noteq> None) q)"

lemma queue_requests_messages:
  "queue_requests (messages dumps s ps) = initial_req s # map (plan_req dumps) ps"
  "queue_requests (messages dumps s ps @ None # q) = initial_req s # map (plan_req dumps) ps"
proof -
  have all: "\<forall>m \<in> set (messages dumps s ps). m \<noteq> None"
    by (auto simp: messages_def)
  have "map the (messages dumps s ps) = initial_req s # map (plan_req dumps) ps"
    by (simp add: messages_def)
  then show "queue_requests (messages dumps s ps) = initial_req s # map (plan_req dumps) ps"
    "queue_requests (messages dumps s ps @ None # q) = initial_req s # map (plan_req dumps) ps"
    using all by (simp_all add: queue_requests_def takeWhile_eq_all_conv [THEN iffD2] takeWhile_append)
qed

lemma requests_held:
  assumes "\<forall>p. loads (dumps p) = Inr p \<and> dumps p \<noteq> []"
  shows "held (requests_state loads (initial_req s # map (plan_req dumps) ps)) =
    (if a_class s = [] \<and> b_class s = [] then None else Some (a_class s, b_class s),
     if ps = [] then None else Some (last ps))"
proof (induction ps rule: rev_induct)
  case Nil
  show ?case
    by (auto simp: requests_state_def update_request_def initial_req_def held_def Let_def)
next
  case (snoc p ps)
  have "held (requests_state loads ((initial_req s # map (plan_req dumps) ps) @ [plan_req dumps p])) =
      (fst (held (requests_state loads (initial_req s # map (plan_req dumps) ps))), Some p)"
    unfolding requests_state_snoc using assms by (auto simp: update_request_def plan_req_def held_def Let_def)
  then show ?case
    unfolding snoc.IH by simp
qed

text \<open>A worker of a sampler gets the data, and a plan of the test.\<close>

lemma service_reads_plans:
  assumes "service_reachable loads (initial_req s # map (plan_req dumps) ps) st" "(x, z) \<in> set (reads st)"
    and "\<forall>p. loads (dumps p) = Inr p \<and> dumps p \<noteq> []"
  shows "x = Some (a_class s, b_class s) \<and> (\<exists>p \<in> set ps. z = Some p)"
proof -
  let ?reqs = "initial_req s # map (plan_req dumps) ps"
  have some: "x \<noteq> None" "z \<noteq> None"
    using service_reads_populated [OF assms(1,2)] by simp_all
  obtain k where "served_upto loads ?reqs k st"
    using service_serves_in_order [OF assms(1)] by blast
  then obtain j where j: "(x, z) = held (requests_state loads (take j ?reqs))"
    using assms(2) unfolding served_upto_def by blast
  show ?thesis
  proof (cases j)
    case 0
    then show ?thesis
      using j some by (simp add: requests_state_def held_def)
  next
    case (Suc i)
    then have "(x, z) = (if a_class s = [] \<and> b_class s = [] then None else Some (a_class s, b_class s),
        if take i ps = [] then None else Some (last (take i ps)))"
      using j requests_held [OF assms(3), of s "take i ps"] by (simp add: take_map)
    then have ne: "take i ps \<noteq> []" and xz: "x = Some (a_class s, b_class s)" "z = Some (last (take i ps))"
      using some unfolding prod.inject by (metis)+
    have "last (take i ps) \<in> set ps"
      by (rule in_set_takeD [OF last_in_set [OF ne]])
    then show ?thesis
      using xz by simp
  qed
qed

subsection \<open>The end of the samples\<close>

text \<open>A sampler that ends before the test does ends the test, without a result.\<close>

lemma ends_without_result:
  assumes "plans st \<noteq> []" "0 < samplers"
  shows "\<exists>y. system_reachable pf ex dumps loads False cfg (system_start cfg st samplers) y \<and>
    ended y = Some (Inr None) \<and> seen_values y = []"
proof -
  let ?y0 = "system_start cfg st samplers"
  let ?g0 = "sampler ?y0"
  let ?g1 = "(grouped_statistics_fn dumps ?g0)\<lparr>phase := Polling None\<rparr>"
  let ?y1 = "?y0\<lparr>sampler := ?g1\<rparr>"
  have start: "ended ?y0 = None" "phase ?g0 = Entering" "waiting_plans ?g0 \<noteq> []"
    using assms(1) by (simp_all add: system_start_def resampling_start_def)
  have "resampling_step ex dumps (cfg_data cfg) False ?g0 Quiet ?g1"
    using resampling_step.enter [OF start(2,3), of ex dumps "cfg_data cfg" False] by simp
  then have r1: "system_reachable pf ex dumps loads False cfg ?y0 ?y1"
    by (rule system_reachable.step [OF system_reachable.start system_step.quiet [OF start(1)]])
  have "request_queues ?g1 \<noteq> []"
    using assms(2) by (auto simp: grouped_statistics_fn_def system_start_def resampling_start_def split: list.splits)
  then have "resampling_step ex dumps (cfg_data cfg) False ?g1 Returns (leave_resampling ?g1)"
    by (intro resampling_step.poll_end) simp_all
  then have "system_step pf ex dumps loads False cfg ?y1 (?y1\<lparr>sampler := leave_resampling ?g1, ended := Some (Inr None)\<rparr>)"
    using start(1) by (intro system_step.sampler_ends) simp_all
  note r2 = system_reachable.step [OF r1 this]
  show ?thesis
    by (rule exI, rule conjI, rule r2) (simp add: system_start_def)
qed

end
