(* ===== verification/Examples.thy ===== *)
theory Examples
  imports Resampling "HOL-Library.Countable"
begin

text \<open>
  Concrete parameters at which the properties are applied: a platform, a library, statistics, a
  pair of functions in the place of \<open>pickle.dumps\<close> and \<open>pickle.loads\<close>, and a run of a test
  with its generator and of a sampler behind it. Nothing here models code.
\<close>

text \<open>Plans are countable, so that some encoding in bytes exists.\<close>

instance statistic_ext :: (countable) countable
proof (rule countable_classI)
  fix x y :: "'a statistic_ext"
  let ?f = "\<lambda>s :: 'a statistic_ext. to_nat (name s, probability_a_lower s, a_offset s, b_offset s, fn_name s, fn_args s, statistic.more s)"
  assume "?f x = ?f y"
  then show "x = y" by simp
qed

definition sample_platform :: platform where
  "sample_platform = \<lparr>libm_log = id, libm_log1p = id, libm_exp = id,
     nan_of = \<lambda>x y. make_f64 False (inf_mag + 2 ^ 51)\<rparr>"
definition sample_exact :: "unit exact_lib" where
  "sample_exact = \<lparr>prng_create = (\<lambda>_. ()), exact_shuffle = (\<lambda>x xs m n p. (Inr xs, x)),
     offset_sort = (\<lambda>x xs m n a b. (xs, x)), statistic_fn = (\<lambda>f xs m n args. Inr f_half)\<rparr>"
definition sample_statistics :: "statistic list" where
  "sample_statistics = [median ''p50'' f_half 0 0, q99 ''p99'' f_half 0 0]"

definition sample_dumps :: "plan \<Rightarrow> bytes" where
  "sample_dumps p = replicate (Suc (to_nat p)) 0"

definition sample_loads :: "bytes \<Rightarrow> plan result" where
  "sample_loads bs = Inr (from_nat (length bs - 1))"

lemma sample_pickle: "\<forall>p. sample_loads (sample_dumps p) = Inr p \<and> sample_dumps p \<noteq> []"
  by (simp add: sample_loads_def sample_dumps_def)

lemma eleven_tenths: "is_finite (literal 11 10)" "unit_scale \<le> sval (literal 11 10)"
proof -
  have r: "rounds_to (11 * unit_scale) 10 (literal 11 10)"
    using rounds_to_make [of 10 False "11 * unit_scale"] unit_scale_pos by (simp add: literal_def)
  show "is_finite (literal 11 10)" "unit_scale \<le> sval (literal 11 10)"
    using rounds_to_le(2) [OF r unit_representable(3)] rounds_to_ge [OF r unit_representable(1)]
      unit_representable(2,4) unit_scale_pos by simp_all
qed

lemma sval_nonzero: "sval x \<noteq> 0 \<Longrightarrow> magnitude x \<noteq> 0"
proof (rule notI)
  assume "sval x \<noteq> 0" "magnitude x = 0"
  moreover have "sval x = 0"
    using \<open>magnitude x = 0\<close> by (simp add: sval_def)
  ultimately show False by simp
qed

lemma sample_bonferroni: "\<exists>e. bonferroni_eps sample_platform 2 f_half = Inr e"
proof -
  obtain v where v: "of_int_f64 4 = Inr v" "is_finite v" "sval v = 4 * unit_scale"
    using of_int_exact [of 4] by auto
  have "rounds_to (sval v * sval (literal 11 10)) unit_scale (fmul sample_platform v (literal 11 10))"
    by (rule fmul_rounds [OF v(2) eleven_tenths(1)])
  moreover have "unit_scale * unit_scale \<le> sval v * sval (literal 11 10)"
    unfolding v(3) using eleven_tenths(2) unit_scale_pos by (intro mult_mono) auto
  ultimately have "unit_scale \<le> sval (fmul sample_platform v (literal 11 10))"
    using rounds_to_ge [OF _ unit_representable(1)] unit_representable(2) unit_scale_pos by simp
  then have "magnitude (fmul sample_platform v (literal 11 10)) \<noteq> 0"
    using unit_scale_pos by (intro sval_nonzero) simp
  then show ?thesis
    using v(1) by (simp add: bonferroni_eps_def int_times_def fdiv_def Let_def)
qed

lemma sample_log_eps: "\<exists>l. inner_log_eps sample_platform e = Inr l"
proof -
  obtain v where v: "of_int_f64 10 = Inr v" "is_finite v" "sval v = 10 * unit_scale"
    using of_int_exact [of 10] by auto
  then have "magnitude v \<noteq> 0"
    using unit_scale_pos by (intro sval_nonzero) simp
  then have "\<exists>z. fdiv sample_platform e v = Inr z"
    by (simp add: fdiv_def Let_def)
  then obtain z where z: "fdiv sample_platform e v = Inr z"
    by blast
  have "math_1 (libm_log sample_platform) False z = Inr z"
    by (simp add: math_1_def sample_platform_def is_inf_def is_finite_def)
  then show ?thesis
    using v(1) z by (simp add: inner_log_eps_def div_int_def)
qed

lemma sample_start:
  "\<exists>cfg st. exact_start sample_platform sample_exact () [1] [2] sample_statistics f_half = Inr (Sampling cfg st)"
proof -
  obtain e l where el: "bonferroni_eps sample_platform 2 f_half = Inr e" "inner_log_eps sample_platform e = Inr l"
    using sample_bonferroni sample_log_eps by blast
  have n: "feq f_half f_half"
    using f_constants(5) finite_not_special by (simp add: feq_def)
  have a: "actual_data_results sample_exact () \<lparr>a_class = [1], b_class = [2]\<rparr> sample_statistics =
      Inr [(''p50'', f_half), (''p99'', f_half)]"
    by (simp add: actual_data_results_def sample_exact_def sample_statistics_def median_def q99_def quantile_def
      DEFAULT_STATISTIC_def make_buf_def u64_def W_def)
  have len: "length sample_statistics = 2" "card (set (map name sample_statistics)) = 2"
    by (simp_all add: sample_statistics_def median_def q99_def quantile_def DEFAULT_STATISTIC_def)
  show ?thesis
    using el a n len by (auto simp: exact_start_def Let_def resolve_early_def)
qed


lemma sample_computes:
  "offsets_fit plan \<Longrightarrow> \<exists>d. compute_results sample_exact buf m n plan x d0 = Inr (d, ())"
proof -
  have stats: "\<exists>d. compute_statistics sample_exact buf m n stats d0 = Inr d" for buf stats d0
    by (induction stats arbitrary: d0) (auto simp: sample_exact_def)
  have groups: "\<exists>d. compute_groups sample_exact buf m n gs x d0 = Inr (d, ())"
    if "list_all (\<lambda>((a_off, b_off), stats). u64 a_off \<and> u64 b_off) gs" for buf gs x d0
    using that
  proof (induction gs arbitrary: d0 x)
    case (Cons g gs)
    obtain d where "compute_statistics sample_exact buf m n (snd g) d0 = Inr d"
      using stats by blast
    then show ?case
      using Cons.IH [of "()" d] Cons.prems by (cases g; cases "fst g") (auto simp: sample_exact_def)
  qed simp
  show "\<exists>d. compute_results sample_exact buf m n plan x d0 = Inr (d, ())" if "offsets_fit plan"
    using that
  proof (induction plan arbitrary: d0 x)
    case (Cons q plan)
    obtain d where "compute_groups sample_exact buf m n (snd q) () d0 = Inr (d, ())"
      using groups Cons.prems by (cases q) fastforce
    then show ?case
      using Cons.IH [of "()" d] Cons.prems by (cases q) (auto simp: sample_exact_def)
  qed simp
qed

lemma sample_value:
  assumes "offsets_fit plan"
  shows "\<exists>d r. resampled_data_results_1 sample_exact \<lparr>a_class = [1], b_class = [2]\<rparr> plan (Unstarted 0) = Got d r"
proof -
  obtain d where "compute_results sample_exact [1, 2] 1 1 plan () [] = Inr (d, ())"
    using sample_computes [OF assms] by blast
  then show ?thesis
    by (simp add: make_buf_def u64_def W_def resample_def)
qed

text \<open>A run that has taken one value from the serial generator.\<close>

lemma sample_system:
  "\<exists>cfg st y. exact_start sample_platform sample_exact () [1] [2] sample_statistics f_half = Inr (Sampling cfg st) \<and>
     system_reachable sample_platform sample_exact sample_dumps sample_loads True cfg (system_start cfg st 2) y \<and>
     length (seen_values y) = 1 \<and> ended y = None \<and> length (request_queues (sampler y)) = 2 \<and> gets (sampler y) = 1"
proof -
  obtain cfg st where st: "exact_start sample_platform sample_exact () [1] [2] sample_statistics f_half = Inr (Sampling cfg st)"
    using sample_start by blast
  note start = exact_start_looping [OF st]
  obtain p where p: "plans st = [p]" "offsets_fit p"
  proof -
    let ?open = "filter (\<lambda>stat. map_of (resolved st) (name stat) = None) sample_statistics"
    have "plans st = [group_statistics_in_plan ?open]"
      using st by (auto simp: exact_start_def Let_def bind_result_eq_Inr_iff update_grouped_stats_def split: if_splits)
    moreover have "offsets_fit (group_statistics_in_plan ?open)"
      by (intro group_statistics_fit)
        (simp add: sample_statistics_def median_def q99_def quantile_def DEFAULT_STATISTIC_def u64_def W_def)
    ultimately show thesis
      using that by blast
  qed
  let ?s = "\<lparr>a_class = [1], b_class = [2]\<rparr>"
  obtain d r where d: "resampled_data_results_1 sample_exact ?s p (Unstarted 0) = Got d r"
    using sample_value [OF p(2)] by blast
  have "of_plans (plans st) d"
    using resampled_keys [OF d] p by (auto simp: of_plans_def)
  then have fits: "sample_fits cfg st d"
    by (rule of_plans_fits [OF start(2)])
  obtain accs where accs: "count_sample (cfg_actual cfg) d (accumulators st) = Inr accs"
    using count_step [OF start(2,1) fits] .
  have "250 \<le> test_every st" "seen st = 0"
    using start(2) zdvd_imp_le [of 250 "test_every st"] by (simp_all add: exact_inv_def)
  then obtain st' where st': "exact_step sample_platform cfg st d = Inr (Next st')"
    using accs by (simp add: exact_step_def Let_def)
  let ?data = "cfg_data cfg"
  let ?y0 = "system_start cfg st 2 :: unit system"
  let ?g0 = "sampler ?y0"
  let ?g1 = "(grouped_statistics_fn sample_dumps ?g0)\<lparr>phase := Serial_start\<rparr>"
  let ?f = "grouped_statistics_fn sample_dumps ?g1"
  let ?g2 = "?f\<lparr>phase := Serial (gets ?f, p, Unstarted 0)\<rparr>"
  let ?g3 = "?g2\<lparr>phase := Serial_yielded (gets ?f, p, r)\<rparr>"
  have cached: "cached ?f = Some p"
    by (simp add: grouped_statistics_fn_def system_start_def resampling_start_def p)
  have run: "ended ?y0 = None" "phase ?g0 = Entering" "waiting_plans ?g0 \<noteq> []"
    using p by (simp_all add: system_start_def resampling_start_def)
  have "resampling_step sample_exact sample_dumps ?data True ?g0 Quiet ?g1"
    using resampling_step.enter [OF run(2,3), of sample_exact sample_dumps ?data True] by simp
  then have r1: "system_reachable sample_platform sample_exact sample_dumps sample_loads True cfg ?y0 (?y0\<lparr>sampler := ?g1\<rparr>)"
    by (rule system_reachable.step [OF system_reachable.start system_step.quiet [OF run(1)]])
  have "resampling_step sample_exact sample_dumps ?data True ?g1 Quiet ?g2"
    by (rule resampling_step.serial_start [OF _ refl cached]) simp
  then have "system_step sample_platform sample_exact sample_dumps sample_loads True cfg (?y0\<lparr>sampler := ?g1\<rparr>)
      (?y0\<lparr>sampler := ?g1\<rparr>\<lparr>sampler := ?g2\<rparr>)"
    by (intro system_step.quiet) (simp_all add: run(1))
  note r2 = system_reachable.step [OF r1 this]
  have "resampling_step sample_exact sample_dumps ?data True ?g2 (Yields d) ?g3"
    using resampling_step.serial_value [of ?g2 "gets ?f" p "Unstarted 0" sample_exact ?data d r sample_dumps True]
      d start(3) by simp
  then have "system_step sample_platform sample_exact sample_dumps sample_loads True cfg (?y0\<lparr>sampler := ?g1, sampler := ?g2\<rparr>)
      (?y0\<lparr>sampler := ?g1, sampler := ?g2, test := st', seen_values := [d],
         sampler := ?g3\<lparr>waiting_plans := waiting_plans ?g3 @ new_plans st st'\<rparr>\<rparr>)"
    using st' run(1) system_step.continue [of "?y0\<lparr>sampler := ?g1, sampler := ?g2\<rparr>" sample_exact sample_dumps cfg True d ?g3
      sample_platform st' sample_loads] by (simp add: system_start_def)
  note r3 = system_reachable.step [OF r2 this]
  show ?thesis
    by (rule exI [of _ cfg], rule exI [of _ st], rule exI, intro conjI, rule st, rule r3)
      (simp_all add: system_start_def resampling_start_def grouped_statistics_fn_def p)
qed

text \<open>A sampler that has read the data and a plan, and hands them to a worker.\<close>

lemma sample_service:
  assumes "a_class s \<noteq> []" "loads (dumps p) = Inr p" "dumps p \<noteq> []"
  shows "\<exists>st :: (plan, nat) service. service_reachable loads [initial_req s, plan_req dumps p] st \<and>
    (Some (a_class s, b_class s), Some p) \<in> set (reads st)"
proof -
  let ?reqs = "[initial_req s, plan_req dumps p]"
  let ?s0 = "service_start ?reqs :: (plan, nat) service"
  let ?h1 = "\<lparr>is_done = False, is_ready = False, sample = Some (a_class s, b_class s), params = None\<rparr>"
  let ?h2 = "\<lparr>is_done = False, is_ready = True, sample = Some (a_class s, b_class s), params = Some p\<rparr>"
  let ?s1 = "?s0\<lparr>shared_state := ?h1, updater := Serving [plan_req dumps p]\<rparr>"
  let ?s2 = "?s0\<lparr>shared_state := ?h2, updater := Serving []\<rparr>"
  have "update_request loads (initial_req s) (shared_state ?s0) = (?h1, None)"
    using assms(1) by (simp add: update_request_def initial_req_def service_start_def)
  then have "service_step loads ?s0 ?s1"
    by (rule service_step.serve [rotated]) (simp add: service_start_def)
  note r1 = service_reachable.step [OF service_reachable.start this]
  have "update_request loads (plan_req dumps p) (shared_state ?s1) = (?h2, None)"
    using assms(2,3) by (simp add: update_request_def plan_req_def)
  then have "service_step loads ?s1 (?s1\<lparr>shared_state := ?h2, updater := Serving []\<rparr>)"
    by (rule service_step.serve [rotated]) simp
  then have "service_step loads ?s1 ?s2"
    by simp
  note r2 = service_reachable.step [OF r1 this]
  have "service_step loads ?s2 (?s2\<lparr>simulator := Checking\<rparr>)"
    by (rule service_step.wait_ready) (simp_all add: service_start_def)
  note r3 = service_reachable.step [OF r2 this]
  have "service_step loads (?s2\<lparr>simulator := Checking\<rparr>) (?s2\<lparr>simulator := Looping\<rparr>)"
    using service_step.check [of "?s2\<lparr>simulator := Checking\<rparr>" loads] by (simp add: service_start_def)
  note r4 = service_reachable.step [OF r3 this]
  have "service_step loads (?s2\<lparr>simulator := Looping\<rparr>)
      (?s2\<lparr>simulator := Looping, reads := [(Some (a_class s, b_class s), Some p)]\<rparr>)"
    using service_step.read_params [of "?s2\<lparr>simulator := Looping\<rparr>" loads] by (simp add: service_start_def)
  note r5 = service_reachable.step [OF r4 this]
  show ?thesis
    by (rule exI, rule conjI [OF r5]) simp
qed

text \<open>A test without data is decided at once.\<close>

lemma sample_decided:
  "\<exists>d. exact_start sample_platform sample_exact () [] [] sample_statistics f_half = Inr (Decided d)"
proof -
  obtain e l where el: "bonferroni_eps sample_platform 2 f_half = Inr e" "inner_log_eps sample_platform e = Inr l"
    using sample_bonferroni sample_log_eps by blast
  have a: "actual_data_results sample_exact () \<lparr>a_class = [], b_class = []\<rparr> sample_statistics =
      Inr [(''p50'', f_half), (''p99'', f_half)]"
    by (simp add: actual_data_results_def sample_exact_def sample_statistics_def median_def q99_def quantile_def
      DEFAULT_STATISTIC_def make_buf_def u64_def W_def)
  have len: "length sample_statistics = 2" "card (set (map name sample_statistics)) = 2"
    by (simp_all add: sample_statistics_def median_def q99_def quantile_def DEFAULT_STATISTIC_def)
  show ?thesis
    using el a len by (auto simp: exact_start_def Let_def resolve_early_def)
qed

end
