(* ===== verification/Regexp.thy ===== *)
theory Regexp
  imports Prelude "HOL-Library.Sublist"
begin

text \<open>
  The part of Python's \<open>re\<close> that the scripts use. Their patterns are sequences of single
  characters and greedy repetitions of a class of characters, some of them in a group; none
  is nested, and an anchor only stands at the front. A match is the list of the pieces of
  the text that the items of the pattern take. Repetitions are tried from the longest on, so
  the first match found is the one that backtracking finds.

  Characters are those of Latin-1, which are also the bytes of a byte pattern.
\<close>

datatype item = Once bool "char \<Rightarrow> bool" | Most bool nat "char \<Rightarrow> bool"

text \<open>The flag says whether the item is a group.\<close>

fun captures :: "item \<Rightarrow> bool" where
  "captures (Once g p) = g"
| "captures (Most g n p) = g"

definition exactly :: "string \<Rightarrow> item list" where
  "exactly s = map (\<lambda>c. Once False (\<lambda>x. x = c)) s"

fun first_some :: "('a \<Rightarrow> 'b option) \<Rightarrow> 'a list \<Rightarrow> 'b option" where
  "first_some f [] = None"
| "first_some f (x # xs) = (case f x of None \<Rightarrow> first_some f xs | Some y \<Rightarrow> Some y)"

text \<open>The lengths to try for a repetition, longest first.\<close>

definition lengths_down :: "nat \<Rightarrow> (char \<Rightarrow> bool) \<Rightarrow> string \<Rightarrow> nat list" where
  "lengths_down n p s = rev [n..<Suc (length (takeWhile p s))]"

fun re_match :: "item list \<Rightarrow> string \<Rightarrow> string list option" where
  "re_match [] s = Some []"
| "re_match (Once g p # items) s =
     (case s of [] \<Rightarrow> None
      | c # cs \<Rightarrow> if p c then map_option (\<lambda>ws. [c] # ws) (re_match items cs) else None)"
| "re_match (Most g n p # items) s =
     first_some (\<lambda>k. map_option (\<lambda>ws. take k s # ws) (re_match items (drop k s))) (lengths_down n p s)"

definition groups_of :: "item list \<Rightarrow> string list \<Rightarrow> string list" where
  "groups_of items ws = map snd (filter (captures \<circ> fst) (zip items ws))"

text \<open>What a match is: the text starts with the pieces, and each piece is one of its item.\<close>

fun piece_ok :: "item \<Rightarrow> string \<Rightarrow> bool" where
  "piece_ok (Once g p) w = (\<exists>c. w = [c] \<and> p c)"
| "piece_ok (Most g n p) w = (n \<le> length w \<and> list_all p w)"

definition splits :: "item list \<Rightarrow> string \<Rightarrow> string list \<Rightarrow> bool" where
  "splits its s ws \<longleftrightarrow> list_all2 piece_ok its ws \<and> prefix (concat ws) s"

lemma first_some_SomeD: "first_some f xs = Some y \<Longrightarrow> \<exists>x \<in> set xs. f x = Some y"
  by (induction xs) (auto split: option.splits)

lemma first_some_NoneD: "first_some f xs = None \<Longrightarrow> x \<in> set xs \<Longrightarrow> f x = None"
  by (induction xs) (auto split: option.splits)

lemma lengths_down_iff:
  "k \<in> set (lengths_down n p s) \<longleftrightarrow> n \<le> k \<and> k \<le> length s \<and> list_all p (take k s)"
proof -
  have "(k \<le> length s \<and> list_all p (take k s)) = (k \<le> length (takeWhile p s))"
  proof (induction s arbitrary: k)
    case (Cons c s)
    then show ?case by (cases k) simp_all
  qed simp
  then show ?thesis
    by (auto simp: lengths_down_def)
qed

lemma splits_Nil [simp]: "splits [] s ws \<longleftrightarrow> ws = []"
  by (auto simp: splits_def)

lemma splits_Once: "splits (Once g p # its) s ws \<longleftrightarrow> (\<exists>c cs ws'. s = c # cs \<and> p c \<and> ws = [c] # ws' \<and> splits its cs ws')"
  by (cases ws; cases s) (auto simp: splits_def)

lemma splits_Most: "splits (Most g n p # its) s ws \<longleftrightarrow>
    (\<exists>k ws'. k \<in> set (lengths_down n p s) \<and> ws = take k s # ws' \<and> splits its (drop k s) ws')"
proof
  assume sp: "splits (Most g n p # its) s ws"
  then obtain w ws' where ws: "ws = w # ws'" "n \<le> length w" "list_all p w" "list_all2 piece_ok its ws'" "prefix (w @ concat ws') s"
    by (cases ws) (auto simp: splits_def)
  then obtain t where t: "s = w @ concat ws' @ t"
    by (auto simp: prefix_def)
  show "\<exists>k ws'. k \<in> set (lengths_down n p s) \<and> ws = take k s # ws' \<and> splits its (drop k s) ws'"
    using ws t by (intro exI [of _ "length w"] exI [of _ ws']) (auto simp: lengths_down_iff splits_def)
next
  assume "\<exists>k ws'. k \<in> set (lengths_down n p s) \<and> ws = take k s # ws' \<and> splits its (drop k s) ws'"
  then obtain k ws' where k: "n \<le> k" "k \<le> length s" "list_all p (take k s)" "ws = take k s # ws'" "splits its (drop k s) ws'"
    by (auto simp: lengths_down_iff)
  then obtain t where "drop k s = concat ws' @ t"
    by (auto simp: splits_def prefix_def)
  then have "s = take k s @ concat ws' @ t"
    by (metis append_take_drop_id)
  then show "splits (Most g n p # its) s ws"
    using k by (auto simp: splits_def prefix_def)
qed

lemma re_match_splits: "re_match its s = Some ws \<Longrightarrow> splits its s ws"
proof (induction its arbitrary: s ws)
  case (Cons i its)
  show ?case
  proof (cases i)
    case (Once g p)
    then show ?thesis
      using Cons by (auto simp: splits_Once split: list.splits if_splits)
  next
    case (Most g n p)
    then show ?thesis
      using Cons by (auto simp: splits_Most dest!: first_some_SomeD)
  qed
qed simp

lemma splits_re_match: "splits its s ws \<Longrightarrow> re_match its s \<noteq> None"
proof (induction its arbitrary: s ws)
  case (Cons i its)
  show ?case
  proof (cases i)
    case (Once g p)
    then show ?thesis
      using Cons by (auto simp: splits_Once)
  next
    case (Most g n p)
    then obtain k ws' where k: "k \<in> set (lengths_down n p s)" "splits its (drop k s) ws'"
      using Cons.prems by (auto simp: splits_Most)
    show ?thesis
    proof
      assume "re_match (i # its) s = None"
      then have "re_match its (drop k s) = None"
        using first_some_NoneD [OF _ k(1)] Most by fastforce
      then show False
        using Cons.IH [OF k(2)] by simp
    qed
  qed
qed simp

text \<open>The pattern matches exactly when the text can be split, and the pieces are such a split.\<close>

lemma re_match_None_iff: "re_match its s = None \<longleftrightarrow> \<not> (\<exists>ws. splits its s ws)"
proof
  show "re_match its s = None \<Longrightarrow> \<not> (\<exists>ws. splits its s ws)"
    using splits_re_match by blast
  show "\<not> (\<exists>ws. splits its s ws) \<Longrightarrow> re_match its s = None"
    using re_match_splits by (cases "re_match its s") blast+
qed

text \<open>Backtracking takes the longest repetition after which the rest of the pattern matches.\<close>

lemma first_some_append: "first_some f (xs @ ys) = (case first_some f xs of None \<Rightarrow> first_some f ys | Some y \<Rightarrow> Some y)"
  by (induction xs) (auto split: option.splits)

lemma first_some_None: "\<forall>x \<in> set xs. f x = None \<Longrightarrow> first_some f xs = None"
  by (induction xs) auto

lemma re_match_longest:
  assumes w: "list_all p w" "n \<le> length w" and t: "re_match its t = Some ws"
    and later: "\<And>w' t'. \<lbrakk>t = w' @ t'; w' \<noteq> []; list_all p w'\<rbrakk> \<Longrightarrow> re_match its t' = None"
  shows "re_match (Most g n p # its) (w @ t) = Some (w # ws)"
proof -
  let ?m = "length (takeWhile p (w @ t))" and ?k = "length w"
  let ?f = "\<lambda>k. map_option (\<lambda>ws. take k (w @ t) # ws) (re_match its (drop k (w @ t)))"
  have m: "?m = ?k + length (takeWhile p t)"
    using w(1) by (simp add: takeWhile_append list_all_iff)
  have "[n..<Suc ?m] = [n..<?k] @ ?k # [Suc ?k..<Suc ?m]"
    using upt_add_eq_append [of n ?k "Suc ?m - ?k"] upt_conv_Cons [of ?k "Suc ?m"] w(2) m by simp
  then have order: "lengths_down n p (w @ t) = rev [Suc ?k..<Suc ?m] @ ?k # rev [n..<?k]"
    by (simp add: lengths_down_def)
  have "?f k = None" if "k \<in> set (rev [Suc ?k..<Suc ?m])" for k
  proof -
    let ?j = "k - ?k"
    have j: "0 < ?j" "?j \<le> length (takeWhile p t)" "drop k (w @ t) = drop ?j t"
      using that m by auto
    have "?j \<in> set (lengths_down 0 p t)"
      using j(2) by (auto simp: lengths_down_def)
    then have "list_all p (take ?j t)" "?j \<le> length t"
      by (simp_all add: lengths_down_iff)
    then have "re_match its (drop ?j t) = None"
      using j(1) by (intro later [of "take ?j t"]) auto
    then show ?thesis
      using j(3) by simp
  qed
  then have "first_some ?f (rev [Suc ?k..<Suc ?m]) = None"
    by (intro first_some_None) blast
  moreover have "?f ?k = Some (w # ws)"
    using t by simp
  ultimately show ?thesis
    unfolding re_match.simps(3) order by (simp add: first_some_append)
qed

lemma re_match_run:
  assumes "list_all p w" "n \<le> length w" "t = [] \<or> \<not> p (hd t)" "re_match its t = Some ws"
  shows "re_match (Most g n p # its) (w @ t) = Some (w # ws)"
proof (rule re_match_longest [OF assms(1,2,4)])
  fix w' t' assume "t = w' @ t'" "w' \<noteq> []" "list_all p w'"
  then show "re_match its t' = None"
    using assms(3) by (cases w') auto
qed

lemma re_match_exactly:
  "re_match its t = Some ws \<Longrightarrow> re_match (exactly s @ its) (s @ t) = Some (map (\<lambda>c. [c]) s @ ws)"
  by (induction s) (auto simp: exactly_def)

lemma re_match_exactly_prefix: "re_match (exactly s @ its) t \<noteq> None \<Longrightarrow> prefix s t"
proof (induction s arbitrary: t)
  case (Cons c s)
  then show ?case
    by (cases t) (auto simp: exactly_def split: if_splits)
qed simp

lemma captures_exactly: "groups_of (exactly s @ its) (map (\<lambda>c. [c]) s @ ws) = groups_of its ws"
  by (induction s) (auto simp: groups_of_def exactly_def)

lemma groups_of_Cons [simp]:
  "groups_of (i # its) (w # ws) = (if captures i then w # groups_of its ws else groups_of its ws)"
  "groups_of [] [] = []"
  by (simp_all add: groups_of_def)

lemma match_shorter:
  assumes "re_match its s = Some ws" "concat ws \<noteq> []"
  shows "length s - length (concat ws) < length s"
  using prefix_length_le [of "concat ws" s] re_match_splits [OF assms(1)] assms(2)
  by (cases s) (auto simp: splits_def)

subsection \<open>Substitution\<close>

text \<open>
  \<open>re.sub\<close> for a replacement that is a text, or the first group with a text after it. An
  anchored pattern is only tried at the front of the text.
\<close>

datatype replacement = Fixed string | First_group string

fun expand :: "replacement \<Rightarrow> string list \<Rightarrow> string" where
  "expand (Fixed t) gs = t"
| "expand (First_group t) gs = hd gs @ t"

record pattern =
  anchored :: bool
  items :: "item list"

function re_sub_from :: "bool \<Rightarrow> pattern \<Rightarrow> replacement \<Rightarrow> string \<Rightarrow> string" where
  "re_sub_from front pat r s =
     (let found = (if anchored pat \<and> \<not> front then None else re_match (items pat) s) in
      case found of
        Some ws \<Rightarrow>
          (if concat ws = []
           then expand r (groups_of (items pat) ws) @
             (case s of [] \<Rightarrow> [] | c # cs \<Rightarrow> c # re_sub_from False pat r cs)
           else expand r (groups_of (items pat) ws) @ re_sub_from False pat r (drop (length (concat ws)) s))
      | None \<Rightarrow> (case s of [] \<Rightarrow> [] | c # cs \<Rightarrow> c # re_sub_from False pat r cs))"
  by pat_completeness auto
termination
  by (relation "measure (\<lambda>(front, pat, r, s). length s)") (simp_all add: match_shorter split: if_splits)

subsection \<open>Lines and numbers\<close>

text \<open>The iterator of a file: lines with their line feed, the last one perhaps without.\<close>

definition newline :: char where "newline = CHR 0x0A"

fun file_lines :: "string \<Rightarrow> string list" where
  "file_lines [] = []"
| "file_lines (c # cs) =
     (if c = newline then [newline] # file_lines cs
      else case file_lines cs of [] \<Rightarrow> [[c]] | l # ls \<Rightarrow> (c # l) # ls)"

lemma file_lines_concat: "concat (file_lines s) = s"
  by (induction s) (auto split: list.splits)

text \<open>Characters of the ASCII classes of a byte pattern, and \<open>int\<close> of decimal digits.\<close>

definition is_space_byte :: "char \<Rightarrow> bool" where
  "is_space_byte c \<longleftrightarrow> c \<in> {CHR 0x09, CHR 0x0A, CHR 0x0B, CHR 0x0C, CHR 0x0D, CHR 0x20}"

definition is_digit :: "char \<Rightarrow> bool" where
  "is_digit c \<longleftrightarrow> 48 \<le> (of_char c :: nat) \<and> (of_char c :: nat) \<le> 57"

definition is_hex_digit :: "char \<Rightarrow> bool" where
  "is_hex_digit c \<longleftrightarrow> is_digit c \<or> 97 \<le> (of_char c :: nat) \<and> (of_char c :: nat) \<le> 102"

definition not_newline :: "char \<Rightarrow> bool" where "not_newline c \<longleftrightarrow> c \<noteq> newline"

definition decimal :: "string \<Rightarrow> int" where
  "decimal s = foldl (\<lambda>n c. 10 * n + (int (of_char c) - 48)) 0 s"

definition digit :: "nat \<Rightarrow> char" where "digit d = char_of (48 + d)"

text \<open>The digits of a number, as any printer writes them.\<close>

fun digits :: "nat \<Rightarrow> string" where
  "digits n = (if n < 10 then [digit n] else digits (n div 10) @ [digit (n mod 10)])"

declare digits.simps [simp del]

lemma of_char_digit: "d < 10 \<Longrightarrow> (of_char (digit d) :: nat) = 48 + d"
  by (simp add: digit_def)

lemma is_digit_digit: "d < 10 \<Longrightarrow> is_digit (digit d)"
  by (simp add: is_digit_def of_char_digit)

lemma digits_are_digits: "list_all is_digit (digits n) \<and> digits n \<noteq> []"
proof (induction n rule: digits.induct)
  case (1 n)
  then show ?case
    by (subst (1 2) digits.simps) (auto simp: is_digit_digit)
qed

lemma decimal_digits: "decimal (digits n) = int n"
proof (induction n rule: digits.induct)
  case (1 n)
  show ?case
  proof (cases "n < 10")
    case True
    then show ?thesis
      by (simp add: digits.simps [of n] decimal_def of_char_digit)
  next
    case False
    then have "decimal (digits n) = 10 * decimal (digits (n div 10)) + int (n mod 10)"
      by (subst digits.simps) (simp add: decimal_def of_char_digit)
    also have "\<dots> = int (10 * (n div 10) + n mod 10)"
      unfolding of_nat_add of_nat_mult 1 [OF False] by simp
    finally show ?thesis
      unfolding mult_div_mod_eq .
  qed
qed

end
