(* ===== verification/Traces.thy ===== *)
theory Traces
  imports Regexp
begin

text \<open>
  Traces of calls to the C library (\<open>t/umash_traces.py\<close>): a cache of downloaded files, and the
  decoding of one line of \<open>perf\<close> output. The network, the digest of a URL and the
  decompression are parameters; a compressed file is known by the generator of its lines.
\<close>

subsection \<open>The cache\<close>

definition slash :: char where "slash = CHR ''/''"
definition period :: char where "period = CHR ''.''"

text \<open>\<open>url.rsplit("/", 1)\<close>, unpacked in two, and \<open>os.path.splitext\<close> of a file name.\<close>

definition rsplit_slash :: "string \<Rightarrow> (string \<times> string) result" where
  "rsplit_slash url =
     (let full = rev (takeWhile (\<lambda>c. c \<noteq> slash) (rev url))
      in if slash \<in> set url then Inr (take (length url - length full - 1) url, full) else Inl ValueError)"

definition splitext :: "string \<Rightarrow> string \<times> string" where
  "splitext nm =
     (let ext = rev (takeWhile (\<lambda>c. c \<noteq> period) (rev nm));
          root = take (length nm - length ext - 1) nm
      in if period \<in> set nm \<and> list_ex (\<lambda>c. c \<noteq> period) root then (root, period # ext) else (nm, []))"

text \<open>What is on the disk, and how a download goes: refused, or copied, perhaps up to an exception.\<close>

record disk =
  cache_exists :: bool
  cached_file :: "string \<Rightarrow> string option"

datatype download = Refused py_error | Copied string "py_error option"

record trace_env =
  CACHE_DIR :: string
  hexdigest :: "string \<Rightarrow> string"
  bz2_lines :: "string \<Rightarrow> string gen"

definition decompress_by_ext :: "trace_env \<Rightarrow> string \<Rightarrow> string \<Rightarrow> string gen result" where
  "decompress_by_ext env contents ext =
     (if ext = ''.bz2'' then Inr (bz2_lines env contents)
      else if ext = [] then Inr (gen_of_list (file_lines contents))
      else Inl PlainException)"

definition get_file_contents :: "trace_env \<Rightarrow> (string \<Rightarrow> download) \<Rightarrow> string \<Rightarrow> disk \<Rightarrow> string gen result \<times> disk" where
  "get_file_contents env urlopen url d =
     (case rsplit_slash url of
        Inl e \<Rightarrow> (Inl e, d)
      | Inr (url_dir, full_file_name) \<Rightarrow>
          let (nm, ext) = splitext full_file_name;
              hashed_name = nm @ ''-'' @ hexdigest env url @ ext;
              cache_path = CACHE_DIR env @ hashed_name
          in case cached_file d cache_path of
               Some contents \<Rightarrow> (decompress_by_ext env contents ext, d)
             | None \<Rightarrow>
                 let d1 = d\<lparr>cache_exists := True\<rparr> in
                 case urlopen url of
                   Refused e \<Rightarrow> (Inl e, d1)
                 | Copied contents err \<Rightarrow>
                     let d2 = d1\<lparr>cached_file := (cached_file d1)(cache_path \<mapsto> contents)\<rparr>
                     in (case err of Some e \<Rightarrow> Inl e | None \<Rightarrow> decompress_by_ext env contents ext, d2))"

text \<open>Once a call has left a file, later calls read it, and nothing is downloaded.\<close>

lemma cached_afterwards:
  assumes "get_file_contents env urlopen url d = (r, d')" and "urlopen url = Copied contents err"
    and "cached_file d = (\<lambda>_. None)" and "rsplit_slash url = Inr (dir, full)"
  shows "r = (case err of None \<Rightarrow> decompress_by_ext env contents (snd (splitext full)) | Some e \<Rightarrow> Inl e) \<and>
    get_file_contents env urlopen' url d' = (decompress_by_ext env contents (snd (splitext full)), d')"
  using assms by (auto simp: get_file_contents_def Let_def split: prod.splits option.splits)

subsection \<open>Decoding\<close>

definition UMASH_FULL_PATTERN :: "item list" where
  "UMASH_FULL_PATTERN =
     [Most False 0 is_space_byte, Most False 1 (\<lambda>c. c \<noteq> CHR '' ''), Most False 1 is_space_byte,
      Most True 1 is_digit, Most False 0 not_newline] @
     exactly ''sdt_libumash:umash_full: ('' @ [Most False 1 is_hex_digit] @
     exactly '') arg1='' @ [Most True 1 is_digit] @
     exactly '' arg2='' @ [Once True is_digit] @
     exactly '' arg3='' @ [Most True 1 is_digit] @
     exactly '' arg4='' @ [Most True 1 is_digit]"

text \<open>A call: its name, then the thread, the parameters, which hash, the address and the size.\<close>

type_synonym trace_call = "string \<times> int list"

definition decode_line :: "string \<Rightarrow> trace_call option" where
  "decode_line line =
     (case re_match UMASH_FULL_PATTERN line of
        None \<Rightarrow> None
      | Some ws \<Rightarrow> Some (''umash_full'', map decimal (groups_of UMASH_FULL_PATTERN ws)))"

fun calls_of_lines :: "string gen \<Rightarrow> trace_call gen" where
  "calls_of_lines Done = Done"
| "calls_of_lines (Raise e) = Raise e"
| "calls_of_lines (Yield line f) =
     (case decode_line line of None \<Rightarrow> calls_of_lines f | Some call \<Rightarrow> Yield call (calls_of_lines f))"

definition umash_full_calls :: "trace_env \<Rightarrow> (string \<Rightarrow> download) \<Rightarrow> string \<Rightarrow> disk \<Rightarrow> trace_call gen \<times> disk" where
  "umash_full_calls env urlopen url d =
     (case get_file_contents env urlopen url d of
        (Inl e, d') \<Rightarrow> (Raise e, d')
      | (Inr f, d') \<Rightarrow> (calls_of_lines f, d'))"

text \<open>A line that \<open>perf\<close> prints for a call, with anything before the event.\<close>

definition call_fields :: "string \<Rightarrow> nat \<Rightarrow> nat \<Rightarrow> nat \<Rightarrow> nat \<Rightarrow> string" where
  "call_fields hex params which address sz =
     hex @ '') arg1='' @ digits params @ '' arg2='' @ digit which # '' arg3='' @ digits address @ '' arg4='' @ digits sz"

definition call_line :: "string \<Rightarrow> string \<Rightarrow> string \<Rightarrow> nat \<Rightarrow> string \<Rightarrow> string \<Rightarrow> nat \<Rightarrow> nat \<Rightarrow> nat \<Rightarrow> nat \<Rightarrow> string" where
  "call_line lead comm gap tid middle hex params which address sz =
     lead @ comm @ CHR '' '' # gap @ digits tid @ middle @
     ''sdt_libumash:umash_full: ('' @ call_fields hex params which address sz @ [newline]"

definition line_parts_ok :: "string \<Rightarrow> string \<Rightarrow> string \<Rightarrow> string \<Rightarrow> string \<Rightarrow> bool" where
  "line_parts_ok lead comm gap middle hex \<longleftrightarrow>
     list_all is_space_byte lead \<and> comm \<noteq> [] \<and> \<not> is_space_byte (hd comm) \<and> list_all (\<lambda>c. c \<noteq> CHR '' '') comm \<and>
     list_all is_space_byte gap \<and> middle \<noteq> [] \<and> \<not> is_digit (hd middle) \<and> list_all not_newline middle \<and>
     hex \<noteq> [] \<and> list_all is_hex_digit hex"

text \<open>The event name does not occur again: its first two letters never follow each other.\<close>

fun has_sd :: "string \<Rightarrow> bool" where
  "has_sd (a # b # s) \<longleftrightarrow> a = CHR ''s'' \<and> b = CHR ''d'' \<or> has_sd (b # s)"
| "has_sd _ \<longleftrightarrow> False"

lemma has_sd_prefix: "has_sd (a # s) \<longleftrightarrow> prefix ''sd'' (a # s) \<or> has_sd s"
  by (cases s) auto

lemma has_sd_suffix: "has_sd t \<Longrightarrow> has_sd (w @ t)"
  by (induction w) (auto simp: has_sd_prefix)

lemma has_sd_append:
  "list_all (\<lambda>c. c \<noteq> CHR ''s'') w \<Longrightarrow> has_sd (w @ t) \<longleftrightarrow> has_sd t"
  by (induction w) (auto simp: has_sd_prefix)

lemma has_sd_skip: "a \<noteq> CHR ''s'' \<Longrightarrow> has_sd (a # s) = has_sd s"
  by (auto simp: has_sd_prefix)

lemma digits_no_s: "list_all is_hex_digit s \<Longrightarrow> list_all (\<lambda>c. c \<noteq> CHR ''s'') s"
  by (induction s) (auto simp: is_hex_digit_def is_digit_def)

lemma digits_hex: "list_all is_digit s \<Longrightarrow> list_all is_hex_digit s"
  by (induction s) (auto simp: is_hex_digit_def)

lemma call_fields_no_s:
  assumes "list_all is_hex_digit hex" "which < 10"
  shows "\<not> has_sd (call_fields hex params which address sz @ [newline])"
proof -
  have d: "list_all (\<lambda>c. c \<noteq> CHR ''s'') (digits n)" for n
    using digits_are_digits digits_no_s digits_hex by blast
  have w: "digit which \<noteq> CHR ''s''"
    using digits_no_s [OF digits_hex, of "[digit which]"] is_digit_digit [OF assms(2)] by simp
  have "list_all (\<lambda>c. c \<noteq> CHR ''s'') (call_fields hex params which address sz @ [newline])"
    using digits_no_s [OF assms(1)] d w by (simp add: call_fields_def newline_def)
  then show ?thesis
    using has_sd_append [of _ "[]"] by fastforce
qed

text \<open>The tail of the pattern on the fields.\<close>

definition FIELDS_PATTERN :: "item list" where
  "FIELDS_PATTERN = Most False 1 is_hex_digit #
     exactly '') arg1='' @ Most True 1 is_digit #
     exactly '' arg2='' @ Once True is_digit #
     exactly '' arg3='' @ Most True 1 is_digit #
     exactly '' arg4='' @ [Most True 1 is_digit]"

lemma match_number:
  assumes "re_match its t = Some ws" "t = [] \<or> \<not> is_digit (hd t)"
  shows "re_match (Most True 1 is_digit # its) (digits n @ t) = Some (digits n # ws)"
  using digits_are_digits [of n] assms by (intro re_match_run) (auto simp: Suc_le_eq)

lemma match_fields:
  assumes "list_all is_hex_digit hex" "hex \<noteq> []" "which < 10"
  shows "\<exists>ws. re_match FIELDS_PATTERN (call_fields hex params which address sz @ [newline]) = Some ws \<and>
    groups_of FIELDS_PATTERN ws = [digits params, [digit which], digits address, digits sz]"
proof -
  have nl: "\<not> is_digit newline" "\<not> is_digit (CHR '' '')" "\<not> is_hex_digit (CHR '')'')"
    by (simp_all add: is_digit_def is_hex_digit_def newline_def)
  have 4: "re_match [Most True 1 is_digit] (digits sz @ [newline]) = Some [digits sz]"
    using match_number [of "[]" "[newline]" "[]"] nl by simp
  have 3: "re_match (Most True 1 is_digit # exactly '' arg4='' @ [Most True 1 is_digit])
      (digits address @ '' arg4='' @ digits sz @ [newline]) =
      Some (digits address # map (\<lambda>c. [c]) '' arg4='' @ [digits sz])"
    by (rule match_number [OF re_match_exactly [OF 4]]) (use nl in simp)
  have 2: "re_match (Once True is_digit # exactly '' arg3='' @ Most True 1 is_digit # exactly '' arg4='' @ [Most True 1 is_digit])
      (digit which # '' arg3='' @ digits address @ '' arg4='' @ digits sz @ [newline]) =
      Some ([digit which] # map (\<lambda>c. [c]) '' arg3='' @ digits address # map (\<lambda>c. [c]) '' arg4='' @ [digits sz])"
    using re_match_exactly [OF 3, of "'' arg3=''"] is_digit_digit [OF assms(3)] by simp
  note 1 = match_number [OF re_match_exactly [OF 2, of "'' arg2=''"], of params]
  have fields: "call_fields hex params which address sz @ [newline] = hex @ '') arg1='' @ digits params @
      '' arg2='' @ digit which # '' arg3='' @ digits address @ '' arg4='' @ digits sz @ [newline]"
    by (simp add: call_fields_def)
  have "re_match FIELDS_PATTERN (call_fields hex params which address sz @ [newline]) = Some (hex # map (\<lambda>c. [c]) '') arg1='' @
      digits params # map (\<lambda>c. [c]) '' arg2='' @ [digit which] # map (\<lambda>c. [c]) '' arg3='' @ digits address #
      map (\<lambda>c. [c]) '' arg4='' @ [digits sz])"
    unfolding fields FIELDS_PATTERN_def using assms(1,2) nl
    by (intro re_match_run re_match_exactly 1) (auto simp: Suc_le_eq)
  then show ?thesis
    by (intro exI conjI, assumption) (simp only: FIELDS_PATTERN_def groups_of_Cons captures_exactly captures.simps if_True if_False)
qed

lemma event_name_once:
  assumes "\<not> has_sd t" "''sdt_libumash:umash_full: ('' @ t = w @ t'" "w \<noteq> []"
  shows "re_match (exactly ''sdt_libumash:umash_full: ('' @ its) t' = None"
proof (rule ccontr)
  assume "re_match (exactly ''sdt_libumash:umash_full: ('' @ its) t' \<noteq> None"
  then obtain u where "t' = ''sdt_libumash:umash_full: ('' @ u"
    using re_match_exactly_prefix by (fastforce simp: prefix_def)
  then have "has_sd (tl w @ t')"
    by (intro has_sd_suffix) simp
  moreover have "tl w @ t' = ''dt_libumash:umash_full: ('' @ t"
    using assms(2,3) by (cases w) auto
  ultimately show False
    using assms(1) by (simp add: has_sd_skip)
qed

lemma pattern_parts: "UMASH_FULL_PATTERN =
    Most False 0 is_space_byte # Most False 1 (\<lambda>c. c \<noteq> CHR '' '') # Most False 1 is_space_byte #
    Most True 1 is_digit # Most False 0 not_newline # exactly ''sdt_libumash:umash_full: ('' @ FIELDS_PATTERN"
  by (simp add: UMASH_FULL_PATTERN_def FIELDS_PATTERN_def)

lemma decode_call_line:
  assumes ok: "line_parts_ok lead comm gap middle hex" and "which < 10"
  shows "decode_line (call_line lead comm gap tid middle hex params which address sz) =
    Some (''umash_full'', [int tid, int params, int which, int address, int sz])"
proof -
  let ?event = "''sdt_libumash:umash_full: (''"
  let ?fields = "call_fields hex params which address sz @ [newline]"
  have parts: "list_all is_space_byte lead" "comm \<noteq> []" "\<not> is_space_byte (hd comm)" "list_all (\<lambda>c. c \<noteq> CHR '' '') comm"
    "list_all is_space_byte gap" "middle \<noteq> []" "\<not> is_digit (hd middle)" "list_all not_newline middle"
    "hex \<noteq> []" "list_all is_hex_digit hex"
    using ok by (simp_all add: line_parts_ok_def)
  obtain ws where ws: "re_match FIELDS_PATTERN ?fields = Some ws"
    "groups_of FIELDS_PATTERN ws = [digits params, [digit which], digits address, digits sz]"
    using match_fields [OF parts(10,9) assms(2)] by blast
  have 5: "re_match (Most False 0 not_newline # exactly ?event @ FIELDS_PATTERN) (middle @ ?event @ ?fields) =
      Some (middle # map (\<lambda>c. [c]) ?event @ ws)"
    using event_name_once [OF call_fields_no_s [OF parts(10) assms(2)]] parts(8)
    by (intro re_match_longest re_match_exactly ws(1)) simp_all
  have 4: "re_match (Most True 1 is_digit # Most False 0 not_newline # exactly ?event @ FIELDS_PATTERN)
      (digits tid @ middle @ ?event @ ?fields) = Some (digits tid # middle # map (\<lambda>c. [c]) ?event @ ws)"
    using parts(6,7) by (intro match_number [OF 5]) simp
  have "\<not> is_space_byte (hd (digits tid @ middle @ ?event @ ?fields))"
    using digits_are_digits [of tid] by (cases "digits tid") (auto simp: is_digit_def is_space_byte_def)
  then have 3: "re_match (Most False 1 is_space_byte # Most True 1 is_digit # Most False 0 not_newline # exactly ?event @ FIELDS_PATTERN)
      ((CHR '' '' # gap) @ digits tid @ middle @ ?event @ ?fields) =
      Some ((CHR '' '' # gap) # digits tid # middle # map (\<lambda>c. [c]) ?event @ ws)"
    using parts(5) by (intro re_match_run 4) (simp_all add: is_space_byte_def)
  have 2: "re_match (Most False 1 (\<lambda>c. c \<noteq> CHR '' '') # Most False 1 is_space_byte # Most True 1 is_digit #
        Most False 0 not_newline # exactly ?event @ FIELDS_PATTERN)
      (comm @ (CHR '' '' # gap) @ digits tid @ middle @ ?event @ ?fields) =
      Some (comm # (CHR '' '' # gap) # digits tid # middle # map (\<lambda>c. [c]) ?event @ ws)"
    using parts(2,4) by (intro re_match_run 3) (auto simp: Suc_le_eq)
  have "re_match UMASH_FULL_PATTERN (lead @ comm @ (CHR '' '' # gap) @ digits tid @ middle @ ?event @ ?fields) =
      Some (lead # comm # (CHR '' '' # gap) # digits tid # middle # map (\<lambda>c. [c]) ?event @ ws)"
    unfolding pattern_parts using parts(1-3) by (intro re_match_run 2) auto
  moreover have "call_line lead comm gap tid middle hex params which address sz =
      lead @ comm @ (CHR '' '' # gap) @ digits tid @ middle @ ?event @ ?fields"
    by (simp add: call_line_def)
  moreover have "groups_of UMASH_FULL_PATTERN (lead # comm # (CHR '' '' # gap) # digits tid # middle # map (\<lambda>c. [c]) ?event @ ws) =
      [digits tid, digits params, [digit which], digits address, digits sz]"
    unfolding pattern_parts groups_of_Cons captures_exactly ws(2) by simp
  moreover have "decimal [digit which] = int which"
    using decimal_digits [of which] assms(2) by (simp add: digits.simps [of which])
  ultimately show ?thesis
    by (simp add: decode_line_def decimal_digits)
qed

text \<open>A line without the event is skipped.\<close>

lemma decode_other_line:
  assumes "\<not> sublist ''sdt_libumash:umash_full: ('' line"
  shows "decode_line line = None"
proof (rule ccontr)
  assume "decode_line line \<noteq> None"
  then obtain ws where "re_match UMASH_FULL_PATTERN line = Some ws"
    by (auto simp: decode_line_def split: option.splits)
  then have "splits UMASH_FULL_PATTERN line ws"
    by (rule re_match_splits)
  then obtain k ws' where "splits (exactly ''sdt_libumash:umash_full: ('' @ FIELDS_PATTERN) (drop k line) ws'"
    unfolding pattern_parts splits_Most drop_drop by (elim exE conjE) (rule that)
  then have "prefix ''sdt_libumash:umash_full: ('' (drop k line)"
    by (intro re_match_exactly_prefix splits_re_match)
  then have "sublist ''sdt_libumash:umash_full: ('' (drop k line)"
    by (rule prefix_imp_sublist)
  from sublist_order.order.trans [OF this suffix_imp_sublist [OF suffix_drop]]
  have "sublist ''sdt_libumash:umash_full: ('' line" .
  with assms show False ..
qed

end
