(* ===== verification/Headers.thy ===== *)
theory Headers
  imports Regexp "HOL-Library.AList" "HOL-Library.Char_ord" "HOL-Library.List_Lexorder"
begin

text \<open>
  How the scripts read C headers and name the symbols of a library: \<open>read_stripped_header\<close>
  (\<open>t/cffi_util.py\<close>), its replacements (\<open>t/umash.py\<close>, \<open>t/bench_loader.py\<close>), and the removal
  of a version suffix from the symbols of a benchmark library (\<open>t/bench_loader.py\<close>). What
  \<open>cffi\<close>, the dynamic linker and the build script do is a parameter.
\<close>

subsection \<open>Stripping a header\<close>

text \<open>White space of a text pattern, in Latin-1.\<close>

definition is_space_char :: "char \<Rightarrow> bool" where
  "is_space_char c \<longleftrightarrow> is_space_byte c \<or>
     c \<in> {CHR 0x1C, CHR 0x1D, CHR 0x1E, CHR 0x1F, CHR 0x85, CHR 0xA0}"

definition is_directive :: "string \<Rightarrow> bool" where
  "is_directive line \<longleftrightarrow> re_match (Most False 0 is_space_char # exactly ''#'') line \<noteq> None"

definition continues :: "string \<Rightarrow> bool" where
  "continues line \<longleftrightarrow> suffix [CHR 0x5C, newline] line"

definition replace_all :: "(pattern \<times> replacement) list \<Rightarrow> string \<Rightarrow> string" where
  "replace_all replacements line = foldl (\<lambda>l (pat, repl). re_sub_from True pat repl l) line replacements"

fun strip_loop :: "(pattern \<times> replacement) list \<Rightarrow> bool \<Rightarrow> string list \<Rightarrow> string" where
  "strip_loop replacements in_directive [] = []"
| "strip_loop replacements in_directive (line # lines) =
     (if in_directive \<or> is_directive line then strip_loop replacements (continues line) lines
      else replace_all replacements line @ strip_loop replacements False lines)"

definition read_stripped_header :: "(pattern \<times> replacement) list \<Rightarrow> string \<Rightarrow> string" where
  "read_stripped_header replacements contents = strip_loop replacements False (file_lines contents)"

text \<open>The replacements of the two loaders.\<close>

definition UMASH_REPLACEMENTS :: "(pattern \<times> replacement) list" where
  "UMASH_REPLACEMENTS =
     [(\<lparr>anchored = True, items = exactly (''extern '' @ [CHR 0x22] @ ''C'' @ [CHR 0x22] @ '' {'' @ [newline])\<rparr>, Fixed []),
      (\<lparr>anchored = False, items = exactly (''}'' @ [newline])\<rparr>, Fixed [])]"

definition BENCH_REPLACEMENTS :: "string \<Rightarrow> (pattern \<times> replacement) list" where
  "BENCH_REPLACEMENTS version =
     [(\<lparr>anchored = False, items = exactly ''ID('' @ [Most True 1 (\<lambda>c. c \<noteq> CHR '')'')] @ exactly '')''\<rparr>,
       First_group (''_'' @ version))]"

text \<open>
  Which lines are part of a directive: those that open one, and those that follow one through
  lines that end in a backslash.
\<close>

definition in_some_directive :: "string list \<Rightarrow> nat \<Rightarrow> bool" where
  "in_some_directive lines i \<longleftrightarrow>
     (\<exists>j \<le> i. is_directive (lines ! j) \<and> (\<forall>k. j \<le> k \<and> k < i \<longrightarrow> continues (lines ! k)))"

lemma in_some_directive_0: "in_some_directive (l # ls) 0 \<longleftrightarrow> is_directive l"
  by (simp add: in_some_directive_def)

lemma in_some_directive_Suc:
  "in_some_directive (l # ls) (Suc i) \<longleftrightarrow>
     in_some_directive ls i \<or> is_directive l \<and> continues l \<and> (\<forall>k < i. continues (ls ! k))"
proof
  assume "in_some_directive (l # ls) (Suc i)"
  then obtain j where j: "j \<le> Suc i" "is_directive ((l # ls) ! j)"
    "\<And>k. j \<le> k \<Longrightarrow> k < Suc i \<Longrightarrow> continues ((l # ls) ! k)"
    by (auto simp: in_some_directive_def)
  show "in_some_directive ls i \<or> is_directive l \<and> continues l \<and> (\<forall>k < i. continues (ls ! k))"
  proof (cases j)
    case 0
    then show ?thesis
      using j(2) j(3) [of 0] j(3) [of "Suc _"] by auto
  next
    case (Suc m)
    then have "in_some_directive ls i"
      using j(1,2) j(3) [of "Suc _"] unfolding in_some_directive_def by (intro exI [of _ m]) auto
    then show ?thesis ..
  qed
next
  assume "in_some_directive ls i \<or> is_directive l \<and> continues l \<and> (\<forall>k < i. continues (ls ! k))"
  then show "in_some_directive (l # ls) (Suc i)"
  proof
    assume "in_some_directive ls i"
    then obtain j where j: "j \<le> i" "is_directive (ls ! j)" "\<And>k. j \<le> k \<Longrightarrow> k < i \<Longrightarrow> continues (ls ! k)"
      by (auto simp: in_some_directive_def)
    have "continues ((l # ls) ! k)" if "Suc j \<le> k" "k < Suc i" for k
      using that j(3) by (cases k) auto
    then show ?thesis
      using j(1,2) unfolding in_some_directive_def by (intro exI [of _ "Suc j"]) simp
  next
    assume d: "is_directive l \<and> continues l \<and> (\<forall>k < i. continues (ls ! k))"
    have "continues ((l # ls) ! k)" if "k < Suc i" for k
      using that d by (cases k) auto
    then show ?thesis
      using d unfolding in_some_directive_def by (intro exI [of _ 0]) simp
  qed
qed

definition kept_lines :: "bool \<Rightarrow> string list \<Rightarrow> nat list" where
  "kept_lines d lines = filter (\<lambda>i. \<not> (in_some_directive lines i \<or> d \<and> (\<forall>k < i. continues (lines ! k)))) [0..<length lines]"

lemma kept_lines_Cons:
  "kept_lines d (l # ls) =
     (if d \<or> is_directive l then map Suc (kept_lines (continues l) ls) else 0 # map Suc (kept_lines False ls))"
proof -
  have later: "(in_some_directive (l # ls) (Suc i) \<or> d \<and> (\<forall>k < Suc i. continues ((l # ls) ! k))) =
      (in_some_directive ls i \<or> (d \<or> is_directive l) \<and> continues l \<and> (\<forall>k < i. continues (ls ! k)))" for i
    by (auto simp: in_some_directive_Suc All_less_Suc2)
  have "kept_lines d (l # ls) = (if d \<or> is_directive l then [] else [0]) @
      map Suc (filter (\<lambda>i. \<not> (in_some_directive ls i \<or> (d \<or> is_directive l) \<and> continues l \<and> (\<forall>k < i. continues (ls ! k)))) [0..<length ls])"
    unfolding kept_lines_def length_Cons upt_conv_Cons [OF zero_less_Suc] map_Suc_upt [symmetric] filter_map o_def
      filter.simps later by (simp add: filter_map o_def later in_some_directive_0)
  then show ?thesis
    by (auto simp: kept_lines_def)
qed

lemma strip_loop_kept: "strip_loop rs d lines = concat (map (\<lambda>i. replace_all rs (lines ! i)) (kept_lines d lines))"
proof (induction rs d lines rule: strip_loop.induct)
  case (2 rs d line lines)
  then show ?case
    by (auto simp: kept_lines_Cons comp_def)
qed (simp add: kept_lines_def)

lemma stripped_header_lines:
  "read_stripped_header rs contents =
     (let lines = file_lines contents in
      concat (map (\<lambda>i. replace_all rs (lines ! i)) (filter (\<lambda>i. \<not> in_some_directive lines i) [0..<length lines])))"
  by (simp add: read_stripped_header_def strip_loop_kept kept_lines_def Let_def)

subsection \<open>Symbols of a benchmark library\<close>

definition strip_suffix :: "string \<Rightarrow> string \<Rightarrow> string" where
  "strip_suffix symbol_suffix nm =
     (if suffix symbol_suffix nm then take (length nm - length symbol_suffix) nm else nm)"

text \<open>
  The name space of a library: the library itself, then its symbols in the order of \<open>dir\<close>. Reading
  a symbol may raise, as when the shared object lacks one that the header declares.
\<close>

fun rename_loop ::
    "(string \<Rightarrow> 'v result) \<Rightarrow> string \<Rightarrow> string list \<Rightarrow> (string \<times> 'v) list \<Rightarrow> (string \<times> 'v) list result" where
  "rename_loop getattr symbol_suffix [] ns = Inr ns"
| "rename_loop getattr symbol_suffix (nm # names) ns =
     bind_result (getattr nm) (\<lambda>v.
       rename_loop getattr symbol_suffix names (AList.update (strip_suffix symbol_suffix nm) v ns))"

definition renamed_symbols ::
    "string \<Rightarrow> 'v \<Rightarrow> (string \<Rightarrow> 'v result) \<Rightarrow> string list \<Rightarrow> (string \<times> 'v) list result" where
  "renamed_symbols version lib getattr names =
     rename_loop getattr (''_'' @ version) names [(''__lib'', lib)]"

text \<open>The name space when every symbol can be read.\<close>

definition renaming :: "string \<Rightarrow> 'v \<Rightarrow> (string \<times> 'v) list \<Rightarrow> (string \<times> 'v) list" where
  "renaming version lib symbols =
     foldl (\<lambda>ns (nm, v). AList.update (strip_suffix (''_'' @ version) nm) v ns) [(''__lib'', lib)] symbols"

lemma rename_loop_Inr:
  assumes "rename_loop getattr sfx names ns = Inr ns'"
  shows "\<forall>nm \<in> set names. \<exists>v. getattr nm = Inr v"
    and "ns' = foldl (\<lambda>ns (nm, v). AList.update (strip_suffix sfx nm) v ns) ns
      (map (\<lambda>nm. (nm, projr (getattr nm))) names)"
  using assms by (induction getattr sfx names ns rule: rename_loop.induct) (auto simp: bind_result_eq_Inr_iff)

lemma strip_suffix_eq:
  assumes "sfx \<noteq> []"
  shows "strip_suffix sfx nm = k \<longleftrightarrow> nm = k @ sfx \<or> nm = k \<and> \<not> suffix sfx k"
  by (auto simp: strip_suffix_def suffix_def)

lemma append_greater: "sfx \<noteq> [] \<Longrightarrow> (k :: string) < k @ sfx"
  by (induction k) (auto simp: Cons_less_Cons, cases sfx, auto)

lemma renaming_lookup:
  assumes "sorted (map fst symbols)" "distinct (map fst symbols)"
  shows "map_of (renaming version lib symbols) k =
    (case map_of symbols (k @ ''_'' @ version) of
       Some v \<Rightarrow> Some v
     | None \<Rightarrow> (case if suffix (''_'' @ version) k then None else map_of symbols k of
         Some v \<Rightarrow> Some v
       | None \<Rightarrow> if k = ''__lib'' then Some lib else None))"
  using assms
proof (induction symbols rule: rev_induct)
  case (snoc q symbols)
  let ?sfx = "''_'' @ version"
  obtain nm v where q: "q = (nm, v)" by fastforce
  have step: "renaming version lib (symbols @ [q]) = AList.update (strip_suffix ?sfx nm) v (renaming version lib symbols)"
    by (simp add: renaming_def q)
  have fresh: "nm \<notin> fst ` set symbols" and below: "\<forall>n \<in> fst ` set symbols. n \<le> nm"
    and ih: "sorted (map fst symbols)" "distinct (map fst symbols)"
    using snoc.prems q by (auto simp: sorted_append)
  note IH = snoc.IH [OF ih]
  have snoc_map: "map_of (symbols @ [q]) n = (if n = nm then Some v else map_of symbols n)" for n
  proof -
    have "map_of symbols nm = None"
      using fresh by (simp add: map_of_eq_None_iff)
    then show ?thesis
      by (auto simp: q map_add_def split: option.splits)
  qed
  have ne: "k @ ?sfx \<noteq> k"
    by simp
  show ?case
  proof (cases "strip_suffix ?sfx nm = k")
    case True
    then consider "nm = k @ ?sfx" | "nm = k" "\<not> suffix ?sfx k"
      using strip_suffix_eq [of ?sfx nm k] by auto
    then show ?thesis
    proof cases
      case 1
      then show ?thesis
        unfolding step snoc_map update_conv' using True by simp
    next
      case 2
      have "k < k @ ?sfx"
        by (rule append_greater) simp
      then have "k @ ?sfx \<notin> fst ` set symbols"
        using below 2(1) leD by blast
      then have "map_of symbols (k @ ?sfx) = None"
        by (simp add: map_of_eq_None_iff)
      then show ?thesis
        unfolding step snoc_map update_conv' using True 2 ne by simp
    qed
  next
    case False
    then have "nm \<noteq> k @ ?sfx" "suffix ?sfx k \<or> nm \<noteq> k"
      using strip_suffix_eq [of ?sfx nm k] by auto
    then show ?thesis
      unfolding step snoc_map update_conv' using False IH by auto
  qed
qed (simp add: renaming_def)

lemma map_of_computed: "map_of (map (\<lambda>k. (k, f k)) ks) k = (if k \<in> set ks then Some (f k) else None)"
  by (induction ks) auto

lemma renamed_lookup:
  assumes "renamed_symbols version lib getattr names = Inr ns" "sorted names" "distinct names"
  shows "map_of ns k =
    (if k @ ''_'' @ version \<in> set names then Some (projr (getattr (k @ ''_'' @ version)))
     else if k \<in> set names \<and> \<not> suffix (''_'' @ version) k then Some (projr (getattr k))
     else if k = ''__lib'' then Some lib else None)"
proof -
  let ?symbols = "map (\<lambda>nm. (nm, projr (getattr nm))) names"
  have ns: "ns = renaming version lib ?symbols"
    using rename_loop_Inr(2) [OF assms(1) [unfolded renamed_symbols_def]] unfolding renaming_def .
  have names: "map fst ?symbols = names"
    by (simp add: comp_def)
  have "sorted (map fst ?symbols)" "distinct (map fst ?symbols)"
    unfolding names by (fact assms)+
  from renaming_lookup [OF this, of version lib k] show ?thesis
    unfolding ns map_of_computed by simp
qed

subsection \<open>Loading a library\<close>

text \<open>
  Both loaders declare the stripped headers to \<open>cffi\<close>, in order, and then open the shared object.
  \<open>cdef\<close> extends the state of the FFI, \<open>dlopen\<close> gives a library, here with its \<open>dir\<close>.
\<close>

fun cdef_headers ::
    "(pattern \<times> replacement) list \<Rightarrow> (string \<Rightarrow> string result) \<Rightarrow> ('ffi \<Rightarrow> string \<Rightarrow> 'ffi result) \<Rightarrow> string
      \<Rightarrow> string list \<Rightarrow> 'ffi \<Rightarrow> 'ffi result" where
  "cdef_headers replacements open_file cdef toplevel [] ffi = Inr ffi"
| "cdef_headers replacements open_file cdef toplevel (header # headers) ffi =
     bind_result (open_file (toplevel @ header)) (\<lambda>contents.
     bind_result (cdef ffi (read_stripped_header replacements contents)) (\<lambda>ffi'.
       cdef_headers replacements open_file cdef toplevel headers ffi'))"

definition UMASH_HEADERS :: "string list" where
  "UMASH_HEADERS = [''umash.h'', ''t/umash_test_only.h'']"

definition load_umash ::
    "(string \<Rightarrow> string result) \<Rightarrow> ('ffi \<Rightarrow> string \<Rightarrow> 'ffi result) \<Rightarrow> ('ffi \<Rightarrow> string \<Rightarrow> 'lib result)
      \<Rightarrow> (string \<times> string) list \<Rightarrow> string \<Rightarrow> 'ffi \<Rightarrow> ('ffi \<times> 'lib) result" where
  "load_umash open_file cdef dlopen environ toplevel ffi =
     bind_result (cdef_headers UMASH_REPLACEMENTS open_file cdef toplevel UMASH_HEADERS ffi) (\<lambda>ffi'.
     bind_result (dlopen ffi' (case map_of environ ''UMASH_TEST_LIB'' of
         None \<Rightarrow> toplevel @ ''umash_test_only.so'' | Some path \<Rightarrow> path)) (\<lambda>c.
       Inr (ffi', c)))"

definition BENCH_HEADERS :: "string list" where
  "BENCH_HEADERS = [''bench/runner.h'']"

definition load_bench ::
    "(string \<Rightarrow> string result) \<Rightarrow> ('ffi \<Rightarrow> string \<Rightarrow> 'ffi result)
      \<Rightarrow> ('ffi \<Rightarrow> string \<Rightarrow> ('v \<times> string list) result) \<Rightarrow> ('v \<Rightarrow> string \<Rightarrow> 'v result)
      \<Rightarrow> string \<Rightarrow> 'ffi \<Rightarrow> string \<Rightarrow> ((string \<times> 'v) list \<times> 'ffi \<times> string) result" where
  "load_bench open_file cdef dlopen getattr toplevel ffi version =
     bind_result (cdef_headers (BENCH_REPLACEMENTS version) open_file cdef toplevel BENCH_HEADERS ffi) (\<lambda>ffi'.
     let path = toplevel @ ''umash_bench_runner-'' @ version @ ''.so'' in
     bind_result (dlopen ffi' path) (\<lambda>(c, names).
     bind_result (renamed_symbols version c (getattr c) names) (\<lambda>ns.
       Inr (ns, ffi', version))))"

text \<open>The library of the exact test: without it the module still loads.\<close>

definition EXACT_HEADERS :: "string list" where
  "EXACT_HEADERS = [''bench/exact_test.h'']"

definition load_exact ::
    "(string \<Rightarrow> string result) \<Rightarrow> ('ffi \<Rightarrow> string \<Rightarrow> 'ffi result) \<Rightarrow> ('ffi \<Rightarrow> string \<Rightarrow> 'lib result)
      \<Rightarrow> string \<Rightarrow> 'ffi \<Rightarrow> ('ffi \<times> 'lib option) result" where
  "load_exact open_file cdef dlopen toplevel ffi =
     bind_result (cdef_headers [] open_file cdef toplevel EXACT_HEADERS ffi) (\<lambda>ffi'.
       Inr (ffi', case dlopen ffi' (toplevel @ ''/exact.so'') of Inl e \<Rightarrow> None | Inr c \<Rightarrow> Some c))"

text \<open>Every header is declared, stripped and in order, before the library is opened.\<close>

lemma cdef_headers_contents:
  assumes "map open_file (map ((@) toplevel) headers) = map Inr texts" "\<And>ffi text. cdef ffi text = Inr (record_text ffi text)"
  shows "cdef_headers replacements open_file cdef toplevel headers ffi =
    Inr (foldl record_text ffi (map (read_stripped_header replacements) texts))"
  using assms(1)
proof (induction headers arbitrary: texts ffi)
  case (Cons header headers)
  then show ?case
    by (cases texts) (simp_all add: assms(2))
qed simp

lemma load_exact_declares:
  assumes "open_file (toplevel @ ''bench/exact_test.h'') = Inr text" "\<And>ffi text. cdef ffi text = Inr (record_text ffi text)"
  shows "\<exists>c. load_exact open_file cdef dlopen toplevel ffi = Inr (record_text ffi (read_stripped_header [] text), c)"
  using cdef_headers_contents [of open_file toplevel EXACT_HEADERS "[text]" cdef record_text] assms
  by (simp add: load_exact_def EXACT_HEADERS_def)

lemma load_bench_Inr:
  assumes "load_bench open_file cdef dlopen getattr toplevel ffi version = Inr (ns, ffi', v)"
  obtains c names where "v = version" "renamed_symbols version c (getattr c) names = Inr ns"
    "cdef_headers (BENCH_REPLACEMENTS version) open_file cdef toplevel BENCH_HEADERS ffi = Inr ffi'"
    "dlopen ffi' (toplevel @ ''umash_bench_runner-'' @ version @ ''.so'') = Inr (c, names)"
  using assms by (auto simp: load_bench_def Let_def bind_result_eq_Inr_iff)

subsection \<open>Building a library\<close>

text \<open>The environment of the build script: that of the process, unless flags or a compiler are given.\<close>

definition build_env :: "(string \<times> string) list \<Rightarrow> string option \<Rightarrow> string option \<Rightarrow> (string \<times> string) list option" where
  "build_env environ cflags cc =
     (if cflags = None \<and> cc = None then None
      else
        let env = (case cflags of None \<Rightarrow> environ | Some s \<Rightarrow> AList.update ''CFLAGS'' s environ)
        in Some (case cc of None \<Rightarrow> env | Some s \<Rightarrow> AList.update ''CC'' s env))"

definition RUNNER_PATTERN :: "item list" where
  "RUNNER_PATTERN = Most False 0 not_newline # exactly '' umash_bench_runner-'' @
     Most True 0 not_newline # exactly ''.so''"

text \<open>
  The version that the output of the script names. The code looks for it in the bytes of an output
  that it has decoded and printed, so its two decodings succeed or fail together.
\<close>

definition runner_version :: "string \<Rightarrow> string result" where
  "runner_version output =
     (case re_match RUNNER_PATTERN output of
        None \<Rightarrow> Inl AssertionError
      | Some ws \<Rightarrow> Inr (hd (groups_of RUNNER_PATTERN ws)))"

definition build_and_load ::
    "(string \<Rightarrow> (string \<times> string) list option \<Rightarrow> string result) \<Rightarrow> (string \<Rightarrow> 'lib result) \<Rightarrow> (string \<times> string) list
      \<Rightarrow> string \<Rightarrow> string option \<Rightarrow> string option \<Rightarrow> ('lib \<times> string) result" where
  "build_and_load check_output load_library environ commit cflags cc =
     bind_result (check_output commit (build_env environ cflags cc)) (\<lambda>output.
     bind_result (runner_version output) (\<lambda>version.
     bind_result (load_library version) (\<lambda>lib. Inr (lib, version))))"

text \<open>The first line that the script prints for a commit names it.\<close>

lemma runner_version_commit:
  assumes "list_all is_hex_digit sha"
  shows "runner_version (''Building umash_bench_runner-'' @ sha @ ''.so;'' @ newline # output) = Inr sha"
proof -
  let ?so = "''.so;'' @ newline # output"
  have hex: "list_all not_newline sha" "list_all (\<lambda>c. c \<noteq> CHR '' '') sha"
    using assms by (induction sha) (auto simp: is_hex_digit_def is_digit_def not_newline_def newline_def)
  have once: "re_match (exactly ''.so'') t' = None"
    if "?so = w' @ t'" "w' \<noteq> []" "list_all not_newline w'" for w' t'
  proof (rule ccontr)
    assume "re_match (exactly ''.so'') t' \<noteq> None"
    then obtain u where t': "t' = ''.so'' @ u"
      using re_match_exactly_prefix [of "''.so''" "[]" t'] by (auto simp: prefix_def)
    show False
      using that unfolding t' by (auto simp: Cons_eq_append_conv not_newline_def newline_def)
  qed
  have "re_match (exactly ''.so'') ?so = Some (map (\<lambda>c. [c]) ''.so'')"
    using re_match_exactly [of "[]" "'';'' @ newline # output" "[]" "''.so''"] by simp
  then have 2: "re_match (Most True 0 not_newline # exactly ''.so'') (sha @ ?so) = Some (sha # map (\<lambda>c. [c]) ''.so'')"
    using hex(1) once by (intro re_match_longest) auto
  let ?name = "'' umash_bench_runner-''"
  have once': "re_match (exactly ?name @ Most True 0 not_newline # exactly ''.so'') t' = None"
    if t: "?name @ sha @ ?so = w' @ t'" "w' \<noteq> []" "list_all not_newline w'" for w' t'
  proof (rule ccontr)
    assume "re_match (exactly ?name @ Most True 0 not_newline # exactly ''.so'') t' \<noteq> None"
    then obtain u where t': "t' = ?name @ u"
      using re_match_exactly_prefix by (fastforce simp: prefix_def)
    have "CHR '' '' \<in> set (takeWhile not_newline (tl (w' @ t')))"
      using t(2,3) t' by (cases w') (auto simp: takeWhile_append list_all_iff not_newline_def newline_def)
    moreover have "takeWhile not_newline (tl (w' @ t')) = ''umash_bench_runner-'' @ sha @ ''.so;''"
      using hex(1) by (simp flip: t(1) add: takeWhile_append list_all_iff not_newline_def newline_def)
    ultimately show False
      using hex(2) by (auto simp: list_all_iff)
  qed
  have "re_match RUNNER_PATTERN (''Building'' @ ?name @ sha @ ?so) = Some (''Building'' # map (\<lambda>c. [c]) ?name @ sha # map (\<lambda>c. [c]) ''.so'')"
    unfolding RUNNER_PATTERN_def using once'
    by (intro re_match_longest re_match_exactly 2) (auto simp: not_newline_def newline_def)
  moreover have "groups_of RUNNER_PATTERN (''Building'' # map (\<lambda>c. [c]) ?name @ sha # map (\<lambda>c. [c]) ''.so'') = [sha]"
    unfolding RUNNER_PATTERN_def groups_of_Cons captures_exactly
    using captures_exactly [of "''.so''" "[]" "[]"] by simp
  ultimately show ?thesis
    by (simp add: runner_version_def)
qed

end
