(* ===== verification/Bench.thy ===== *)
theory Bench
  imports Traces Headers Sampler_Data
begin

text \<open>
  The comparison of two versions of the C library (\<open>t/umash_bench.py\<close>): the sizes of the calls
  of a trace, blocks of inputs, and the loop that runs both versions on the same blocks and
  groups the timings by size. The C functions are parameters: a call fills the first entries of
  the buffer of timings with values of its own. So is \<open>random.shuffle\<close>: the order in which its
  \<open>k\<close>-th call puts a list of \<open>n\<close> items.
\<close>

function grouper :: "'a list \<Rightarrow> nat \<Rightarrow> 'a \<Rightarrow> 'a list list" where
  "grouper iterable n fillvalue =
     (if n = 0 \<or> iterable = [] then []
      else (take n iterable @ replicate (n - length iterable) fillvalue) # grouper (drop n iterable) n fillvalue)"
  by pat_completeness auto
termination
  by (relation "measure (\<lambda>(xs, n, f). length xs)") auto

declare grouper.simps [simp del]

subsection \<open>The sizes of a trace\<close>

fun collect_sizes ::
    "int \<Rightarrow> int \<Rightarrow> int \<Rightarrow> trace_call gen \<Rightarrow> (int \<times> int list) list \<Rightarrow> (int \<times> int list) list result" where
  "collect_sizes min_size limit length_fixup Done thread_traces = Inr thread_traces"
| "collect_sizes min_size limit length_fixup (Raise e) thread_traces = Inl e"
| "collect_sizes min_size limit length_fixup (Yield (nm, numbers) calls) thread_traces =
     (let tid = hd numbers; sz = last numbers + length_fixup
      in collect_sizes min_size limit length_fixup calls
           (if min_size \<le> sz \<and> sz < limit
            then default_update (=) tid [] (\<lambda>sizes. sizes @ [sz]) thread_traces else thread_traces))"

definition full_call_sizes :: "trace_call gen \<Rightarrow> int \<Rightarrow> int \<Rightarrow> int option \<Rightarrow> int list result" where
  "full_call_sizes calls min_size limit length_fixup =
     bind_result (collect_sizes min_size limit (case length_fixup of None \<Rightarrow> 0 | Some n \<Rightarrow> n) calls [])
       (\<lambda>thread_traces. Inr (concat (map snd thread_traces)))"

subsection \<open>Grouping timings\<close>

type_synonym timing_groups = "(int \<times> int list) list"

definition update_results :: "timing_groups \<Rightarrow> int list \<Rightarrow> int list \<Rightarrow> nat \<Rightarrow> timing_groups" where
  "update_results acc lengths timings cnt =
     foldl (\<lambda>acc i. default_update (=) (lengths ! i) [] (\<lambda>ts. ts @ [timings ! i]) acc) acc [0..<cnt]"

subsection \<open>Comparing\<close>

text \<open>An argument for both versions, or one for each.\<close>

datatype 'a versions = Both 'a | Each "'a list"

fun try_index :: "'a versions \<Rightarrow> int \<Rightarrow> 'a result" where
  "try_index (Each xs) i = py_get xs i"
| "try_index (Both x) i = Inr x"

text \<open>A C function: the number of the call, the options, the inputs, the count and the maximum.\<close>

type_synonym options = "(string \<times> int) list"
type_synonym runner = "nat \<Rightarrow> options \<Rightarrow> int list \<Rightarrow> nat \<Rightarrow> int \<Rightarrow> nat \<Rightarrow> int"

record library =
  symbols :: "(string \<times> runner) list"
  option_fields :: "string list"
  option_sizeof :: int

definition make_options :: "library \<Rightarrow> options \<Rightarrow> options result" where
  "make_options lib options =
     foldl (\<lambda>ret (field, v). bind_result ret (\<lambda>r.
         if field \<in> set (option_fields lib) then Inr (AList.update field v r) else Inl AttributeError))
       (Inr [(''size'', option_sizeof lib)]) options"

record implementation =
  position :: nat
  fn :: runner
  fn_options :: options
  results :: timing_groups

definition make_implementation :: "nat \<Rightarrow> library \<Rightarrow> string \<Rightarrow> options \<Rightarrow> implementation result" where
  "make_implementation i lib runner_name options =
     (case map_of (symbols lib) runner_name of
        None \<Rightarrow> Inl AttributeError
      | Some f \<Rightarrow> bind_result (make_options lib options) (\<lambda>opts.
          Inr \<lparr>position = i, fn = f, fn_options = opts, results = []\<rparr>))"

definition py_shuffle :: "(nat \<Rightarrow> nat \<Rightarrow> nat list) \<Rightarrow> nat \<Rightarrow> 'a list \<Rightarrow> 'a list" where
  "py_shuffle order k xs = map (\<lambda>i. xs ! i) (order k (length xs))"

text \<open>The values of a block go to the buffer up to the first fill value; the count is theirs.\<close>

fun fill_inputs :: "nat \<Rightarrow> int option list \<Rightarrow> int list \<Rightarrow> (nat \<times> int list) result" where
  "fill_inputs i [] inputs = Inr (i, inputs)"
| "fill_inputs i (None # block) inputs = Inr (i, inputs)"
| "fill_inputs i (Some v # block) inputs =
     (if u64 v then fill_inputs (Suc i) block (inputs[i := v]) else Inl OverflowError)"

text \<open>The buffers, the implementations in their current order, and the numbers of calls so far.\<close>

record bench_state =
  inputs :: "int list"
  timings :: "int list"
  implementations :: "implementation list"
  record_results :: bool
  shuffles :: nat
  call_number :: nat

fun run_implementations :: "nat \<Rightarrow> int \<Rightarrow> bench_state \<Rightarrow> implementation list \<Rightarrow> implementation list \<times> bench_state" where
  "run_implementations cnt max_len st [] = ([], st)"
| "run_implementations cnt max_len st (impl # impls) =
     (let measured = fn impl (call_number st) (fn_options impl) (inputs st) cnt max_len;
          timings' = map (\<lambda>i. if i < cnt then measured i else timings st ! i) [0..<length (timings st)];
          st' = st\<lparr>timings := timings', call_number := Suc (call_number st)\<rparr>;
          impl' = (if record_results st
                   then impl\<lparr>results := update_results (results impl) (inputs st) timings' cnt\<rparr> else impl);
          (rest, st'') = run_implementations cnt max_len st' impls
      in (impl' # rest, st''))"

definition run_block :: "(nat \<Rightarrow> nat \<Rightarrow> nat list) \<Rightarrow> int \<Rightarrow> int option list \<Rightarrow> bench_state \<Rightarrow> bench_state result" where
  "run_block order max_len block st =
     (let st1 = st\<lparr>implementations := py_shuffle order (shuffles st) (implementations st),
            shuffles := Suc (shuffles st)\<rparr>
      in bind_result (fill_inputs 0 block (inputs st1)) (\<lambda>(cnt, inputs').
           let (impls, st2) = run_implementations cnt max_len (st1\<lparr>inputs := inputs'\<rparr>) (implementations st1)
           in Inr (st2\<lparr>implementations := impls, record_results := True\<rparr>)))"

fun run_blocks :: "(nat \<Rightarrow> nat \<Rightarrow> nat list) \<Rightarrow> int \<Rightarrow> int option list list \<Rightarrow> bench_state \<Rightarrow> bench_state result" where
  "run_blocks order max_len [] st = Inr st"
| "run_blocks order max_len (block # blocks) st =
     bind_result (run_block order max_len block st) (run_blocks order max_len blocks)"

fun run_rounds ::
    "(nat \<Rightarrow> nat \<Rightarrow> nat list) \<Rightarrow> int \<Rightarrow> nat \<Rightarrow> nat \<Rightarrow> int list \<Rightarrow> bench_state \<Rightarrow> (int list \<times> bench_state) result" where
  "run_rounds order max_len block_size 0 length_arguments st = Inr (length_arguments, st)"
| "run_rounds order max_len block_size (Suc n) length_arguments st =
     bind_result (run_blocks order max_len (grouper (map Some length_arguments) block_size None) st) (\<lambda>st1.
       run_rounds order max_len block_size n (py_shuffle order (shuffles st1) length_arguments)
         (st1\<lparr>shuffles := Suc (shuffles st1)\<rparr>))"

record bench_env =
  check_output :: "string \<Rightarrow> (string \<times> string) list option \<Rightarrow> string result"
  load_library :: "string \<Rightarrow> library result"
  environ :: "(string \<times> string) list"
  shuffle_order :: "nat \<Rightarrow> nat \<Rightarrow> nat list"

record bench_arguments =
  current :: string
  baseline :: string
  cflags :: "string option versions"
  cc :: "string option versions"
  block_size :: nat
  arg_min_count :: int
  runner_name :: string
  bench_options :: options

definition build_version :: "bench_env \<Rightarrow> bench_arguments \<Rightarrow> string \<Rightarrow> int \<Rightarrow> (library \<times> string) result" where
  "build_version env arg commit i =
     bind_result (try_index (cflags arg) i) (\<lambda>flags.
     bind_result (try_index (cc arg) i) (\<lambda>compiler.
       build_and_load (check_output env) (load_library env) (environ env) commit flags compiler))"

text \<open>\<open>implementations.sort()\<close>: the positions differ, so nothing else is compared.\<close>

definition compare_inputs ::
    "bench_env \<Rightarrow> bench_arguments \<Rightarrow> int list \<Rightarrow> ((string \<times> timing_groups) list \<times> int list) result" where
  "compare_inputs env arg length_arguments =
     bind_result (build_version env arg (current arg) 0) (\<lambda>(current_lib, current_suffix).
     bind_result (build_version env arg (baseline arg) 1) (\<lambda>(baseline_lib, baseline_suffix).
     if length_arguments = [] then Inl ValueError
     else
       let max_len = Max (set length_arguments);
           buffer = replicate (block_size arg) 0
       in bind_result (make_implementation 0 current_lib (runner_name arg) (bench_options arg)) (\<lambda>impl0.
          bind_result (make_implementation 1 baseline_lib (runner_name arg) (bench_options arg)) (\<lambda>impl1.
          bind_result (run_rounds (shuffle_order env) max_len (block_size arg)
              (nat (1 + arg_min_count arg div int (length length_arguments))) length_arguments
              \<lparr>inputs = buffer, timings = buffer, implementations = [impl0, impl1],
               record_results = False, shuffles = 0, call_number = 0\<rparr>) (\<lambda>(length_arguments', st).
            let impls = sort_key position (implementations st)
            in Inr (AList.update baseline_suffix (results (impls ! 1)) [(current_suffix, results (impls ! 0))],
                 length_arguments'))))))"

definition compare_short_inputs ::
    "bench_env \<Rightarrow> bench_arguments \<Rightarrow> trace_call gen \<Rightarrow> int \<Rightarrow> int option \<Rightarrow> (string \<times> timing_groups) list result" where
  "compare_short_inputs env arg calls length_limit length_fixup =
     bind_result (full_call_sizes calls 0 length_limit length_fixup) (\<lambda>length_arguments.
     bind_result (compare_inputs env arg length_arguments) (\<lambda>(d, _). Inr d))"

definition compare_long_inputs ::
    "bench_env \<Rightarrow> bench_arguments \<Rightarrow> trace_call gen \<Rightarrow> int \<Rightarrow> int option \<Rightarrow> (string \<times> timing_groups) list result" where
  "compare_long_inputs env arg calls length_min length_fixup =
     bind_result (full_call_sizes calls length_min (2 ^ 64) length_fixup) (\<lambda>length_arguments.
     bind_result (compare_inputs env arg length_arguments) (\<lambda>(d, _). Inr d))"

end
