(* ===== verification/Bench_Counts.thy ===== *)
theory Bench_Counts
  imports Bench
begin

text \<open>
  What a comparison records. Each version is timed on the same sizes, the same number of times:
  once per round for each input, except the inputs of the first block, whose timings are
  dropped. The sizes of a trace are grouped by thread, in the order of the calls.
\<close>

subsection \<open>Blocks\<close>

function chunks :: "nat \<Rightarrow> 'a list \<Rightarrow> 'a list list" where
  "chunks n xs = (if n = 0 \<or> xs = [] then [] else take n xs # chunks n (drop n xs))"
  by pat_completeness auto
termination
  by (relation "measure (\<lambda>(n, xs). length xs)") auto

declare chunks.simps [simp del]

definition pad :: "nat \<Rightarrow> 'a \<Rightarrow> 'a list \<Rightarrow> 'a list" where
  "pad n z xs = xs @ replicate (n - length xs) z"

lemma grouper_chunks: "grouper xs n z = map (pad n z) (chunks n xs)"
proof (induction xs n z rule: grouper.induct)
  case (1 xs n z)
  then show ?case
    by (cases "n = 0 \<or> xs = []")
      (auto simp: grouper.simps [of xs] chunks.simps [of _ xs] pad_def min_def)
qed

lemma chunks_map: "chunks n (map f xs) = map (map f) (chunks n xs)"
proof (induction n xs rule: chunks.induct)
  case (1 n xs)
  then show ?case
    by (simp add: chunks.simps [of n xs] chunks.simps [of n "map f xs"] take_map drop_map)
qed

lemma chunks_spec:
  "0 < n \<Longrightarrow> concat (chunks n xs) = xs \<and> (\<forall>c \<in> set (chunks n xs). length c \<le> n) \<and>
     (xs \<noteq> [] \<longrightarrow> (\<exists>cs. chunks n xs = take n xs # cs))"
proof (induction n xs rule: chunks.induct)
  case (1 n xs)
  show ?case
  proof (cases "xs = []")
    case False
    then have eq: "chunks n xs = take n xs # chunks n (drop n xs)"
      using 1(2) by (subst chunks.simps) simp
    have "concat (chunks n (drop n xs)) = drop n xs" "\<forall>c \<in> set (chunks n (drop n xs)). length c \<le> n"
      using 1 False by simp_all
    then show ?thesis
      unfolding eq by simp
  qed (simp add: chunks.simps [of n "[]"])
qed

subsection \<open>Timings by size\<close>

definition timings_of :: "timing_groups \<Rightarrow> int \<Rightarrow> int list" where
  "timings_of acc len = (case map_of acc len of None \<Rightarrow> [] | Some ts \<Rightarrow> ts)"

lemma map_of_default_update:
  "map_of (default_update (=) k z f d) k' =
     (if k' = k then Some (f (case map_of d k of None \<Rightarrow> z | Some v \<Rightarrow> v)) else map_of d k')"
  by (induction d) auto

lemma timings_of_update:
  "length (timings_of (default_update (=) k [] (\<lambda>ts. ts @ [t]) acc) len) =
     length (timings_of acc len) + (if len = k then 1 else 0)"
  by (auto simp: timings_of_def map_of_default_update split: option.splits)

lemma update_results_counts:
  "n \<le> length lengths \<Longrightarrow> length (timings_of (update_results acc lengths counted n) len) =
     length (timings_of acc len) + count_list (take n lengths) len"
proof (induction n)
  case (Suc n)
  then have "length (timings_of (update_results acc lengths counted (Suc n)) len) =
      length (timings_of (update_results acc lengths counted n) len) + (if len = lengths ! n then 1 else 0)"
    by (simp add: update_results_def timings_of_update)
  moreover have "take (Suc n) lengths = take n lengths @ [lengths ! n]"
    using Suc.prems by (simp add: take_Suc_conv_app_nth)
  ultimately show ?case
    using Suc by simp
qed (simp add: update_results_def)

lemma fill_inputs_pad:
  assumes "fill_inputs i (pad n None (map Some vs)) buf = Inr (c, buf')" "i + length vs \<le> length buf"
  shows "c = i + length vs \<and> length buf' = length buf \<and> take c buf' = take i buf @ vs"
  using assms
proof (induction vs arbitrary: i n buf)
  case Nil
  then show ?case by (cases n) (auto simp: pad_def)
next
  case (Cons v vs)
  obtain n' where "pad n None (map Some (v # vs)) = Some v # pad n' None (map Some vs)"
    by (rule that [of "n - 1"]) (simp add: pad_def)
  then have step: "fill_inputs (Suc i) (pad n' None (map Some vs)) (buf[i := v]) = Inr (c, buf')"
    using Cons.prems(1) by (simp split: if_splits)
  have "take (Suc i) (buf[i := v]) = take i buf @ [v]"
    using Cons.prems(2) by (simp add: take_Suc_conv_app_nth)
  then show ?case
    using Cons.IH [OF step] Cons.prems(2) by auto
qed

subsection \<open>The loop\<close>

text \<open>Both versions have been timed the same number of times on every size.\<close>

definition balanced :: "nat \<Rightarrow> (int \<Rightarrow> nat) \<Rightarrow> bench_state \<Rightarrow> bool" where
  "balanced n counted st \<longleftrightarrow> length (inputs st) = n \<and> mset (map position (implementations st)) = {#0, 1#} \<and>
     (\<forall>im \<in> set (implementations st). \<forall>len. length (timings_of (results im) len) = counted len)"

lemma run_implementations_counts:
  "\<lbrakk>run_implementations c max_len st impls = (impls', st'); c \<le> length (inputs st)\<rbrakk> \<Longrightarrow>
     inputs st' = inputs st \<and> record_results st' = record_results st \<and> shuffles st' = shuffles st \<and>
     map position impls' = map position impls \<and>
     (\<forall>im' \<in> set impls'. \<exists>im \<in> set impls. \<forall>len. length (timings_of (results im') len) =
        length (timings_of (results im) len) + (if record_results st then count_list (take c (inputs st)) len else 0))"
proof (induction c max_len st impls arbitrary: impls' st' rule: run_implementations.induct)
  case (2 c max_len st impl impls)
  let ?counted = "map (\<lambda>i. if i < c then fn impl (call_number st) (fn_options impl) (inputs st) c max_len i
    else timings st ! i) [0..<length (timings st)]"
  let ?st = "st\<lparr>timings := ?counted, call_number := Suc (call_number st)\<rparr>"
  let ?impl = "if record_results st then impl\<lparr>results := update_results (results impl) (inputs st) ?counted c\<rparr> else impl"
  obtain rest st2 where rest: "run_implementations c max_len ?st impls = (rest, st2)"
    by fastforce
  then have eq: "impls' = ?impl # rest" "st' = st2"
    using 2(2) by (simp_all add: Let_def)
  have IH: "inputs st2 = inputs st \<and> record_results st2 = record_results st \<and> shuffles st2 = shuffles st \<and>
     map position rest = map position impls \<and>
     (\<forall>im' \<in> set rest. \<exists>im \<in> set impls. \<forall>len. length (timings_of (results im') len) =
        length (timings_of (results im) len) + (if record_results st then count_list (take c (inputs st)) len else 0))"
    using 2(1) [OF refl refl refl refl rest] 2(3) by (cases "record_results st") simp_all
  have "length (timings_of (results ?impl) len) =
      length (timings_of (results impl) len) + (if record_results st then count_list (take c (inputs st)) len else 0)" for len
    using 2(3) by (simp add: update_results_counts)
  then show ?case
    unfolding eq using IH by auto
qed simp

lemma py_shuffle_mset:
  assumes "\<forall>k n. mset (order k n) = mset [0..<n]"
  shows "mset (py_shuffle order k xs) = mset xs"
proof -
  have "mset (py_shuffle order k xs) = image_mset (\<lambda>i. xs ! i) (mset (order k (length xs)))"
    by (simp add: py_shuffle_def)
  also have "\<dots> = mset (map (\<lambda>i. xs ! i) [0..<length xs])"
    using assms by simp
  finally show ?thesis
    by (simp only: map_nth)
qed

lemma run_block_balanced:
  assumes "run_block order max_len (pad n None (map Some vs)) st = Inr st'" "balanced n counted st"
    and "length vs \<le> n" "\<forall>k n. mset (order k n) = mset [0..<n]"
  shows "balanced n (\<lambda>len. counted len + (if record_results st then count_list vs len else 0)) st' \<and> record_results st'"
proof -
  let ?st1 = "st\<lparr>implementations := py_shuffle order (shuffles st) (implementations st), shuffles := Suc (shuffles st)\<rparr>"
  obtain c buf where fill: "fill_inputs 0 (pad n None (map Some vs)) (inputs st) = Inr (c, buf)"
    using assms(1) by (auto simp: run_block_def Let_def bind_result_eq_Inr_iff)
  obtain impls st2 where run: "run_implementations c max_len (?st1\<lparr>inputs := buf\<rparr>) (implementations ?st1) = (impls, st2)"
    by fastforce
  have st': "st' = st2\<lparr>implementations := impls, record_results := True\<rparr>"
    using assms(1) fill run by (simp add: run_block_def Let_def)
  have c: "c = length vs" "length buf = n" "take c buf = vs"
    using fill_inputs_pad [OF fill] assms(2,3) by (auto simp: balanced_def)
  have mset: "mset (implementations ?st1) = mset (implementations st)"
    by (simp add: py_shuffle_mset [OF assms(4)])
  note counts = run_implementations_counts [OF run]
  have "mset (map position impls) = {#0, 1#}"
    using counts c assms(2,3) mset by (simp add: balanced_def)
  moreover have "length (timings_of (results im) len) = counted len + (if record_results st then count_list vs len else 0)"
    if im: "im \<in> set impls" for im len
  proof -
    obtain im0 where im0: "im0 \<in> set (implementations ?st1)"
      "length (timings_of (results im) len) = length (timings_of (results im0) len) +
        (if record_results st then count_list (take c buf) len else 0)"
      using counts c im assms(3) by fastforce
    have "im0 \<in> set (implementations st)"
      using im0(1) mset mset_eq_setD by blast
    then show ?thesis
      using im0(2) c(3) assms(2) by (simp add: balanced_def)
  qed
  ultimately show ?thesis
    using counts c assms(3) by (simp add: balanced_def st')
qed

lemma run_blocks_balanced:
  assumes order: "\<forall>k n. mset (order k n) = mset [0..<n]"
  shows "\<lbrakk>run_blocks order max_len (map (pad n None) (map (map Some) css)) st = Inr st'; balanced n counted st;
      \<forall>c \<in> set css. length c \<le> n\<rbrakk> \<Longrightarrow>
    balanced n (\<lambda>len. counted len + count_list (concat (if record_results st then css else tl css)) len) st' \<and>
    record_results st' = (record_results st \<or> css \<noteq> [])"
proof (induction css arbitrary: st counted)
  case (Cons vs css)
  obtain st1 where st1: "run_block order max_len (pad n None (map Some vs)) st = Inr st1"
    "run_blocks order max_len (map (pad n None) (map (map Some) css)) st1 = Inr st'"
    using Cons.prems(1) by (auto simp: bind_result_eq_Inr_iff)
  have "length vs \<le> n"
    using Cons.prems(3) by simp
  note block = run_block_balanced [OF st1(1) Cons.prems(2) this order]
  have "balanced n (\<lambda>len. (counted len + (if record_results st then count_list vs len else 0)) +
      count_list (concat (if record_results st1 then css else tl css)) len) st' \<and>
      record_results st' = (record_results st1 \<or> css \<noteq> [])"
    using Cons.prems(3) by (intro Cons.IH [OF st1(2) conjunct1 [OF block]]) simp
  then show ?case
    using block by (cases "record_results st") (simp_all add: add.assoc)
qed simp

lemma grouper_pad: "grouper (map Some xs) n None = map (pad n None) (map (map Some) (chunks n xs))"
  by (simp add: grouper_chunks chunks_map)

lemma mset_count_list: "mset xs = mset ys \<Longrightarrow> count_list xs = count_list ys"
  by (rule ext) (metis count_mset)

lemma run_rounds_balanced:
  assumes order: "\<forall>k n. mset (order k n) = mset [0..<n]" and n: "0 < n"
  shows "\<lbrakk>run_rounds order max_len n r xs st = Inr (xs', st'); balanced n counted st; record_results st\<rbrakk> \<Longrightarrow>
    balanced n (\<lambda>len. counted len + r * count_list xs len) st' \<and> mset xs' = mset xs"
proof (induction r arbitrary: xs st counted)
  case (Suc r)
  obtain st1 where st1: "run_blocks order max_len (grouper (map Some xs) n None) st = Inr st1"
    "run_rounds order max_len n r (py_shuffle order (shuffles st1) xs) (st1\<lparr>shuffles := Suc (shuffles st1)\<rparr>) = Inr (xs', st')"
    using Suc.prems(1) by (auto simp: bind_result_eq_Inr_iff)
  let ?xs = "py_shuffle order (shuffles st1) xs"
  note c = chunks_spec [OF n, of xs]
  have "balanced n (\<lambda>len. counted len + count_list xs len) st1 \<and> record_results st1"
    using run_blocks_balanced [OF order st1(1) [unfolded grouper_pad] Suc.prems(2)] c Suc.prems(3) by simp
  then have b: "balanced n (\<lambda>len. counted len + count_list xs len) (st1\<lparr>shuffles := Suc (shuffles st1)\<rparr>)"
    "record_results (st1\<lparr>shuffles := Suc (shuffles st1)\<rparr>)"
    by (simp_all add: balanced_def)
  have "mset ?xs = mset xs"
    by (rule py_shuffle_mset [OF order])
  then have "count_list ?xs = count_list xs"
    by (rule mset_count_list)
  then show ?case
    using Suc.IH [OF st1(2) b] \<open>mset ?xs = mset xs\<close> by (simp add: algebra_simps)
qed simp

lemma first_round_balanced:
  assumes order: "\<forall>k n. mset (order k n) = mset [0..<n]" and n: "0 < n" and xs: "xs \<noteq> []"
    and run: "run_rounds order max_len n (Suc r) xs st = Inr (xs', st')" and st: "balanced n (\<lambda>len. 0) st" "\<not> record_results st"
  shows "balanced n (\<lambda>len. Suc r * count_list xs len - count_list (take n xs) len) st' \<and> mset xs' = mset xs"
proof -
  obtain st1 where st1: "run_blocks order max_len (grouper (map Some xs) n None) st = Inr st1"
    "run_rounds order max_len n r (py_shuffle order (shuffles st1) xs) (st1\<lparr>shuffles := Suc (shuffles st1)\<rparr>) = Inr (xs', st')"
    using run by (auto simp: bind_result_eq_Inr_iff)
  let ?xs = "py_shuffle order (shuffles st1) xs"
  note c = chunks_spec [OF n, of xs]
  obtain cs where cs: "chunks n xs = take n xs # cs"
    using c xs by blast
  have cut: "count_list (concat cs) len = count_list xs len - count_list (take n xs) len"
    "count_list (take n xs) len \<le> count_list xs len" for len
  proof -
    have "concat (chunks n xs) = xs"
      using c by blast
    then have "xs = take n xs @ concat cs"
      unfolding cs by simp
    then have "count_list xs len = count_list (take n xs) len + count_list (concat cs) len"
      using count_list_append by metis
    then show "count_list (concat cs) len = count_list xs len - count_list (take n xs) len"
      "count_list (take n xs) len \<le> count_list xs len" by simp_all
  qed
  have "balanced n (\<lambda>len. count_list (concat cs) len) st1 \<and> record_results st1"
    using run_blocks_balanced [OF order st1(1) [unfolded grouper_pad] st(1)] c st(2) cs by simp
  then have b: "balanced n (\<lambda>len. count_list xs len - count_list (take n xs) len) (st1\<lparr>shuffles := Suc (shuffles st1)\<rparr>)"
    "record_results (st1\<lparr>shuffles := Suc (shuffles st1)\<rparr>)"
    by (simp_all add: balanced_def cut(1))
  have same: "mset ?xs = mset xs"
    by (rule py_shuffle_mset [OF order])
  then have "count_list ?xs = count_list xs"
    by (rule mset_count_list)
  then have "balanced n (\<lambda>len. (count_list xs len - count_list (take n xs) len) + r * count_list xs len) st' \<and> mset xs' = mset xs"
    using run_rounds_balanced [OF order n st1(2) b] same by simp
  moreover have "(count_list xs len - count_list (take n xs) len) + r * count_list xs len =
      Suc r * count_list xs len - count_list (take n xs) len" for len
    using cut(2) [of len] by simp
  ultimately show ?thesis by simp
qed

text \<open>The number of rounds, and what a comparison returns.\<close>

definition rounds :: "bench_arguments \<Rightarrow> int list \<Rightarrow> nat" where
  "rounds arg xs = nat (1 + arg_min_count arg div int (length xs))"

lemma compare_inputs_timings:
  assumes run: "compare_inputs env arg xs = Inr (d, xs')" and n: "0 < block_size arg" and count: "0 \<le> arg_min_count arg"
    and order: "\<forall>k n. mset (shuffle_order env k n) = mset [0..<n]"
  obtains current_lib current_suffix baseline_lib baseline_suffix r0 r1 where
    "build_version env arg (current arg) 0 = Inr (current_lib, current_suffix)"
    "build_version env arg (baseline arg) 1 = Inr (baseline_lib, baseline_suffix)"
    "d = AList.update baseline_suffix r1 [(current_suffix, r0)]" "mset xs' = mset xs" "xs \<noteq> []"
    "\<And>r len. r \<in> {r0, r1} \<Longrightarrow> length (timings_of r len) = rounds arg xs * count_list xs len - count_list (take (block_size arg) xs) len"
proof -
  obtain current_lib current_suffix baseline_lib baseline_suffix where
    b: "build_version env arg (current arg) 0 = Inr (current_lib, current_suffix)"
    "build_version env arg (baseline arg) 1 = Inr (baseline_lib, baseline_suffix)"
    using run by (auto simp: compare_inputs_def bind_result_eq_Inr_iff)
  have ne: "xs \<noteq> []"
    using run b by (auto simp: compare_inputs_def)
  let ?buffer = "replicate (block_size arg) 0"
  obtain impl0 impl1 where impls: "make_implementation 0 current_lib (runner_name arg) (bench_options arg) = Inr impl0"
    "make_implementation 1 baseline_lib (runner_name arg) (bench_options arg) = Inr impl1"
    using run b ne by (auto simp: compare_inputs_def Let_def bind_result_eq_Inr_iff)
  let ?st = "\<lparr>inputs = ?buffer, timings = ?buffer, implementations = [impl0, impl1],
    record_results = False, shuffles = 0, call_number = 0\<rparr>"
  obtain st where st: "run_rounds (shuffle_order env) (Max (set xs)) (block_size arg) (rounds arg xs) xs ?st = Inr (xs', st)"
    and d: "d = AList.update baseline_suffix (results (sort_key position (implementations st) ! 1))
      [(current_suffix, results (sort_key position (implementations st) ! 0))]"
    using run b ne impls by (auto simp: compare_inputs_def rounds_def Let_def bind_result_eq_Inr_iff)
  have start: "position impl0 = 0" "results impl0 = []" "position impl1 = 1" "results impl1 = []"
    using impls by (auto simp: make_implementation_def bind_result_eq_Inr_iff split: option.splits)
  have "balanced (block_size arg) (\<lambda>len. 0) ?st" "\<not> record_results ?st"
    using start by (simp_all add: balanced_def timings_of_def)
  moreover have "0 \<le> arg_min_count arg div int (length xs)"
    using count ne by (intro pos_imp_zdiv_nonneg_iff [THEN iffD2]) simp_all
  then obtain r where "rounds arg xs = Suc r"
    by (cases "rounds arg xs") (auto simp: rounds_def)
  ultimately have bal: "balanced (block_size arg) (\<lambda>len. rounds arg xs * count_list xs len - count_list (take (block_size arg) xs) len) st"
    "mset xs' = mset xs"
    using first_round_balanced [OF order n ne] st by metis+
  let ?sorted = "sort_key position (implementations st)"
  have "length ?sorted = 2"
    using bal(1) by (metis balanced_def length_map length_sort size_mset size_add_mset size_single add_2_eq_Suc' One_nat_def numeral_2_eq_2 add_mset_add_single)
  then have "?sorted ! i \<in> set (implementations st)" if "i < 2" for i
    using that nth_mem [of i ?sorted] by simp
  then have "length (timings_of r len) = rounds arg xs * count_list xs len - count_list (take (block_size arg) xs) len"
    if "r \<in> {results (?sorted ! 0), results (?sorted ! 1)}" for r len
    using that bal(1) by (auto simp: balanced_def)
  then show ?thesis
    using that [OF b d bal(2) ne] by blast
qed

subsection \<open>Sizes by thread\<close>

definition first_seen :: "'a list \<Rightarrow> 'a list" where
  "first_seen xs = foldl (\<lambda>seen x. if x \<in> set seen then seen else seen @ [x]) [] xs"

lemma set_first_seen: "set (first_seen xs) = set xs"
  by (induction xs rule: rev_induct) (auto simp: first_seen_def)

lemma first_seen_simps: "first_seen [] = []"
    "first_seen (xs @ [x]) = (if x \<in> set xs then first_seen xs else first_seen xs @ [x])"
  unfolding set_first_seen [of xs, symmetric] by (simp_all add: first_seen_def)

lemma distinct_first_seen: "distinct (first_seen xs)"
  by (induction xs rule: rev_induct) (simp_all add: first_seen_simps set_first_seen)

definition by_thread :: "(int \<times> int) list \<Rightarrow> int \<Rightarrow> int list" where
  "by_thread sizes tid = map snd (filter (\<lambda>(t, sz). t = tid) sizes)"

lemma default_update_map:
  "distinct ks \<Longrightarrow> default_update (=) k z f (map (\<lambda>k. (k, g k)) ks) =
     (if k \<in> set ks then map (\<lambda>k'. (k', if k' = k then f (g k) else g k')) ks
      else map (\<lambda>k. (k, g k)) ks @ [(k, f z)])"
  by (induction ks) auto

text \<open>The calls that count, as pairs of a thread and a size.\<close>

definition kept_sizes :: "int \<Rightarrow> int \<Rightarrow> int option \<Rightarrow> trace_call list \<Rightarrow> (int \<times> int) list" where
  "kept_sizes min_size limit length_fixup calls =
     filter (\<lambda>(t, sz). min_size \<le> sz \<and> sz < limit)
       (map (\<lambda>(nm, numbers). (hd numbers, last numbers + (case length_fixup of None \<Rightarrow> 0 | Some n \<Rightarrow> n))) calls)"

lemma collect_sizes_foldl:
  "collect_sizes min_size limit (case length_fixup of None \<Rightarrow> 0 | Some n \<Rightarrow> n) (gen_of_list calls) d =
     Inr (foldl (\<lambda>d (t, sz). default_update (=) t [] (\<lambda>sizes. sizes @ [sz]) d) d (kept_sizes min_size limit length_fixup calls))"
proof (induction calls arbitrary: d)
  case (Cons call calls)
  have "kept_sizes min_size limit length_fixup (call # calls) =
      (let q = (hd (snd call), last (snd call) + (case length_fixup of None \<Rightarrow> 0 | Some n \<Rightarrow> n))
       in (if min_size \<le> snd q \<and> snd q < limit then [q] else []) @ kept_sizes min_size limit length_fixup calls)"
    by (simp add: kept_sizes_def split_beta Let_def)
  then show ?case
    using Cons by (cases call) (simp add: Let_def)
qed (simp add: kept_sizes_def)

lemma grouped_by_thread:
  "foldl (\<lambda>d (t, sz). default_update (=) t [] (\<lambda>sizes. sizes @ [sz]) d) [] sizes =
     map (\<lambda>t. (t, by_thread sizes t)) (first_seen (map fst sizes))"
proof (induction sizes rule: rev_induct)
  case (snoc q sizes)
  obtain t sz where q: "q = (t, sz)" by fastforce
  have new: "by_thread (sizes @ [q]) t' = by_thread sizes t' @ (if t' = t then [sz] else [])" for t'
    by (auto simp: by_thread_def q)
  note new' = new [unfolded q]
  have none: "by_thread sizes t = []" if "t \<notin> fst ` set sizes"
    using that by (force simp: by_thread_def filter_empty_conv)
  have "default_update (=) t [] (\<lambda>sizes. sizes @ [sz]) (map (\<lambda>t. (t, by_thread sizes t)) (first_seen (map fst sizes))) =
      map (\<lambda>t. (t, by_thread (sizes @ [q]) t)) (first_seen (map fst (sizes @ [q])))"
    using none by (auto simp: default_update_map distinct_first_seen set_first_seen first_seen_simps new' q)
  then show ?case
    using snoc q by simp
qed (simp add: first_seen_simps)

lemma full_call_sizes_by_thread:
  "full_call_sizes (gen_of_list calls) min_size limit length_fixup =
     (let sizes = kept_sizes min_size limit length_fixup calls in
      Inr (concat (map (by_thread sizes) (first_seen (map fst sizes)))))"
  by (simp add: full_call_sizes_def collect_sizes_foldl grouped_by_thread comp_def Let_def)

lemma concat_by_thread: "mset (concat (map (by_thread sizes) (first_seen (map fst sizes)))) = mset (map snd sizes)"
proof -
  have "mset (concat (map (by_thread sizes) ts)) = mset (map snd (filter (\<lambda>q. fst q \<in> set ts) sizes))"
    if "distinct ts" for ts
    using that
  proof (induction ts)
    case (Cons t ts)
    have "mset (filter (\<lambda>q. fst q \<in> set (t # ts)) sizes) =
        mset (filter (\<lambda>(t', sz). t' = t) sizes) + mset (filter (\<lambda>q. fst q \<in> set ts) sizes)"
      using Cons.prems by (induction sizes) auto
    then show ?case
      using Cons by (simp add: by_thread_def)
  qed simp
  from this [OF distinct_first_seen, of "map fst sizes"] show ?thesis
    by (simp add: set_first_seen)
qed

end
