(* ===== verification/Client.thy ===== *)
theory Client
  imports Regexp
begin

text \<open>
  The list of samplers (\<open>t/exact_test_sampler_client.py\<close>) and the limits of a sampler
  (\<open>setup_server\<close>, \<open>t/exact_test_sampler_server.py\<close>). A configuration is what \<open>configparser\<close>
  makes of a file: the options of the default section and those of the others, in order, with
  values after interpolation; a file that is not there reads as an empty configuration. The
  connections and the gRPC server are parameters.
\<close>

record config =
  config_defaults :: "(string \<times> string) list"
  config_sections :: "(string \<times> (string \<times> string) list) list"

definition config_lookup :: "config \<Rightarrow> string \<Rightarrow> string \<Rightarrow> string option" where
  "config_lookup config section_name option_name =
     (case map_of (config_sections config) section_name of
        None \<Rightarrow> None
      | Some opts \<Rightarrow> (case map_of opts option_name of
          None \<Rightarrow> map_of (config_defaults config) option_name
        | Some v \<Rightarrow> Some v))"

definition config_get :: "config \<Rightarrow> string \<Rightarrow> string \<Rightarrow> string option \<Rightarrow> string result" where
  "config_get config section_name option_name fallback =
     (case config_lookup config section_name option_name of
        Some v \<Rightarrow> Inr v
      | None \<Rightarrow> (case fallback of None \<Rightarrow> Inl ConfigError | Some v \<Rightarrow> Inr v))"

definition lower :: "string \<Rightarrow> string" where
  "lower = map (\<lambda>c. if 65 \<le> (of_char c :: nat) \<and> (of_char c :: nat) \<le> 90 then char_of ((of_char c :: nat) + 32) else c)"

definition BOOLEAN_STATES :: "(string \<times> bool) list" where
  "BOOLEAN_STATES = [(''1'', True), (''yes'', True), (''true'', True), (''on'', True),
     (''0'', False), (''no'', False), (''false'', False), (''off'', False)]"

definition config_getboolean :: "config \<Rightarrow> string \<Rightarrow> string \<Rightarrow> bool \<Rightarrow> bool result" where
  "config_getboolean config section_name option_name fallback =
     (case config_lookup config section_name option_name of
        None \<Rightarrow> Inr fallback
      | Some v \<Rightarrow> (case map_of BOOLEAN_STATES (lower v) of None \<Rightarrow> Inl ValueError | Some b \<Rightarrow> Inr b))"

fun read_hosts :: "config \<Rightarrow> string list \<Rightarrow> (string \<times> string) list \<Rightarrow> (string \<times> string) list result" where
  "read_hosts config [] ret = Inr ret"
| "read_hosts config (host # hosts) ret =
     (if host = ''DEFAULT'' then read_hosts config hosts ret
      else if host = ''local_sampler_executor'' then read_hosts config hosts ret
      else
        bind_result (config_get config host ''hostname'' (Some host)) (\<lambda>hostname.
        bind_result (config_get config host ''port'' None) (\<lambda>port.
          read_hosts config hosts (ret @ [(host, hostname @ '':'' @ port)]))))"

definition parse_sampler_servers ::
    "(string \<Rightarrow> config result) \<Rightarrow> string \<Rightarrow> ((string \<times> string) list \<times> bool \<times> bool) result" where
  "parse_sampler_servers read path =
     bind_result (read path) (\<lambda>config.
     bind_result (config_getboolean config ''local_sampler_executor'' ''local_parallelism'' True) (\<lambda>use_local.
     bind_result (config_getboolean config ''local_sampler_executor'' ''inline_evaluation'' True) (\<lambda>inline_eval.
     bind_result (read_hosts config (''DEFAULT'' # map fst (config_sections config)) []) (\<lambda>ret.
       Inr (ret, use_local, inline_eval)))))"

definition CONFIG_PATH :: "string \<Rightarrow> string" where
  "CONFIG_PATH toplevel = toplevel @ ''.sampler_servers.ini''"

definition SECONDARY_CONFIG_PATH :: "string \<Rightarrow> string" where
  "SECONDARY_CONFIG_PATH toplevel = toplevel @ ''sampler_servers.ini.dist''"

text \<open>\<open>"%i"\<close>.\<close>

definition show_int :: "int \<Rightarrow> string" where
  "show_int i = (if i < 0 then CHR ''-'' # digits (nat (- i)) else digits (nat i))"

definition found_servers :: "'a list \<Rightarrow> string \<Rightarrow> string" where
  "found_servers servers path =
     ''Found '' @ show_int (int (length servers)) @ '' sampler servers in '' @ path @ ''.''"

text \<open>The lines that are printed when the module is imported.\<close>

definition print_sampler_servers :: "(py_error \<Rightarrow> string) \<Rightarrow> string \<Rightarrow> (string \<Rightarrow> config result) \<Rightarrow> string list" where
  "print_sampler_servers show_error toplevel read =
     (let report = (\<lambda>path parsed. case parsed of
            Inl e \<Rightarrow> [''Exc: '' @ show_error e, found_servers ([] :: (string \<times> string) list) path]
          | Inr (servers, use_local, inline_eval) \<Rightarrow> [found_servers servers path])
      in case parse_sampler_servers read (CONFIG_PATH toplevel) of
           Inr ([], use_local, inline_eval) \<Rightarrow>
             report (SECONDARY_CONFIG_PATH toplevel) (parse_sampler_servers read (SECONDARY_CONFIG_PATH toplevel))
         | parsed \<Rightarrow> report (CONFIG_PATH toplevel) parsed)"

text \<open>\<open>connect\<close> gives the stub of a server that answers in time.\<close>

definition get_sampler_servers ::
    "bool \<Rightarrow> string \<Rightarrow> (string \<Rightarrow> config result) \<Rightarrow> (string \<Rightarrow> string \<Rightarrow> 'stub option) \<Rightarrow> 'stub option
      \<Rightarrow> ('stub list \<times> bool) result" where
  "get_sampler_servers in_pytest toplevel read connect local_stub =
     (let local = (case local_stub of None \<Rightarrow> [] | Some stub \<Rightarrow> [stub]) in
      if in_pytest then Inr (local, True)
      else
        bind_result (parse_sampler_servers read (CONFIG_PATH toplevel)) (\<lambda>(servers1, use_local1, inline_eval1).
        bind_result (if servers1 = [] then parse_sampler_servers read (SECONDARY_CONFIG_PATH toplevel)
            else Inr (servers1, use_local1, inline_eval1)) (\<lambda>(servers, use_local, inline_eval).
          Inr (foldl (\<lambda>ret (nm, connection_string).
                 case connect nm connection_string of None \<Rightarrow> ret | Some stub \<Rightarrow> ret @ [stub])
               (if use_local then local else []) servers, inline_eval))))"

subsection \<open>Which samplers there are\<close>

definition server_names :: "string list \<Rightarrow> string list" where
  "server_names hosts = filter (\<lambda>h. h \<noteq> ''DEFAULT'' \<and> h \<noteq> ''local_sampler_executor'') hosts"

lemma server_names_simps [simp]:
  "server_names [] = []"
  "server_names (h # hs) = (if h = ''DEFAULT'' \<or> h = ''local_sampler_executor'' then server_names hs else h # server_names hs)"
  by (simp_all add: server_names_def)

definition server_sections :: "config \<Rightarrow> string list" where
  "server_sections config = server_names (map fst (config_sections config))"

definition endpoint :: "config \<Rightarrow> string \<Rightarrow> string" where
  "endpoint config host =
     (case config_lookup config host ''hostname'' of None \<Rightarrow> host | Some h \<Rightarrow> h) @ '':'' @ the (config_lookup config host ''port'')"

lemma read_hosts_eq:
  "read_hosts config hosts ret =
     (if \<forall>h \<in> set (server_names hosts). config_lookup config h ''port'' \<noteq> None
      then Inr (ret @ map (\<lambda>h. (h, endpoint config h)) (server_names hosts)) else Inl ConfigError)"
proof (induction config hosts ret rule: read_hosts.induct)
  case (2 config host hosts ret)
  show ?case
  proof (cases "host = ''DEFAULT'' \<or> host = ''local_sampler_executor''")
    case True
    then show ?thesis
      using 2(1,2) by auto
  next
    case False
    obtain hostname where h: "config_get config host ''hostname'' (Some host) = Inr hostname"
      "hostname = (case config_lookup config host ''hostname'' of None \<Rightarrow> host | Some h \<Rightarrow> h)"
      by (auto simp: config_get_def split: option.splits)
    show ?thesis
    proof (cases "config_lookup config host ''port''")
      case None
      then show ?thesis
        using False h by (simp add: config_get_def)
    next
      case (Some port)
      then have p: "config_get config host ''port'' None = Inr port"
        by (simp add: config_get_def)
      have "read_hosts config (host # hosts) ret = read_hosts config hosts (ret @ [(host, endpoint config host)])"
        using False h(1) p Some by (simp add: endpoint_def flip: h(2))
      then show ?thesis
        using 2(3) [of hostname port] False Some by (simp add: endpoint_def flip: h(2))
    qed
  qed
qed simp

lemma parse_sampler_servers_Inr:
  assumes "parse_sampler_servers read path = Inr (servers, use_local, inline_eval)" "read path = Inr config"
  shows "servers = map (\<lambda>h. (h, endpoint config h)) (server_sections config)"
    and "\<forall>h \<in> set (server_sections config). config_lookup config h ''port'' \<noteq> None"
  using assms unfolding parse_sampler_servers_def
  by (auto simp: bind_result_eq_Inr_iff read_hosts_eq server_sections_def split: if_splits)

lemma connected_stubs:
  "foldl (\<lambda>ret (nm, conn). case connect nm conn of None \<Rightarrow> ret | Some stub \<Rightarrow> ret @ [stub]) ret servers =
     ret @ List.map_filter (\<lambda>(nm, conn). connect nm conn) servers"
  by (induction servers arbitrary: ret) (auto simp: List.map_filter_simps split: option.splits)

lemma sampler_servers_of_config:
  assumes get: "get_sampler_servers False toplevel read connect local_stub = Inr (stubs, inline_eval)"
    and c1: "read (CONFIG_PATH toplevel) = Inr c1" and c2: "read (SECONDARY_CONFIG_PATH toplevel) = Inr c2"
    and c: "c = (if server_sections c1 = [] then c2 else c1)"
  shows "\<exists>use_local.
    config_getboolean c ''local_sampler_executor'' ''local_parallelism'' True = Inr use_local \<and>
    config_getboolean c ''local_sampler_executor'' ''inline_evaluation'' True = Inr inline_eval \<and>
    stubs = (case local_stub of Some stub \<Rightarrow> if use_local then [stub] else [] | None \<Rightarrow> []) @
      List.map_filter (\<lambda>h. connect h (endpoint c h)) (server_sections c)"
proof -
  obtain servers1 u1 i1 where p1: "parse_sampler_servers read (CONFIG_PATH toplevel) = Inr (servers1, u1, i1)"
    using get by (auto simp: get_sampler_servers_def Let_def bind_result_eq_Inr_iff)
  obtain servers use_local where p: "parse_sampler_servers read
      (if servers1 = [] then SECONDARY_CONFIG_PATH toplevel else CONFIG_PATH toplevel) = Inr (servers, use_local, inline_eval)"
    and stubs: "stubs = (case local_stub of Some stub \<Rightarrow> if use_local then [stub] else [] | None \<Rightarrow> []) @
      List.map_filter (\<lambda>(nm, conn). connect nm conn) servers"
    using get p1
    by (auto simp: get_sampler_servers_def Let_def bind_result_eq_Inr_iff connected_stubs split: if_splits option.splits)
  have "servers1 = [] \<longleftrightarrow> server_sections c1 = []"
    using parse_sampler_servers_Inr(1) [OF p1 c1] by simp
  then have read: "read (if servers1 = [] then SECONDARY_CONFIG_PATH toplevel else CONFIG_PATH toplevel) = Inr c"
    using c c1 c2 by simp
  have "servers = map (\<lambda>h. (h, endpoint c h)) (server_sections c)"
    by (rule parse_sampler_servers_Inr(1) [OF p read])
  then have "List.map_filter (\<lambda>(nm, conn). connect nm conn) servers =
      List.map_filter (\<lambda>h. connect h (endpoint c h)) (server_sections c)"
    by (simp add: List.map_filter_def filter_map comp_def)
  moreover have "config_getboolean c ''local_sampler_executor'' ''local_parallelism'' True = Inr use_local"
    "config_getboolean c ''local_sampler_executor'' ''inline_evaluation'' True = Inr inline_eval"
    using p read by (auto simp: parse_sampler_servers_def bind_result_eq_Inr_iff)
  ultimately show ?thesis
    using stubs by blast
qed

text \<open>What is printed at import agrees with the servers that are tried later.\<close>

lemma printed_servers:
  assumes "get_sampler_servers False toplevel read connect local_stub = Inr (stubs, inline_eval)"
    and c1: "read (CONFIG_PATH toplevel) = Inr c1" and c2: "read (SECONDARY_CONFIG_PATH toplevel) = Inr c2"
  shows "print_sampler_servers show_error toplevel read =
    [if server_sections c1 = [] then found_servers (server_sections c2) (SECONDARY_CONFIG_PATH toplevel)
     else found_servers (server_sections c1) (CONFIG_PATH toplevel)]"
proof -
  obtain servers1 u1 i1 where p1: "parse_sampler_servers read (CONFIG_PATH toplevel) = Inr (servers1, u1, i1)"
    using assms(1) by (auto simp: get_sampler_servers_def Let_def bind_result_eq_Inr_iff)
  have s1: "servers1 = map (\<lambda>h. (h, endpoint c1 h)) (server_sections c1)"
    by (rule parse_sampler_servers_Inr(1) [OF p1 c1])
  show ?thesis
  proof (cases "server_sections c1 = []")
    case True
    then obtain servers u i where p: "parse_sampler_servers read (SECONDARY_CONFIG_PATH toplevel) = Inr (servers, u, i)"
      using assms(1) p1 s1 by (auto simp: get_sampler_servers_def Let_def bind_result_eq_Inr_iff)
    have "servers = map (\<lambda>h. (h, endpoint c2 h)) (server_sections c2)"
      by (rule parse_sampler_servers_Inr(1) [OF p c2])
    then show ?thesis
      using True s1 p1 p by (simp add: print_sampler_servers_def found_servers_def)
  next
    case False
    then have "servers1 \<noteq> []" "length servers1 = length (server_sections c1)"
      using s1 by simp_all
    then show ?thesis
      using False p1 by (cases servers1) (simp_all add: print_sampler_servers_def found_servers_def)
  qed
qed

subsection \<open>A sampler's limits\<close>

definition MAX_CONCURRENT_REQUESTS :: int where "MAX_CONCURRENT_REQUESTS = 32"

record server_setup =
  max_workers :: int
  maximum_concurrent_rpcs :: int
  actual_port :: int

definition setup_server :: "int option \<Rightarrow> (string \<Rightarrow> int) \<Rightarrow> int option \<Rightarrow> server_setup result" where
  "setup_server cpu_count add_secure_port port =
     (case cpu_count of
        None \<Rightarrow> Inl TypeError
      | Some n \<Rightarrow>
          let num_requests = min (2 * n) MAX_CONCURRENT_REQUESTS;
              listening_address = (case port of None \<Rightarrow> ''localhost:0'' | Some p \<Rightarrow> ''localhost:'' @ show_int p);
              actual = add_secure_port listening_address
          in if actual = 0 then Inl PlainException
             else Inr \<lparr>max_workers = 2 * num_requests, maximum_concurrent_rpcs = num_requests, actual_port = actual\<rparr>)"

text \<open>Every request that is let in has two threads, and no server is set up without a port.\<close>

lemma setup_server_limits:
  assumes "setup_server cpu_count add_secure_port port = Inr s" "\<And>n. cpu_count = Some n \<Longrightarrow> 0 < n"
  shows "max_workers s = 2 * maximum_concurrent_rpcs s" "0 < maximum_concurrent_rpcs s"
    and "maximum_concurrent_rpcs s \<le> MAX_CONCURRENT_REQUESTS" "actual_port s \<noteq> 0"
  using assms by (auto simp: setup_server_def Let_def MAX_CONCURRENT_REQUESTS_def split: option.splits if_splits)

end
