(* ===== verification/Spec2Isabelle.thy ===== *)
theory Spec2Isabelle
  imports Hash_Collisions Sequential Coordinator Buffered Examples Bench_Counts Client
begin

text \<open>
  Verification of UMASH's reference implementation and of the Python statistics around it.

  The repository holds a hash function, UMASH, in C with a reference implementation in Python
  (\<open>umash_reference.py\<close>), and Python programs that test and compare implementations: a
  sequential test of proportions (\<open>t/csm.py\<close>), an exact permutation test
  (\<open>t/exact_test.py\<close>) fed by a parallel, possibly remote, sampler
  (\<open>t/exact_test_sampler.py\<close> and its client and server), and benchmarks that compare two
  versions of the C library on traces (\<open>t/umash_bench.py\<close> with \<open>t/umash_traces.py\<close>,
  \<open>t/bench_loader.py\<close>, \<open>t/cffi_util.py\<close>). The development models the Python, translated
  definition by definition; names are those of the source.

  Conventions. Python integers are \<open>int\<close> (\<open>nat\<close> for lengths), floats are 64-bit words with
  their IEEE arithmetic written out, bytes to hash are \<open>8 word list\<close>, text is \<open>string\<close>. What may
  raise returns \<open>py_error + 'a\<close>; what may also not return is an option of that. A generator is a
  value of \<open>'a gen\<close> (theory \<open>Prelude\<close>), so laziness and the point at which an exception surfaces
  are part of the model; a generator that its consumer feeds, and threads, are step relations.

  The theories, in dependency order, and what their lemmas show:

  \<^item> \<open>Prelude\<close>: errors, results, generators, sequence access, little-endian decoding, bit
    operations. \<open>Permutations\<close>: the contract of reversible steps on 64-bit words, as locales.
  \<^item> \<open>Gfmul\<close>: \<open>gfmul\<close>; commutative, bilinear, 127 bits, no zero divisors.
  \<^item> \<open>Keys\<close>: \<open>UmashKey\<close>, \<open>is_acceptable_multiplier\<close>, \<open>generate_key\<close> (the random source is
    a parameter); the key returned is strong, and the rejection loops return if the source
    leaves every avoidable set.
  \<^item> \<open>Short_Hash\<close>: \<open>vec_to_u64\<close>, \<open>umash_short\<close>; injective at each size, uniform in the key.
  \<^item> \<open>Chunking\<close>: \<open>chunk_bytes\<close>, \<open>blockify_chunks\<close>; no assertion fires, shapes and sizes, and
    the input can be recovered from its blocks.
  \<^item> \<open>OH\<close>: \<open>oh_mix_one_block\<close>, \<open>shuffle\<close>, \<open>oh_compress_one_block\<close>, \<open>oh_compress\<close>; closed
    forms of both compressors.
  \<^item> \<open>Mersenne\<close>: \<open>2 ** 61 - 1\<close> is prime, by Pocklington's criterion. \<open>Poly\<close>: \<open>poly_reduce\<close>;
    its assertion holds, it is Horner evaluation of the documented polynomial, and a bound on
    colliding multipliers from a root bound proved in a locale. \<open>Finalize\<close>: \<open>rotl\<close>,
    \<open>finalize\<close> and the inverse its test uses.
  \<^item> \<open>Umash\<close>: \<open>umash_long\<close>, \<open>umash\<close>: the composition.
  \<^item> \<open>Counting\<close>, \<open>Mixers\<close>, \<open>Shufflers\<close>, \<open>Collisions\<close>, \<open>Compression\<close>, \<open>Universality\<close>: how many
    keys let two blocks, two compressed streams or two short inputs collide, in one hash or in
    both.
  \<^item> \<open>Truncation\<close>, \<open>Truncated\<close>, \<open>Tag_Agreement\<close>, \<open>Hash_Collisions\<close>: the same after the halves are
    reduced modulo \<open>2 ** 61 - 1\<close>, and the bound on collisions of whole hashes over a random
    multiplier and key. It counts the exclusive ors of values that agree there, of which there are
    at most \<open>2 ** 24\<close>; the commentary of \<open>umash_reference.py\<close> estimates \<open>2 ** -56\<close> where
    \<open>2 ** -39\<close> is proved. Blocks that differ only in the chunk that \<open>ENH\<close> mixes are covered for the
    secondary hash, by its checksum, and not for the primary one.
  \<^item> \<open>Doubles\<close>, \<open>Ulp\<close>, \<open>Rounding\<close>: floats, \<open>float_bits\<close> and its relatives, one-ulp bounds,
    exactness of Dekker's two-sum. \<open>Csm_Sum\<close>: \<open>sum_up\<close> returns an upper bound.
  \<^item> \<open>Csm\<close>, \<open>Beta\<close>, \<open>Csm_Driver\<close>: \<open>robbins_log_choose\<close>, \<open>csm\<close>, \<open>_incbeta\<close>, \<open>beta_icdf\<close>,
    \<open>csm_driver\<close>, \<open>csm_power\<close>. \<open>Bisection\<close>: the bisection of \<open>beta_icdf\<close> ends, with certified
    bounds. \<open>Sequential\<close>: the driver returns, and stops at the first prefix its rules name.
  \<^item> \<open>Results\<close>: the worker of the pool and the transport of its batches; nothing is lost.
    \<open>Coordinator\<close>: the global pool, and \<open>_generate_in_parallel\<close> against a stream of observations of the pool and
    the clock. \<open>Service\<close>: \<open>ExactTestSampler\<close> as interleaved steps of its threads; workers
    read what a prefix of the requests leaves. \<open>Buffered\<close>: \<open>BufferedIterator\<close> likewise, with
    the lost wake-up.
  \<^item> \<open>Sampler_Data\<close>: \<open>Sample\<close>, \<open>Statistic\<close>, plans, \<open>actual_data_results\<close> and
    \<open>_resampled_data_results_1\<close>. \<open>Exact_Test\<close>, \<open>Exact_Soundness\<close>: the significance test, its
    loop as a step on a state, and the invariant of that state.
  \<^item> \<open>Resampling\<close>: the generator \<open>resampled_data_results\<close> as a step relation, composed with the
    test (its consumer, which puts plans in its queue) and with samplers that answer requests.
  \<^item> \<open>Regexp\<close>: the patterns of the scripts, with backtracking; a match is found exactly when the
    text can be split. \<open>Traces\<close>: the cache of traces and the decoding of calls. \<open>Headers\<close>:
    stripped headers, the version of a build, the loaders and the symbols of a library. \<open>Bench\<close>, \<open>Bench_Counts\<close>:
    \<open>compare_inputs\<close> and what it records. \<open>Client\<close>: the configuration of samplers, what is
    printed of it at import, and the limits of a server.
  \<^item> \<open>Examples\<close>: concrete parameters and runs for the witnesses.

  Parameters of the model: the C mathematics library and the NaN of invalid operations
  (\<open>platform\<close>), the random source and \<open>random.shuffle\<close>, the clock, the process pool, \<open>pickle\<close>, the
  C libraries \<open>exact.so\<close> and the benchmark runners, the network, \<open>bz2\<close>, \<open>configparser\<close>'s reading
  of a file, and gRPC. The hypotheses on them are named or stated in the property
  (\<open>bits_in_range\<close>, \<open>escapes\<close>, \<open>quiet_nans\<close>, that \<open>loads\<close> inverts \<open>dumps\<close>, that a shuffle permutes)
  and have instances below.

  Bounds and fuel: no definition uses invented fuel. \<open>worker_loop\<close> and \<open>incbeta_loop\<close> count down
  the code's own limits; the rejection loops, the bisection and the drivers are partial functions
  whose \<open>None\<close> is a call that does not return.

  Not modelled: the C implementation and C benchmarks, which the Python only calls; gRPC
  connections, subprocesses and the opening of shared objects, which are input and output;
  \<open>ExactTestSampler.status\<close>, which returns an empty message; imports, the stand-ins for missing
  ones, the processes of the pool, command lines, the text printed by the tests and the log of
  connections; the tests other than the inverse finalizer. The other statements of the modelled
  files are translated, with these simplifications:

  \<^item> Two NaNs given as probabilities are one key of a plan when they have the same bits
    (\<open>plan_append\<close>); in Python they are one key when they are one object.
  \<^item> A message of parameters unpickles to a plan (\<open>update_request\<close>), never to \<open>None\<close>, which no
    client sends.
  \<^item> Emptying its queue, the reader of a \<open>BufferedIterator\<close> may take any number of items
    (\<open>buffered_step\<close>); the code takes at most as many as it has threads before each join.
  \<^item> A sampler may end its batches at any time (\<open>resampling_step\<close>), and its batches are any that
    answer a request it was sent (\<open>answers\<close>): that covers the sampler modelled in \<open>Service\<close> and
    servers that fail or are stopped.
  \<^item> The output of the build script is text (\<open>build_and_load\<close>): the code decodes and prints it
    before it looks for the version, and what is cut out of valid UTF-8 between ASCII characters
    decodes. A version in a replacement has no backslash (\<open>BENCH_REPLACEMENTS\<close>), which \<open>re.sub\<close> would
    read as an escape.
\<close>

subsection \<open>A concrete key and inputs for the witnesses\<close>

definition sample_key :: umash_key where
  "sample_key = \<lparr>poly = 2, oh = map int [0..<34]\<rparr>"

lemma sample_key_usable: "usable_key sample_key"
  by (simp add: sample_key_def usable_key_def BLOCK_SIZE_def TWISTING_COUNT_def u64_def W_def upt_rec)

section \<open>The hash function\<close>

text \<open>
  C1: with a key of the documented shape, \<open>umash\<close> never raises: for every seed (any Python
  integer), every input and both values of \<open>secondary\<close> it returns a 64-bit word.
\<close>

theorem umash_total:
  assumes "usable_key key"
  shows "\<exists>h. umash key seed buf secondary = Inr h \<and> u64 h"
  using assms by (rule umash_returns_u64)

theorem umash_total_witness:
  "\<exists>h. umash sample_key (-5) (replicate 300 7) True = Inr h \<and> u64 h"
  by (rule umash_total [OF sample_key_usable])

text \<open>
  C2: the pipeline of generators refines the mathematical definition of the long hash. On
  more than eight bytes \<open>umash\<close> is the finalizer of an accumulator that is congruent, modulo
  \<open>2 ** 61 - 1\<close>, to the polynomial \<open>\<Sum> y_j * f ^ (1 + d - j)\<close> of the 64-bit halves of the
  \<open>OH\<close> values of the blocks, and none of the assertions on the way fires.
\<close>

theorem umash_refines_polynomial:
  assumes "usable_key key" and "8 < length buf"
  shows "\<exists>acc. umash key seed buf secondary = Inr (finalize acc) \<and> 0 \<le> acc \<and> acc < W - 8 \<and>
    acc mod M61 = cw_polynomial (poly key)
      (word_halves (map (oh_value (oh key) seed secondary) (block_list buf)))"
proof (intro exI conjI)
  show "umash key seed buf secondary =
      Inr (finalize (poly_acc (poly key) 0 (oh_values key seed buf secondary)))"
    using umash_long_blocks [of buf key] usable_key_length [OF assms(1)] assms(2)
    by (simp add: umash_long_case)
qed (use poly_acc_range [of 0] W8_pos poly_acc_cw in \<open>auto simp: oh_values_def\<close>)

theorem umash_refines_polynomial_witness:
  "\<exists>acc. umash sample_key 3 (replicate 20 1) False = Inr (finalize acc) \<and>
    0 \<le> acc \<and> acc < W - 8 \<and>
    acc mod M61 = cw_polynomial (poly sample_key)
      (word_halves (map (oh_value (oh sample_key) 3 False) (block_list (replicate 20 1))))"
  by (rule umash_refines_polynomial [OF sample_key_usable]) simp


text \<open>
  C4: for a fixed \<open>OH\<close> key and seed, two inputs of more than eight bytes whose compressed
  blocks are distinguishable modulo \<open>2 ** 61 - 1\<close> collide for at most \<open>2 * d - 1\<close> of the
  acceptable multipliers, where \<open>d\<close> is the number of 256-byte blocks of the longer input. No
  collision comes from the finalizer or from the representatives modulo \<open>W - 8\<close>.
\<close>

theorem umash_colliding_multipliers:
  assumes "8 < length xs" "8 < length ys" "length ohs = 34"
    and "distinguishable (map (oh_value ohs seed secondary) (block_list xs))
      (map (oh_value ohs seed secondary) (block_list ys))"
  shows "card {m. is_acceptable_multiplier m \<and>
      umash \<lparr>poly = m, oh = ohs\<rparr> seed xs secondary = umash \<lparr>poly = m, oh = ohs\<rparr> seed ys secondary}
    \<le> 2 * ((max (length xs) (length ys) + 255) div 256) - 1"
  unfolding umash_long_case [OF assms(1)] umash_long_case [OF assms(2)]
  using assms by (intro umash_long_multipliers) simp_all

lemma sample_blocks_distinguishable:
  "distinguishable (map (oh_value (map int [0..<34]) 0 False) (block_list (replicate 16 0)))
    (map (oh_value (map int [0..<34]) 0 False) (block_list (replicate 16 1)))"
  by code_simp

theorem umash_colliding_multipliers_witness:
  "card {m. is_acceptable_multiplier m \<and>
      umash \<lparr>poly = m, oh = map int [0..<34]\<rparr> 0 (replicate 16 0) False =
      umash \<lparr>poly = m, oh = map int [0..<34]\<rparr> 0 (replicate 16 1) False} \<le> 1"
  using umash_colliding_multipliers
    [of "replicate 16 0" "replicate 16 1", OF _ _ _ sample_blocks_distinguishable] by simp

text \<open>
  C5: collisions of the block compressors. For two different blocks of at most sixteen 16-byte
  chunks, or one block under two tags, each compressor collides for at most a \<open>2 ** -63\<close> fraction
  of the keys of 34 words, and both collide at once for at most a \<open>2 ** -99\<close> fraction.
\<close>

theorem oh_block_collisions:
  assumes "block_ok x" "block_ok y" "x \<noteq> y \<or> tags_differ t t'"
  shows "card {ks \<in> keys 34. oh_compress_one_block ks x t secondary = oh_compress_one_block ks y t' secondary}
      \<le> 2 ^ (64 * 34 - 63) \<and>
    card {ks \<in> keys 34. oh_compress_one_block ks x t False = oh_compress_one_block ks y t' False \<and>
      oh_compress_one_block ks x t True = oh_compress_one_block ks y t' True} \<le> 2 ^ (64 * 34 - 99)"
proof -
  have at: "oh_compress_one_block ks z s False = Inr (primary_at ks s z)"
    "oh_compress_one_block ks z s True = Inr (secondary_at ks s z)" if "ks \<in> keys 34" "block_ok z" for ks z s
    using that oh_compress_primary [of z ks s] oh_compress_secondary [of z ks s]
      oh_primary_at [OF that] oh_secondary_at [OF that] by (auto simp: block_ok_def keys_def)
  have r63: "rare 34 63 (\<lambda>ks. oh_compress_one_block ks x t secondary = oh_compress_one_block ks y t' secondary)"
  proof (cases secondary)
    case True
    show ?thesis
      by (rule rare_mono [OF secondary_collisions [OF assms]]) (simp_all add: True at assms(1,2))
  next
    case False
    show ?thesis
      by (rule rare_mono [OF primary_collisions [OF assms]]) (simp_all add: False at assms(1,2))
  qed
  have r99: "rare 34 99 (\<lambda>ks. oh_compress_one_block ks x t False = oh_compress_one_block ks y t' False \<and>
      oh_compress_one_block ks x t True = oh_compress_one_block ks y t' True)"
    by (rule rare_mono [OF both_collisions [OF assms]]) (simp_all add: at assms(1,2))
  show ?thesis
    by (intro conjI rare_count r63 r99) simp_all
qed

theorem oh_block_collisions_witness:
  "card {ks \<in> keys 34. oh_compress_one_block ks [replicate 16 0] 5 False =
      oh_compress_one_block ks [replicate 16 1, replicate 16 0] 5 False \<and>
    oh_compress_one_block ks [replicate 16 0] 5 True =
      oh_compress_one_block ks [replicate 16 1, replicate 16 0] 5 True} \<le> 2 ^ (64 * 34 - 99)"
  using oh_block_collisions [of "[replicate 16 0]" "[replicate 16 1, replicate 16 0]"]
  by (simp add: block_ok_def)

definition oh_stream :: "int list \<Rightarrow> int \<Rightarrow> bytes \<Rightarrow> bool \<Rightarrow> int gen" where
  "oh_stream ks seed buf secondary = oh_compress ks seed (blockify_chunks (chunk_bytes buf)) secondary"

definition keyed_hash :: "int \<Rightarrow> int list \<Rightarrow> int \<Rightarrow> bytes \<Rightarrow> bool \<Rightarrow> int result" where
  "keyed_hash m ks seed buf secondary = umash \<lparr>poly = m, oh = ks\<rparr> seed buf secondary"

text \<open>
  C6: collisions of the compressed inputs. For two different inputs of more than eight bytes, of
  any sizes, and every seed, the streams of compressed values that enter the polynomial hash are
  equal for at most a \<open>2 ** -63\<close> fraction of the keys, in the primary as in the secondary hash,
  and for both hashes at once for at most a \<open>2 ** -99\<close> fraction.
\<close>

theorem compressed_input_collisions:
  assumes "8 < length xs" "8 < length ys" "xs \<noteq> ys"
  shows "card {ks \<in> keys 34. oh_stream ks seed xs secondary = oh_stream ks seed ys secondary}
      \<le> 2 ^ (64 * 34 - 63) \<and>
    card {ks \<in> keys 34. oh_stream ks seed xs False = oh_stream ks seed ys False \<and>
      oh_stream ks seed xs True = oh_stream ks seed ys True} \<le> 2 ^ (64 * 34 - 99)"
proof -
  have len: "8 \<le> length xs" "8 \<le> length ys"
    using assms(1,2) by simp_all
  have at: "oh_stream ks seed buf sec = gen_of_list (compressed ks seed buf sec)"
    if "ks \<in> keys 34" "8 \<le> length buf" for ks buf sec
    using oh_compress_compressed [OF that] by (simp add: oh_stream_def)
  have r63: "rare 34 63 (\<lambda>ks. oh_stream ks seed xs secondary = oh_stream ks seed ys secondary)"
    by (rule rare_mono [OF compressed_collisions(1) [OF len assms(3)]])
      (simp_all add: at len gen_of_list_eq_iff)
  have r99: "rare 34 99 (\<lambda>ks. oh_stream ks seed xs False = oh_stream ks seed ys False \<and>
      oh_stream ks seed xs True = oh_stream ks seed ys True)"
    by (rule rare_mono [OF compressed_collisions(2) [OF len assms(3)]])
      (simp_all add: at len gen_of_list_eq_iff)
  show ?thesis
    by (intro conjI rare_count r63 r99) simp_all
qed

lemma replicate_different: "m \<noteq> n \<Longrightarrow> replicate m x \<noteq> replicate n x"
  by (metis length_replicate)

theorem compressed_input_collisions_witness:
  "card {ks \<in> keys 34. oh_stream ks 7 (replicate 300 0) False = oh_stream ks 7 (replicate 301 0) False}
    \<le> 2 ^ (64 * 34 - 63)"
proof -
  have "replicate 300 0 \<noteq> (replicate 301 0 :: bytes)"
    by (rule replicate_different) simp
  then show ?thesis
    using compressed_input_collisions [of "replicate 300 0" "replicate 301 0"] by simp
qed

text \<open>
  C3: collisions of whole hashes. For every seed and any two different inputs, of any sizes, the
  secondary hash collides for at most a \<open>2 ** -39 + 2 * d / (2 ** 61 - 3)\<close> fraction of the choices
  of an acceptable multiplier and 34 \<open>OH\<close> words, where \<open>d\<close> is the number of 256-byte blocks of the
  longer input. So does the primary hash, except for two inputs of more than eight bytes whose
  blocks have equal chunks but for the last chunk of each, the one \<open>ENH\<close> mixes, and where some last
  chunks differ, such as two inputs of 9 to 16 bytes: for these nothing is claimed (\<open>ph_apart\<close> does
  not hold). One input may be short and the other long.
\<close>

theorem umash_collision_bound:
  assumes "xs \<noteq> ys" "secondary \<or> ph_apart xs ys"
  shows "card {(m, ks). is_acceptable_multiplier m \<and> ks \<in> keys 34 \<and>
      keyed_hash m ks seed xs secondary = keyed_hash m ks seed ys secondary}
    \<le> (2 ^ 61 - 3) * 2 ^ (64 * 34 - 39) +
      2 * ((max (length xs) (length ys) + 255) div 256) * 2 ^ (64 * 34)"
  unfolding keyed_hash_def by (rule hash_collisions [OF assms])

lemma sample_inputs_apart: "ph_apart (replicate 20 0) (replicate 20 1)"
  by code_simp

theorem umash_collision_bound_witness:
  "card {(m, ks). is_acceptable_multiplier m \<and> ks \<in> keys 34 \<and>
      keyed_hash m ks 5 (replicate 20 0) False = keyed_hash m ks 5 (replicate 20 1) False}
    \<le> (2 ^ 61 - 3) * 2 ^ (64 * 34 - 39) + 2 * 2 ^ (64 * 34)"
proof -
  have "replicate 20 0 \<noteq> (replicate 20 1 :: bytes)"
    by (simp add: numeral_eq_Suc)
  from umash_collision_bound [OF this, of False 5] sample_inputs_apart show ?thesis
    by simp
qed

text \<open>
  C7: short inputs of different sizes. For every seed and multiplier the hashes of two inputs of
  at most eight bytes and of different sizes agree for at most a \<open>2 ** -64\<close> fraction of the keys,
  and the primary and the secondary hash both agree for at most a \<open>2 ** -128\<close> fraction.
\<close>

theorem umash_short_sizes_collisions:
  assumes "length xs < length ys" "length ys \<le> 8"
  shows "card {ks \<in> keys 34. keyed_hash m ks seed xs secondary = keyed_hash m ks seed ys secondary}
      \<le> 2 ^ (64 * 34 - 64) \<and>
    card {ks \<in> keys 34. keyed_hash m ks seed xs False = keyed_hash m ks seed ys False \<and>
      keyed_hash m ks seed xs True = keyed_hash m ks seed ys True} \<le> 2 ^ (64 * 34 - 128)"
  using umash_short_sizes [OF assms, THEN rare_count, of m seed] unfolding keyed_hash_def by simp

theorem umash_short_sizes_collisions_witness:
  "card {ks \<in> keys 34. keyed_hash 2 ks 0 [0] False = keyed_hash 2 ks 0 [0, 0] False \<and>
     keyed_hash 2 ks 0 [0] True = keyed_hash 2 ks 0 [0, 0] True} \<le> 2 ^ (64 * 34 - 128)"
  using umash_short_sizes_collisions [of "[0]" "[0, 0]"] by simp

text \<open>
  C8: inputs of the same size, at most eight bytes, never collide, whatever the key and seed.
\<close>

theorem umash_short_inputs_injective:
  assumes "usable_key key" "length xs = length ys" "length xs \<le> 8"
  shows "umash key seed xs secondary = umash key seed ys secondary \<longleftrightarrow> xs = ys"
  unfolding umash_short_case [OF assms(3)] umash_short_case [OF assms(3) [unfolded assms(2)]]
  using assms usable_key_length [OF assms(1)] by (intro umash_short_same_size) auto

theorem umash_short_inputs_injective_witness:
  "umash sample_key 1 [1, 2, 3] False \<noteq> umash sample_key 1 [1, 2, 4] False"
  by (simp add: umash_short_inputs_injective [OF sample_key_usable])

text \<open>
  C22: a short hash is uniform in its key word: for every seed, input and 64-bit value there is
  exactly one value of the word \<open>oh[len]\<close> (\<open>oh[4 + len]\<close> for the secondary hash) that produces it.
\<close>

theorem umash_short_uniform:
  assumes "usable_key key" "length buf \<le> 8" "u64 h"
  shows "\<exists>!k. u64 k \<and>
    umash (key\<lparr>oh := (oh key)[length buf + (if secondary then 4 else 0) := k]\<rparr>) seed buf secondary = Inr h"
proof -
  let ?d = "if secondary then 4 else 0"
  have "drop ?d ((oh key)[length buf + ?d := k]) = (drop ?d (oh key))[length buf := k]" for k
    by (simp add: drop_update_swap)
  then have eq: "umash (key\<lparr>oh := (oh key)[length buf + ?d := k]\<rparr>) seed buf secondary =
      umash_short ((drop ?d (oh key))[length buf := k]) seed buf" for k
    by (simp add: umash_short_case [OF assms(2)])
  show ?thesis
    unfolding eq using assms usable_key_length [OF assms(1)] by (intro umash_short_reaches) auto
qed

theorem umash_short_uniform_witness:
  "\<exists>!k. u64 k \<and> umash (sample_key\<lparr>oh := (oh sample_key)[6 := k]\<rparr>) 7 [9, 9] True = Inr 12345"
  using umash_short_uniform [OF sample_key_usable, of "[9, 9]" 12345 True 7]
  by (simp add: u64_def W_def)

text \<open>
  C20: the finalizer is a bijection of the 64-bit words and \<open>xor_rot2_inv\<close>, the inverse used by
  the tests, undoes it on both sides.
\<close>

theorem finalize_bijection:
  "bij_betw finalize {x. u64 x} {x. u64 x} \<and>
   (\<forall>x. u64 x \<longrightarrow> xor_rot2_inv (finalize x) = x \<and> finalize (xor_rot2_inv x) = x)"
proof
  show "bij_betw finalize {x. u64 x} {x. u64 x}"
    by (rule bij_betw_byWitness [where f' = xor_rot2_inv])
      (auto simp: finalizer.bwd_fwd finalizer.fwd_bwd intro: finalizer.fwd_closed finalizer.bwd_closed)
qed (simp add: finalizer.bwd_fwd finalizer.fwd_bwd)

theorem finalize_bijection_witness: "xor_rot2_inv (finalize 77) = 77 \<and> finalize (xor_rot2_inv 77) = 77"
  using finalize_bijection by (simp add: u64_def W_def)

text \<open>
  C16: splitting into chunks and grouping into blocks loses nothing and asserts nothing: on at
  least eight bytes the generators end normally, every block but the last is sixteen chunks
  of 16 bytes, the sizes add up, and the bytes of the input can be read back off the blocks.
\<close>

theorem blocks_round_trip:
  assumes "8 \<le> length buf"
  shows "\<exists>bs. drain (blockify_chunks (chunk_bytes buf)) = Inr bs \<and> recover bs = buf \<and>
    length bs = (length buf + 255) div 256 \<and> sum_list (map snd bs) = length buf \<and>
    (\<forall>(cs, s) \<in> set bs. \<forall>c \<in> set cs. length c = CHUNK_SIZE) \<and>
    (\<forall>(cs, s) \<in> set (butlast bs). length cs = BLOCK_SIZE \<and> s = CHUNK_SIZE * BLOCK_SIZE)"
proof (intro exI conjI)
  show "drain (blockify_chunks (chunk_bytes buf)) = Inr (block_list buf)"
    by (simp add: blockify_chunks_list [OF assms])
  show "\<forall>(cs, s) \<in> set (block_list buf). \<forall>c \<in> set cs. length c = CHUNK_SIZE"
    using block_chunk_lengths [OF assms] by (auto simp: CHUNK_SIZE_def)
  show "\<forall>(cs, s) \<in> set (butlast (block_list buf)). length cs = BLOCK_SIZE \<and> s = CHUNK_SIZE * BLOCK_SIZE"
    using full_blocks [OF assms] by (auto simp: CHUNK_SIZE_def BLOCK_SIZE_def)
qed (simp_all add: assms recover_blocks length_block_list sum_block_sizes)

theorem blocks_round_trip_witness:
  "\<exists>bs. drain (blockify_chunks (chunk_bytes (replicate 300 5))) = Inr bs \<and>
    recover bs = replicate 300 5 \<and> length bs = 2"
  using blocks_round_trip [of "replicate 300 5"] by auto

text \<open>
  C23: carry-less multiplication of 64-bit words is commutative and linear, its result has at
  most 127 bits, and it has no zero divisors.
\<close>

theorem gfmul_algebra:
  assumes "u64 x" "u64 y" "u64 z"
  shows "gfmul x y = gfmul y x \<and> gfmul x (y XOR z) = gfmul x y XOR gfmul x z \<and>
    0 \<le> gfmul x y \<and> gfmul x y < 2 ^ 127 \<and> (gfmul x y = 0 \<longleftrightarrow> x = 0 \<or> y = 0)"
  using assms gfmul_less [of y x] gfmul_pos [of x y] gfmul_commute [of x y]
  by (auto simp: gfmul_xor_right gfmul_nonneg)

theorem gfmul_algebra_witness: "gfmul 3 5 = gfmul 5 3 \<and> gfmul 3 (5 XOR 6) = gfmul 3 5 XOR gfmul 3 6"
  using gfmul_algebra [of 3 5 6] by (simp add: u64_def W_def)

text \<open>
  C24: the primary compressor returns the exclusive or of the mixed chunks, \<open>PH\<close> for all but the
  last and \<open>ENH\<close> for the last; the secondary one returns the mixed checksum of the chunks
  exclusive-or the shuffled mixed chunks. Neither raises on 16-byte chunks with enough key.
\<close>

theorem oh_compressors:
  assumes "\<forall>c \<in> set block. length c = CHUNK_SIZE" "2 * length block \<le> length key" "2 \<le> length key"
  shows "oh_compress_one_block key block tag False = Inr (xor_list (mix_from key tag block)) \<and>
    oh_compress_one_block key block tag True =
      Inr (checksum_mix key block XOR shuffled_sum (length block) 0 (mix_from key tag block))"
  using oh_compress_primary [of block key tag] oh_compress_secondary [of block key tag] assms
  by (simp add: oh_primary_def oh_secondary_def CHUNK_SIZE_def)

theorem oh_compressors_witness:
  "oh_compress_one_block [1, 2, 3, 4] [replicate 16 1] 0 False =
     Inr (xor_list (mix_from [1, 2, 3, 4] 0 [replicate 16 1]))"
  using oh_compressors [of "[replicate 16 1]" "[1, 2, 3, 4]" 0] by (simp add: CHUNK_SIZE_def)

text \<open>
  C17: \<open>poly_reduce\<close> never raises its assertion: the double-pumped update modulo \<open>W - 8\<close>
  computes the same value modulo \<open>2 ** 61 - 1\<close> as plain Horner evaluation over the 64-bit
  halves, from every accumulator; an exception of the stream of values is passed on.
\<close>

theorem poly_reduce_matches_horner:
  "(\<exists>acc. poly_reduce m n (gen_of_list vs) initial = Inr acc \<and>
      acc mod M61 = horner m initial (word_halves vs) mod M61) \<and>
   poly_reduce m n (foldr Yield vs (Raise e)) initial = Inl e"
  by (simp add: poly_reduce_eq poly_acc_horner poly_reduce_raise)

section \<open>Keys\<close>

text \<open>A random source for the witnesses: a counter, reduced to the number of bits asked for.\<close>

definition counter_bits :: "nat \<Rightarrow> nat \<Rightarrow> int \<times> nat" where
  "counter_bits k g = (int g mod 2 ^ k, Suc g)"

lemma counter_bits_range: "bits_in_range counter_bits"
  by (simp add: bits_in_range_def counter_bits_def)

lemma counter_bits_escapes: "escapes counter_bits"
  unfolding escapes_def
proof (intro allI impI)
  fix k g and S :: "int set"
  assume S: "finite S \<and> card S < 2 ^ k"
  have adv: "fst (counter_bits k (advance counter_bits k n g)) = int (g + n) mod 2 ^ k" for n
    by (induction n arbitrary: g) (simp_all add: counter_bits_def algebra_simps)
  let ?f = "\<lambda>n. int (g + n) mod 2 ^ k"
  have "inj_on ?f {..<2 ^ k}"
  proof (rule inj_onI)
    fix m n assume mn: "m \<in> {..<2 ^ k}" "n \<in> {..<2 ^ k}" and eq: "?f m = ?f n"
    have "(int (g + m) - int g) mod 2 ^ k = (int (g + n) - int g) mod 2 ^ k"
      using eq by (rule mod_diff_cong) simp
    moreover have "int m mod 2 ^ k = int m" "int n mod 2 ^ k = int n"
      using mn by (simp_all flip: of_nat_power)
    ultimately show "m = n" by simp
  qed
  then have "card (?f ` {..<2 ^ k}) = 2 ^ k"
    by (simp add: card_image)
  then have "\<not> ?f ` {..<2 ^ k} \<subseteq> S"
    using S card_mono [of S "?f ` {..<2 ^ k}"] by auto
  then show "\<exists>n. fst (counter_bits k (advance counter_bits k n g)) \<notin> S"
    unfolding adv by blast
qed

text \<open>
  C25: when the random source leaves every set of values that it could avoid only by never
  drawing some value, \<open>generate_key\<close> returns; the key has an acceptable multiplier and 34 distinct
  64-bit words, and the hash is total under it.
\<close>

theorem generate_key_total:
  assumes "escapes rnd" "bits_in_range rnd"
  shows "\<exists>key g'. generate_key rnd g = Some (key, g') \<and>
    is_acceptable_multiplier (poly key) \<and> length (oh key) = 34 \<and> distinct (oh key) \<and>
    (\<forall>w \<in> set (oh key). u64 w) \<and>
    (\<forall>seed buf secondary. \<exists>h. umash key seed buf secondary = Inr h \<and> u64 h)"
proof -
  obtain key g' where k: "generate_key rnd g = Some (key, g')"
    using generate_key_returns [OF assms] by blast
  then have "strong_key key"
    using generate_key_strong assms(2) by metis
  then show ?thesis
    using k umash_returns_u64 [of key] usable_key_length [of key]
    by (auto simp: strong_key_def usable_key_def)
qed

theorem generate_key_total_witness:
  "\<exists>key g'. generate_key counter_bits 0 = Some (key, g') \<and> distinct (oh key)"
  using generate_key_total [OF counter_bits_escapes counter_bits_range, of 0] by blast

section \<open>Floating point\<close>

lemma sample_platform_quiet: "quiet_nans sample_platform"
  unfolding quiet_nans_def sample_platform_def by (simp add: inf_mag_def sign_mask_def)

text \<open>
  C26: \<open>float_bits\<close> and \<open>bits_float\<close> are inverse bijections between the doubles and the integers of
  64 bits, and the numbering is the order of the doubles, with \<open>-0.0\<close> (number -1) just below \<open>0.0\<close>.
\<close>

theorem float_bits_numbering:
  "bits_float (float_bits x) = Inr x \<and>
   (\<forall>i. - (2 ^ 63) \<le> i \<and> i < 2 ^ 63 \<longrightarrow> (\<exists>y. bits_float i = Inr y \<and> float_bits y = i)) \<and>
   (\<forall>y. \<not> is_nan x \<and> \<not> is_nan y \<longrightarrow>
      (flt x y \<longleftrightarrow> float_bits x < float_bits y \<and> \<not> (float_bits x = - 1 \<and> float_bits y = 0)))"
  using bits_float_bits flt_float_bits bits_float_at float_bits_double_at
  by (auto simp: sign_mask_def)

theorem float_bits_numbering_witness:
  "bits_float (float_bits 5) = Inr 5 \<and> (\<exists>y. bits_float (- 3) = Inr y \<and> float_bits y = - 3)"
  using float_bits_numbering [of 5] by (intro conjI) simp_all

definition brackets :: "f64 \<Rightarrow> int \<Rightarrow> int \<Rightarrow> bool" where
  "brackets x p q \<longleftrightarrow> (\<exists>lo hi. prev_float x 1 = Inr lo \<and> next_float x 1 = Inr hi \<and>
     q * sval lo \<le> p \<and> p \<le> q * sval hi)"

lemma brackets_rounded: "\<lbrakk>rounds_to p q x; is_finite x\<rbrakk> \<Longrightarrow> brackets x p q"
  unfolding brackets_def using finite_next next_upper_bound prev_lower_bound by blast

text \<open>
  C27: one step along the doubles covers the rounding error of an operation: \<open>next\<close> of a finite
  rounded sum, difference or product is at least the exact result, \<open>prev\<close> of it at most.
\<close>

theorem next_prev_bound_rounding:
  assumes "is_finite x" "is_finite y"
  shows "(is_finite (fadd pf x y) \<longrightarrow> brackets (fadd pf x y) (sval x + sval y) 1) \<and>
    (is_finite (fsub pf x y) \<longrightarrow> brackets (fsub pf x y) (sval x - sval y) 1) \<and>
    (is_finite (fmul pf x y) \<longrightarrow> brackets (fmul pf x y) (sval x * sval y) unit_scale)"
  using fadd_rounds [OF assms] fsub_rounds [OF assms] fmul_rounds [OF assms]
  by (auto intro: brackets_rounded)

theorem next_prev_bound_rounding_witness: "brackets (fadd sample_platform 5 7) 12 1"
proof -
  have "is_finite 5" "is_finite 7" "is_finite (fadd sample_platform 5 7)" "sval 5 + sval 7 = 12"
    by code_simp+
  then show ?thesis
    using next_prev_bound_rounding [of 5 7 sample_platform] by simp
qed

text \<open>
  C12: \<open>sum_up\<close> returns an upper bound. On finite summands a result is never a NaN nor minus
  infinity and is at least the exact sum, whatever the rounding and compensation did.
\<close>

theorem sum_up_is_upper_bound:
  assumes "quiet_nans pf" "\<forall>v \<in> set values. is_finite v" "sum_up pf values = Inr r"
  shows "sum_list (map sval values) \<le> sval r \<and> \<not> is_nan r \<and> \<not> (is_inf r \<and> negative r)"
  using sum_up_bound [OF assms] by simp

lemma sum_up_sample: "sum_up sample_platform [5, 7, 3] = Inr 15"
  by code_simp

theorem sum_up_is_upper_bound_witness:
  "sum_list (map sval [5, 7, 3]) \<le> sval 15 \<and> \<not> is_nan 15"
  using sum_up_is_upper_bound [OF sample_platform_quiet _ sum_up_sample]
  by (simp add: is_finite_def magnitude_def inf_mag_def sign_mask_def)

text \<open>
  C14: the confidence bounds of \<open>beta_icdf\<close> are always computed. Whatever the C library does, the
  bisection ends; it gives two doubles of the unit interval, or an exception of the series. A
  lower bound is zero or a point where the series stopped below the threshold; an upper bound
  is at least one minus such a point of the mirrored distribution.
\<close>

theorem beta_icdf_terminates:
  assumes "0 < a" "a < 2 ^ 44" "0 < b" "b < 2 ^ 44" "fle f_zero alpha"
  shows "\<exists>r. beta_icdf pf a b alpha upper = Some r \<and>
    beta_bound pf a b (fmin alpha (literal 5 100)) upper r"
  using assms by (rule beta_icdf_returns)

theorem beta_icdf_terminates_witness:
  "\<exists>r. beta_icdf sample_platform 5 9 f_half True = Some r \<and>
    beta_bound sample_platform 5 9 (fmin f_half (literal 5 100)) True r"
  using f_constants(4,5) finite_not_special [OF f_constants(5)]
  by (intro beta_icdf_terminates) (simp_all add: fle_sval sval_sign)

text \<open>
  C13: a limited driver returns. With a \<open>max_count\<close>, \<open>csm_driver\<close> returns or raises on every
  stream whose items are produced, printing included.
\<close>

theorem csm_driver_terminates:
  assumes "\<And>g. pull g \<noteq> None"
  shows "csm_driver pf pull g alpha eps (Some m) min_count bound_eps file \<noteq> None"
  using assms by (rule csm_driver_limited)

theorem csm_driver_terminates_witness:
  "csm_driver sample_platform (bernoulli (\<lambda>g. (f_half, Suc g)) f_one) 0 f_half f_one (Some 1000) None None True \<noteq> None"
  by (rule csm_driver_terminates) (simp add: bernoulli_def)

text \<open>
  C28: on a finite stream \<open>csm_driver\<close> always returns or raises, and what it returns is about the
  items it took: the shortest non-empty prefix at which its rules say to stop, or the whole
  stream. The verdict is that of \<open>csm\<close> on the prefix, the rate that of the prefix, and the
  bounds lie in the unit interval.
\<close>

theorem csm_driver_prefix:
  "case csm_driver pf list_stream xs alpha eps max_count min_count bound_eps file of
     None \<Rightarrow> False
   | Some (Inl e, out, rest) \<Rightarrow> suffix rest xs
   | Some (Inr (ok, rate, lo, hi), out, rest) \<Rightarrow>
       \<exists>ys log_eps level. xs = ys @ rest \<and> ys \<noteq> [] \<and>
         bind_result (fdiv pf eps f_two) (log_down pf) = Inr log_eps \<and>
         verdict pf alpha log_eps ys = Inr (ok, level) \<and>
         driver_rate pf (int (length ys)) (count_true ys) = Inr rate \<and> in_unit lo \<and> in_unit hi \<and>
         (rest = [] \<or> driver_stops pf alpha log_eps max_count min_count ys) \<and>
         \<not> (\<exists>i. 0 < i \<and> i < length ys \<and> driver_stops pf alpha log_eps max_count min_count (take i ys))"
  by (rule csm_driver_on_list)

section \<open>The sampler\<close>

definition constant_stream :: "nat \<Rightarrow> (nat dict, nat) pull" where
  "constant_stream g = Got [(''mean'', g), (''q99'', g + 1)] (Suc g)"

lemma constant_stream_uniform: "uniform {''mean'', ''q99''} (taken constant_stream n g)"
proof (induction n arbitrary: g)
  case (Suc n)
  then show ?case
    by (auto simp: uniform_def constant_stream_def)
qed (simp add: uniform_def)

text \<open>
  C15: transport loses nothing. When every value of the generator has the same non-empty set of
  statistics, what \<open>_convert_proto_to_result_dicts\<close> rebuilds from the batch of a worker is a
  non-empty run of consecutive values of its generator, as maps, in order.
\<close>

theorem worker_transport_round_trip:
  assumes "generate_in_parallel_worker pf nv g max_results max_delay r1 r2 now clock = Inr (Some rs)"
    and "\<And>n. uniform ks (taken nv n g)" and "ks \<noteq> {}"
  shows "\<exists>n ds. convert_proto_to_result_dicts rs = Inr ds \<and> length ds = Suc n \<and>
    map map_of ds = map map_of (taken nv (Suc n) g)"
  using assms by (rule worker_round_trip)

lemma worker_returns:
  assumes "nv g = Got v g'" "nv g' = Got v' g''"
  shows "\<exists>rs. generate_in_parallel_worker sample_platform nv g 0 f_one f_zero f_zero f_zero
     (\<lambda>i. f_two) = Inr (Some rs)"
proof -
  have z: "of_int_f64 0 = Inr f_zero" "negative f_zero = False" "magnitude f_zero = 0" "sval f_zero = 0"
    by code_simp+
  have h: "fadd sample_platform f_half f_zero = f_half"
  proof -
    have "fadd sample_platform f_half f_zero = make_f64 False (round_mag (sval f_half) 1)"
      using f_constants(4-6) z finite_not_special [of f_half]
        sval_sign(2) [OF f_constants(4)] finite_not_special [of f_zero] inf_mag_less(2)
      by (simp add: fadd_def add_core_def is_finite_def not_less)
    moreover have "round_mag (sval f_half) 1 = magnitude f_half"
      using round_mag_exact [of "magnitude f_half" 1] magnitude_range(1) [of f_half] f_constants(4,5)
      by (simp add: sval_def is_finite_def)
    ultimately show ?thesis
      using f_constants(4) make_f64_parts [of f_half] by simp
  qed
  have "fmul sample_platform f_zero f_half = f_zero"
    using f_constants(4-6) z finite_not_special [of f_half] inf_mag_less(2)
      round_mag_exact [of 0 unit_scale] unit_scale_pos make_f64_parts [of f_zero]
    by (auto simp: fmul_def is_nan_def is_inf_def)
  moreover have "int_of_f64 f_zero = Inr 0"
    using z inf_mag_less(2) by (simp add: int_of_f64_def is_nan_def is_inf_def)
  ultimately show ?thesis
    using z h assms by (simp add: generate_in_parallel_worker_def Let_def)
qed

theorem worker_transport_round_trip_witness:
  "\<exists>rs n ds. generate_in_parallel_worker sample_platform constant_stream 4 0 f_one f_zero f_zero f_zero
      (\<lambda>i. f_two) = Inr (Some rs) \<and>
    convert_proto_to_result_dicts rs = Inr ds \<and> length ds = Suc n \<and>
    map map_of ds = map map_of (taken constant_stream (Suc n) 4)"
  using worker_returns [of constant_stream 4] worker_transport_round_trip [OF _ constant_stream_uniform]
  by (fastforce simp: constant_stream_def)

text \<open>
  C29: the plan of a set of statistics holds each of them exactly once. Probabilities that compare
  equal share an entry, and each group is the sublist of the statistics with its probability and
  offsets, in the order given.
\<close>

theorem grouping_partitions:
  "mset (plan_statistics (group_statistics_in_plan statistics)) = mset statistics \<and>
   well_grouped statistics (group_statistics_in_plan statistics)"
  by (simp add: group_statistics_mset group_statistics_well_grouped)

text \<open>
  C30: what the receiver of a batch gets from a worker that resamples data. The batch decodes to a
  non-empty list of dicts, each with exactly the names of the statistics, and each value is the
  statistic on the sorted shuffle of the whole sample, one shuffle for all the groups of a
  probability.
\<close>

theorem resampled_batches:
  assumes "generate_in_parallel_worker pf
      (resampled_data_results_1 ex s (group_statistics_in_plan statistics)) (Unstarted seed)
      max_results max_delay r1 r2 now clock = Inr (Some rs)"
    and "statistics \<noteq> []" "distinct (map name statistics)"
  shows "\<exists>ds. convert_proto_to_result_dicts rs = Inr ds \<and> ds \<noteq> [] \<and>
    (\<forall>d \<in> set ds. dom (map_of d) = name ` set statistics \<and>
      plan_computed ex (a_class s @ b_class s) (length (a_class s)) (length (b_class s))
        (group_statistics_in_plan statistics) d)"
proof -
  have "distinct (map name (plan_statistics (group_statistics_in_plan statistics)))"
    using assms(3) group_statistics_mset [of statistics] by (metis mset_eq_imp_distinct_iff mset_map)
  then show ?thesis
    using resampled_batch [OF assms(1)] assms(2) by (simp add: plan_names_group)
qed

lemma sample_resampling:
  "\<exists>d d' g g'. resampled_data_results_1 sample_exact \<lparr>a_class = [1], b_class = [2]\<rparr>
     (group_statistics_in_plan sample_statistics) (Unstarted 0) = Got d g \<and>
   resampled_data_results_1 sample_exact \<lparr>a_class = [1], b_class = [2]\<rparr>
     (group_statistics_in_plan sample_statistics) g = Got d' g'"
  by (simp add: make_buf_def resample_def sample_exact_def sample_statistics_def median_def q99_def quantile_def
      DEFAULT_STATISTIC_def group_statistics_in_plan_def plan_append_def same_float_def u64_def W_def)

theorem resampled_batches_witness:
  "\<exists>rs ds. generate_in_parallel_worker sample_platform
      (resampled_data_results_1 sample_exact \<lparr>a_class = [1], b_class = [2]\<rparr>
        (group_statistics_in_plan sample_statistics)) (Unstarted 0) 0 f_one f_zero f_zero f_zero (\<lambda>i. f_two) =
      Inr (Some rs) \<and>
    convert_proto_to_result_dicts rs = Inr ds \<and> ds \<noteq> [] \<and> dom (map_of (hd ds)) = {''p50'', ''p99''}"
proof -
  obtain rs where rs: "generate_in_parallel_worker sample_platform
      (resampled_data_results_1 sample_exact \<lparr>a_class = [1], b_class = [2]\<rparr>
        (group_statistics_in_plan sample_statistics)) (Unstarted 0) 0 f_one f_zero f_zero f_zero (\<lambda>i. f_two) =
      Inr (Some rs)"
    using sample_resampling worker_returns
      [of "resampled_data_results_1 sample_exact \<lparr>a_class = [1], b_class = [2]\<rparr> (group_statistics_in_plan sample_statistics)"
        "Unstarted 0"] by metis
  have names: "map name sample_statistics = [''p50'', ''p99'']"
    by (simp add: sample_statistics_def median_def q99_def quantile_def DEFAULT_STATISTIC_def)
  have "set (map name sample_statistics) = {''p50'', ''p99''}"
    unfolding names by simp
  then have set: "name ` set sample_statistics = {''p50'', ''p99''}"
    unfolding set_map .
  have ok: "sample_statistics \<noteq> []" "distinct (map name sample_statistics)"
    unfolding names by (simp_all add: sample_statistics_def)
  show ?thesis
  proof (rule exE [OF resampled_batches [OF rs ok, unfolded set]], elim conjE)
    fix ds assume ds: "convert_proto_to_result_dicts rs = Inr ds" "ds \<noteq> []"
      and all: "\<forall>d \<in> set ds. dom (map_of d) = {''p50'', ''p99''} \<and> plan_computed sample_exact
        (a_class \<lparr>a_class = [1], b_class = [2]\<rparr> @ b_class \<lparr>a_class = [1], b_class = [2]\<rparr>)
        (length (a_class \<lparr>a_class = [1], b_class = [2]\<rparr>)) (length (b_class \<lparr>a_class = [1], b_class = [2]\<rparr>))
        (group_statistics_in_plan sample_statistics) d"
    show ?thesis
      by (intro exI [of _ rs] exI [of _ ds] conjI rs ds conjunct1 [OF bspec [OF all]] hd_in_set)
  qed
qed

text \<open>
  C11: the coordinator neither loses nor repeats work. Over any run that does not raise, the
  results yielded are the outcomes of distinct units of work, observed ready; the units yielded
  and the units still pending are exactly those submitted; every batch size stays between the
  initial one and the maximum.
\<close>

theorem coordinator_accounts_for_work:
  assumes "coordinator_run pf cpu_count obss (coordinator_start pf cpu_count now obs) = (g, st)"
    and "drain g = Inr rs" and "0 \<le> cpu_count"
  shows "\<exists>ms. length ms = length rs \<and> distinct ms \<and>
    mset ms + mset (map number (pending st)) = mset [0..<submitted st] \<and>
    (\<forall>i < length rs. \<exists>o' \<in> set obss. ready o' (ms ! i) \<and> outcome o' (ms ! i) = Inr (rs ! i)) \<and>
    (\<forall>f \<in> set (pending st). INITIAL_BATCH_SIZE \<le> batch f \<and> batch f \<le> MAX_BATCH_SIZE cpu_count)"
proof -
  obtain ms where ms: "length ms = length rs" "accounted ([] @ ms) st" "sized cpu_count st"
    "\<forall>i < length rs. \<exists>o' \<in> set obss. ready o' (ms ! i) \<and> outcome o' (ms ! i) = Inr (rs ! i)"
    using coordinator_run_accounted [OF assms(1,2) start_invariants [OF assms(3)] assms(3)] by blast
  then have m: "mset (ms @ map number (pending st)) = mset [0..<submitted st]"
    by (simp add: accounted_def)
  then have "distinct ms"
    using distinct_upt [of 0 "submitted st"] by (metis mset_eq_imp_distinct_iff distinct_append)
  then show ?thesis
    using ms m by (auto simp: sized_def INITIAL_BATCH_SIZE_def)
qed

definition quiet_observation :: "(unit, nat) observation" where
  "quiet_observation = \<lparr>ready = \<lambda>n. n = 0, outcome = \<lambda>n. Inr (n + 7), queue_size = \<lambda>j. int j,
     submit_clock = \<lambda>j. f_zero, generator_args = \<lambda>j. (), end_clock = f_zero\<rparr>"

lemma quiet_run:
  "\<exists>st. coordinator_run sample_platform 1 [quiet_observation]
     (coordinator_start sample_platform 1 f_zero quiet_observation) = (Yield 7 Done, st)"
  by (simp add: coordinator_start_def fill_pending_list_def POOL_SIZE_def max_waiting_def
      quiet_observation_def eval_nat_numeral add_work_unit_def coordinator_step_def
      consume_completed_futures_def Let_def split: prod.split)

theorem coordinator_accounts_for_work_witness:
  "\<exists>st ms. coordinator_run sample_platform 1 [quiet_observation]
      (coordinator_start sample_platform 1 f_zero quiet_observation) = (Yield 7 Done, st) \<and>
    length ms = 1 \<and> distinct ms \<and> mset ms + mset (map number (pending st)) = mset [0..<submitted st]"
proof -
  obtain st where st: "coordinator_run sample_platform 1 [quiet_observation]
     (coordinator_start sample_platform 1 f_zero quiet_observation) = (Yield 7 Done, st)"
    using quiet_run by blast
  show ?thesis
    using coordinator_accounts_for_work [OF st, of "[7]"] st by auto
qed

text \<open>
  C18: in every interleaving of the updater, the cancellation callback and the generator, the
  arguments handed to a worker have both a sample and parameters: the early wake-up of an exit
  never lets the generator read them unset.
\<close>

theorem service_never_reads_unset:
  assumes "service_reachable loads requests st" "(smp, prm) \<in> set (reads st)"
  shows "smp \<noteq> None \<and> prm \<noteq> None"
  using assms by (rule service_reads_populated)

definition sample_request :: "bytes request" where
  "sample_request = \<lparr>a_values = [1], b_values = [2], parameters = [7]\<rparr>"

definition served :: "(bytes, nat) service" where
  "served = (service_start [sample_request])\<lparr>
     shared_state := \<lparr>is_done = False, is_ready = True, sample = Some ([1], [2]), params = Some [7]\<rparr>,
     updater := Serving []\<rparr>"

lemma served_reachable: "service_reachable Inr [sample_request] served"
proof (rule service_reachable.step [OF service_reachable.start])
  have "update_request Inr sample_request (shared_state (service_start [sample_request])) =
      (\<lparr>is_done = False, is_ready = True, sample = Some ([1], [2]), params = Some [7]\<rparr>, None)"
    by (simp add: update_request_def sample_request_def service_start_def)
  then show "service_step Inr (service_start [sample_request]) served"
    unfolding served_def by (rule service_step.serve [rotated]) (simp add: service_start_def)
qed

lemma reading_reachable:
  "service_reachable Inr [sample_request]
     (served\<lparr>simulator := Looping, reads := [(Some ([1], [2]), Some [7])]\<rparr>)"
proof -
  have w: "service_step Inr served (served\<lparr>simulator := Checking\<rparr>)"
    by (rule service_step.wait_ready) (simp_all add: served_def service_start_def)
  have c: "service_step Inr (served\<lparr>simulator := Checking\<rparr>) (served\<lparr>simulator := Looping\<rparr>)"
    using service_step.check [of "served\<lparr>simulator := Checking\<rparr>" Inr]
    by (simp add: served_def service_start_def)
  have r: "service_step Inr (served\<lparr>simulator := Looping\<rparr>)
      (served\<lparr>simulator := Looping, reads := [(Some ([1], [2]), Some [7])]\<rparr>)"
    using service_step.read_params [of "served\<lparr>simulator := Looping\<rparr>" Inr]
    by (simp add: served_def service_start_def)
  show ?thesis
    by (rule service_reachable.step [OF service_reachable.step
        [OF service_reachable.step [OF served_reachable w] c] r])
qed

theorem service_never_reads_unset_witness:
  "service_reachable Inr [sample_request]
     (served\<lparr>simulator := Looping, reads := [(Some ([1], [2]), Some [7])]\<rparr>) \<and>
   Some ([1::int], [2::int]) \<noteq> None \<and> Some [7::8 word] \<noteq> None"
  using reading_reachable service_never_reads_unset [OF reading_reachable, of "Some ([1], [2])" "Some [7]"]
  by simp

text \<open>
  C31: an exit is prompt. In every reachable state, once the updater or the callback has
  finished its exit the events are both set, so nobody keeps waiting for data; and from a
  state in which \<open>done\<close> is set at most one more value is yielded, whatever happens next.
\<close>

theorem service_exit_is_prompt:
  assumes "service_reachable loads requests st" "(service_step loads)\<^sup>*\<^sup>* st st'"
  shows "(updater st = Finishing Closed \<or> canceller st = Closed \<longrightarrow>
      is_ready (shared_state st) \<and> is_done (shared_state st)) \<and>
    (is_done (shared_state st) \<longrightarrow> length (yielded st') \<le> length (yielded st) + 1)"
  using service_wakes [OF assms(1)] done_bounds_yields [OF assms(2)] by blast

definition cancelled :: "(bytes, nat) service" where
  "cancelled = (service_start [])\<lparr>
     shared_state := \<lparr>is_done = True, is_ready = True, sample = None, params = None\<rparr>, canceller := Closed\<rparr>"

lemma cancelled_reachable: "service_reachable Inr [] cancelled"
proof -
  let ?s = "service_start [] :: (bytes, nat) service"
  let ?h = "?s\<lparr>shared_state := \<lparr>is_done = True, is_ready = False, sample = None, params = None\<rparr>,
     canceller := Half\<rparr>"
  have a: "service_step Inr ?s ?h"
    by (rule service_step.cancel) (simp add: service_start_def)
  have b: "service_step Inr ?h (?h\<lparr>shared_state :=
     \<lparr>is_done = True, is_ready = True, sample = None, params = None\<rparr>, canceller := Closed\<rparr>)"
    by (rule service_step.cancel) (simp add: service_start_def)
  show ?thesis
    using service_reachable.step [OF service_reachable.step [OF service_reachable.start a] b]
    by (simp add: cancelled_def)
qed

theorem service_exit_is_prompt_witness:
  "is_ready (shared_state cancelled) \<and> is_done (shared_state cancelled) \<and> length (yielded cancelled) \<le> 1"
  using service_exit_is_prompt [OF cancelled_reachable rtranclp.rtrancl_refl]
  by (simp add: cancelled_def service_start_def)

text \<open>
  C32: the buffered reader sees, of each iterator, a prefix of its values in order, nothing
  twice and nothing made up, and the queue never exceeds its capacity, in every interleaving.
\<close>

theorem buffered_reader_sees_prefixes:
  assumes "buffered_reachable iterators st" "i < length iterators"
  shows "prefix (items_of i (received st)) (gen_values (iterators ! i)) \<and>
    length (queue st) \<le> BUFFER_SIZE + 2 * length iterators"
  using received_prefix [OF assms] by simp

theorem buffered_reader_sees_prefixes_witness:
  "prefix (items_of 0 (received (buffered_enter [Yield (3::nat) Done])))
     (gen_values ([Yield (3::nat) Done] ! 0))"
  using buffered_reader_sees_prefixes [OF buffered_reachable.enter, of 0 "[Yield (3::nat) Done]"] by simp

text \<open>
  C33: the wake-up of the reader can be lost. When an iterator yields exactly as many values as
  the queue holds and then ends, there is an interleaving after which every thread has
  exited, the reader has received all values but no end marker, and the queue is empty: a
  reader that blocks for the next item then waits for ever.
\<close>

theorem buffered_wakeup_can_be_lost:
  assumes "length vs = BUFFER_SIZE + 2"
  shows "\<exists>st. buffered_reachable [foldr Yield vs Done] st \<and> stuck st \<and> items_of 0 (received st) = vs"
  using assms by (rule lost_wakeup)

theorem buffered_wakeup_can_be_lost_witness:
  "\<exists>st. buffered_reachable [foldr Yield [1, 2, 3, 4, 5, 6::nat] Done] st \<and> stuck st \<and>
     items_of 0 (received st) = [1, 2, 3, 4, 5, 6]"
  by (rule buffered_wakeup_can_be_lost) (simp add: BUFFER_SIZE_def)

section \<open>The significance test\<close>

text \<open>
  C9: what the significance test returns is justified by the values it has seen, in every
  interleaving of the test with the generator of values and the batches of the samplers. A
  returned dict has the names of the statistics in order, and every result is either that of
  a statistic resolved before sampling or the judgement of the two confidence sequence tests
  over the tally of a prefix of the values, taken at a multiple of 250; so are the results
  found so far while it runs. An exception comes from the confidence sequence tests or from
  the sampling, never from the bookkeeping of the test.
\<close>

theorem exact_test_sound:
  assumes "exact_start pf ex xoshiro a b statistics eps = Inr (Sampling cfg st)"
    and "\<forall>p. loads (dumps p) = Inr p"
    and "system_reachable pf ex dumps loads inline_eval cfg (system_start cfg st samplers) y"
  shows "case ended y of
      None \<Rightarrow> (\<forall>(nm, r) \<in> set (resolved (test y)). justified pf cfg (seen_values y) nm r)
    | Some (Inl e) \<Rightarrow> csm_raises pf (cfg_eps cfg) (cfg_log_inner_eps cfg) e \<or> sampling_raises ex (cfg_data cfg) e
    | Some (Inr None) \<Rightarrow> True
    | Some (Inr (Some d)) \<Rightarrow> map fst d = map name statistics \<and>
        (\<forall>(nm, r) \<in> set d. justified pf cfg (seen_values y) nm r)"
proof -
  note start = exact_start_looping [OF assms(1)]
  have inv: "system_inv pf ex dumps cfg y"
    by (rule system_reachable_inv [OF assms(3) start(2,1) assms(2)])
  show ?thesis
  proof (cases "ended y")
    case None
    note i = system_inv_running(1) [OF inv None]
    have "justified pf cfg (seen_values y) nm r" if "(nm, r) \<in> set (resolved (test y))" for nm r
      using i map_of_is_SomeI [OF _ that] unfolding exact_inv_def by blast
    then show ?thesis
      using None by auto
  next
    case (Some r)
    then show ?thesis
      using inv start(5) by (auto simp: system_inv_def split: sum.splits option.splits)
  qed
qed

theorem exact_test_sound_witness:
  "\<exists>cfg st y. exact_start sample_platform sample_exact () [1] [2] sample_statistics f_half = Inr (Sampling cfg st) \<and>
     system_reachable sample_platform sample_exact sample_dumps sample_loads True cfg (system_start cfg st 2) y \<and>
     length (seen_values y) = 1 \<and>
     list_all (\<lambda>(nm, r). justified sample_platform cfg (seen_values y) nm r) (resolved (test y))"
proof -
  obtain cfg st y where y: "exact_start sample_platform sample_exact () [1] [2] sample_statistics f_half = Inr (Sampling cfg st)"
    "system_reachable sample_platform sample_exact sample_dumps sample_loads True cfg (system_start cfg st 2) y"
    "length (seen_values y) = 1" "ended y = None"
    using sample_system by blast
  have "\<forall>p. sample_loads (sample_dumps p) = Inr p"
    using sample_pickle by simp
  from exact_test_sound [OF y(1) this y(2), unfolded y(4) option.case] show ?thesis
    using y(1-3) unfolding list_all_iff by blast
qed

text \<open>
  C21: the plans reach the samplers in the order in which the test makes them. In every
  reachable state each queue of requests holds the data and then the plans of the test, up to
  the last one that the generator took, and after the generator has ended, the end marks.
\<close>

theorem plans_sent_in_order:
  assumes "exact_start pf ex xoshiro a b statistics eps = Inr (Sampling cfg st)"
    and "\<forall>p. loads (dumps p) = Inr p"
    and "system_reachable pf ex dumps loads inline_eval cfg (system_start cfg st samplers) y"
  shows "\<exists>n \<le> length (plans (test y)). \<forall>q \<in> set (request_queues (sampler y)).
    q = messages dumps \<lparr>a_class = a, b_class = b\<rparr> (take n (plans (test y))) @
      (if ended y = None then [] else [None, None])"
proof -
  note start = exact_start_looping [OF assms(1)]
  have inv: "system_inv pf ex dumps cfg y"
    by (rule system_reachable_inv [OF assms(3) start(2,1) assms(2)])
  show ?thesis
  proof (cases "ended y")
    case None
    then show ?thesis
      using system_inv_running(2) [OF inv None] start(3)
      by (intro exI [of _ "gets (sampler y)"]) (simp add: queues_ok_def)
  next
    case (Some r)
    then show ?thesis
      using inv start(3) by (auto simp: system_inv_def closed_queues_def)
  qed
qed

theorem plans_sent_in_order_witness:
  "\<exists>cfg st y n. system_reachable sample_platform sample_exact sample_dumps sample_loads True cfg (system_start cfg st 2) y \<and>
     length (request_queues (sampler y)) = 2 \<and>
     hd (request_queues (sampler y)) = messages sample_dumps \<lparr>a_class = [1], b_class = [2]\<rparr> (take n (plans (test y)))"
proof -
  obtain cfg st y where y: "exact_start sample_platform sample_exact () [1] [2] sample_statistics f_half = Inr (Sampling cfg st)"
    "system_reachable sample_platform sample_exact sample_dumps sample_loads True cfg (system_start cfg st 2) y"
    "ended y = None" "length (request_queues (sampler y)) = 2"
    using sample_system by blast
  have "\<forall>p. sample_loads (sample_dumps p) = Inr p"
    using sample_pickle by simp
  from plans_sent_in_order [OF y(1) this y(2)] obtain n where
    n: "\<forall>q \<in> set (request_queues (sampler y)). q = messages sample_dumps \<lparr>a_class = [1], b_class = [2]\<rparr> (take n (plans (test y)))"
    unfolding y(3) by auto
  have "hd (request_queues (sampler y)) \<in> set (request_queues (sampler y))"
    using y(4) by (intro hd_in_set) auto
  from bspec [OF n this] show ?thesis
    using y(2,4) by blast
qed

text \<open>
  C10: from the test to the worker. While a test runs, a worker of any sampler that serves the
  requests of its queue gets the data of the test and one of the plans of the test, and that plan
  still covers every statistic that has no result, and only statistics of the test.
\<close>

theorem workers_get_plans_of_the_test:
  assumes "exact_start pf ex xoshiro a b statistics eps = Inr (Sampling cfg st)"
    and "\<forall>p. loads (dumps p) = Inr p \<and> dumps p \<noteq> []"
    and "system_reachable pf ex dumps loads inline_eval cfg (system_start cfg st samplers) y" "ended y = None"
    and "q \<in> set (request_queues (sampler y))" "service_reachable loads (queue_requests q) server"
    and "(u, v) \<in> set (reads server)"
  shows "u = Some (a, b) \<and> (\<exists>p \<in> set (plans (test y)). v = Some p \<and>
    unresolved cfg (test y) \<subseteq> plan_names p \<and> plan_names p \<subseteq> name ` set statistics)"
proof -
  note start = exact_start_looping [OF assms(1)]
  have inv: "system_inv pf ex dumps cfg y"
    by (rule system_reachable_inv [OF assms(3) start(2,1)]) (use assms(2) in simp)
  note run = system_inv_running [OF inv assms(4)]
  let ?ps = "take (gets (sampler y)) (plans (test y))"
  have "q = messages dumps (cfg_data cfg) ?ps"
    using run(2) assms(5) by (simp add: queues_ok_def)
  then have "service_reachable loads (initial_req (cfg_data cfg) # map (plan_req dumps) ?ps) server"
    using assms(6) by (simp add: queue_requests_messages)
  from service_reads_plans [OF this assms(7,2)] obtain p where
    p: "p \<in> set (plans (test y))" "u = Some (a, b)" "v = Some p"
    using start(3) in_set_takeD by fastforce
  have "unresolved cfg (test y) \<subseteq> plan_names p" "plan_names p \<subseteq> stat_names cfg"
    using run(1) p(1) unfolding exact_inv_def by blast+
  moreover have "stat_names cfg = name ` set statistics"
    unfolding stat_names_def start(5) by simp
  ultimately show ?thesis
    using p by blast
qed

theorem workers_get_plans_of_the_test_witness:
  "\<exists>cfg st y p. system_reachable sample_platform sample_exact sample_dumps sample_loads True cfg (system_start cfg st 2) y \<and>
     p \<in> set (plans (test y)) \<and> unresolved cfg (test y) \<subseteq> plan_names p \<and>
     plan_names p \<subseteq> name ` set sample_statistics"
proof -
  obtain cfg st y where y: "exact_start sample_platform sample_exact () [1] [2] sample_statistics f_half = Inr (Sampling cfg st)"
    "system_reachable sample_platform sample_exact sample_dumps sample_loads True cfg (system_start cfg st 2) y"
    "ended y = None" "length (request_queues (sampler y)) = 2" "gets (sampler y) = 1"
    using sample_system by blast
  have pickle: "\<forall>p. sample_loads (sample_dumps p) = Inr p"
    using sample_pickle by simp
  note start = exact_start_looping [OF y(1)]
  note inv = system_reachable_inv [OF y(2) start(2,1) pickle]
  note run = system_inv_running [OF inv y(3)]
  obtain p ps where p: "plans (test y) = p # ps"
    using run(1) by (cases "plans (test y)") (simp_all add: exact_inv_def)
  obtain q where q: "q \<in> set (request_queues (sampler y))"
    using y(4) by (cases "request_queues (sampler y)") auto
  then have "q = messages sample_dumps (cfg_data cfg) [p]"
    using run(2) y(5) p by (simp add: queues_ok_def)
  then have reqs: "queue_requests q = [initial_req (cfg_data cfg), plan_req sample_dumps p]"
    by (simp add: queue_requests_messages)
  obtain server :: "(plan, nat) service" where
    server: "service_reachable sample_loads (queue_requests q) server"
    "(Some (a_class (cfg_data cfg), b_class (cfg_data cfg)), Some p) \<in> set (reads server)"
    unfolding reqs using sample_service [of "cfg_data cfg" sample_loads sample_dumps p] start(3) sample_pickle
    by auto
  from workers_get_plans_of_the_test [OF y(1) sample_pickle y(2,3) q server] show ?thesis
    using y(2) by blast
qed

text \<open>
  C34: the samplers can end a test without a result. When the test needs sampling and no value is
  evaluated inline, there is a run in which the iterator of a sampler ends at once, and the call
  returns \<open>None\<close> in the place of a dict.
\<close>

theorem exact_test_can_return_nothing:
  assumes "exact_start pf ex xoshiro a b statistics eps = Inr (Sampling cfg st)" and "0 < samplers"
  shows "\<exists>y. system_reachable pf ex dumps loads False cfg (system_start cfg st samplers) y \<and>
    ended y = Some (Inr None) \<and> seen_values y = []"
proof -
  have "plans st \<noteq> []"
    using exact_start_looping(2) [OF assms(1)] by (simp add: exact_inv_def)
  then show ?thesis
    using assms(2) by (rule ends_without_result)
qed

theorem exact_test_can_return_nothing_witness:
  "\<exists>cfg st y. exact_start sample_platform sample_exact () [1] [2] sample_statistics f_half = Inr (Sampling cfg st) \<and>
     system_reachable sample_platform sample_exact sample_dumps sample_loads False cfg (system_start cfg st 1) y \<and>
     ended y = Some (Inr None)"
proof -
  obtain cfg st where st: "exact_start sample_platform sample_exact () [1] [2] sample_statistics f_half = Inr (Sampling cfg st)"
    using sample_start by blast
  from exact_test_can_return_nothing [OF st zero_less_one] st show ?thesis
    by blast
qed

section \<open>Comparing versions, traces, headers and servers\<close>

text \<open>
  C19: a comparison is fair and complete. When it returns, both versions have been timed on every
  size the same number of times, which is the number of times that the size occurs in the rounds
  made, less its occurrences in the first block; the list of sizes comes back permuted. The
  result is keyed by version, so that two builds of one commit leave a single entry.
\<close>

theorem compare_inputs_records:
  assumes "compare_inputs env arg xs = Inr (d, xs')" and "0 < block_size arg" and "0 \<le> arg_min_count arg"
    and "\<forall>k n. mset (shuffle_order env k n) = mset [0..<n]"
  shows "mset xs' = mset xs \<and>
    (\<exists>l0 s0 l1 s1. build_version env arg (current arg) 0 = Inr (l0, s0) \<and>
       build_version env arg (baseline arg) 1 = Inr (l1, s1) \<and>
       map fst d = (if s0 = s1 then [s0] else [s0, s1])) \<and>
    (\<forall>(s, r) \<in> set d. \<forall>len. length (timings_of r len) =
       rounds arg xs * count_list xs len - count_list (take (block_size arg) xs) len)"
proof -
  obtain l0 s0 l1 s1 r0 r1 where run: "build_version env arg (current arg) 0 = Inr (l0, s0)"
    "build_version env arg (baseline arg) 1 = Inr (l1, s1)" "d = AList.update s1 r1 [(s0, r0)]" "mset xs' = mset xs"
    "\<And>r len. r \<in> {r0, r1} \<Longrightarrow> length (timings_of r len) =
       rounds arg xs * count_list xs len - count_list (take (block_size arg) xs) len"
    using compare_inputs_timings [OF assms] by (metis (no_types, lifting))
  have "map fst d = (if s0 = s1 then [s0] else [s0, s1])" "\<forall>(s, r) \<in> set d. r \<in> {r0, r1}"
    unfolding run(3) by auto
  then show ?thesis
    using run(1,2,4,5) by blast
qed

definition sample_library :: library where
  "sample_library = \<lparr>symbols = [(''umash_bench_individual'', \<lambda>k opts buf n m i. int (10 * k + i))],
     option_fields = [], option_sizeof = 8\<rparr>"

definition sample_bench :: bench_env where
  "sample_bench = \<lparr>check_output = (\<lambda>commit flags. Inr (''Building umash_bench_runner-'' @ commit @ ''.so;'' @ [newline])),
     load_library = (\<lambda>version. Inr sample_library), environ = [], shuffle_order = (\<lambda>k n. [0..<n])\<rparr>"

definition sample_comparison :: bench_arguments where
  "sample_comparison = \<lparr>current = ''ab'', baseline = ''cd'', cflags = Both None, cc = Both None, block_size = 2,
     arg_min_count = 3, runner_name = ''umash_bench_individual'', bench_options = []\<rparr>"

lemma sample_build:
  "list_all is_hex_digit commit \<Longrightarrow> build_version sample_bench sample_comparison commit i = Inr (sample_library, commit)"
  using runner_version_commit [of commit "[]"]
  by (simp add: build_version_def sample_bench_def sample_comparison_def build_and_load_def)

lemma sample_compared:
  "compare_inputs sample_bench sample_comparison [5, 7, 5] =
     Inr ([(''ab'', [(5, [20, 40, 60]), (7, [41])]), (''cd'', [(5, [30, 50, 70]), (7, [51])])], [5, 7, 5])"
  by code_simp

theorem compare_inputs_records_witness:
  "\<exists>d xs'. compare_inputs sample_bench sample_comparison [5, 7, 5] = Inr (d, xs') \<and> map fst d = [''ab'', ''cd''] \<and>
     list_all (\<lambda>(s, r). length (timings_of r 5) = 3 \<and> length (timings_of r 7) = 1) d"
proof -
  obtain d xs' where d: "compare_inputs sample_bench sample_comparison [5, 7, 5] = Inr (d, xs')"
    using sample_compared by blast
  have "0 < block_size sample_comparison" "0 \<le> arg_min_count sample_comparison"
    "\<forall>k n. mset (shuffle_order sample_bench k n) = mset [0..<n]"
    "rounds sample_comparison [5, 7, 5] = 2" "block_size sample_comparison = 2"
    by (simp_all add: sample_comparison_def sample_bench_def rounds_def)
  note facts = this
  have b: "build_version sample_bench sample_comparison (current sample_comparison) 0 = Inr (sample_library, ''ab'')"
    "build_version sample_bench sample_comparison (baseline sample_comparison) 1 = Inr (sample_library, ''cd'')"
    using sample_build [of "''ab''" 0] sample_build [of "''cd''" 1]
    by (simp_all add: sample_comparison_def is_hex_digit_def)
  note r = compare_inputs_records [OF d facts(1-3), unfolded b facts(4,5)]
  have "map fst d = [''ab'', ''cd'']"
    using r by auto
  moreover have "list_all (\<lambda>(s, r). length (timings_of r 5) = 3 \<and> length (timings_of r 7) = 1) d"
    using r by (auto simp: list_all_iff numeral_2_eq_2)
  ultimately show ?thesis
    by (intro exI [of _ d] exI [of _ xs'] conjI d)
qed

text \<open>
  C35: the decoding of a trace inverts the printing of a call: from a line for a call, whatever
  comes before the event, \<open>umash_full_calls\<close> gets the thread and the four arguments; a line without
  the event gives nothing.
\<close>

theorem trace_line_round_trip:
  assumes "line_parts_ok lead comm gap middle hex" and "which < 10"
    and "\<not> sublist ''sdt_libumash:umash_full: ('' other"
  shows "calls_of_lines (gen_of_list [other, call_line lead comm gap tid middle hex prm which address sz]) =
    gen_of_list [(''umash_full'', [int tid, int prm, int which, int address, int sz])]"
  by (simp add: decode_call_line [OF assms(1,2)] decode_other_line [OF assms(3)])

theorem trace_line_round_trip_witness:
  "calls_of_lines (gen_of_list [''header'', call_line '' '' ''prog'' [] 12 '' [000] 1.5: '' ''7f'' 3 1 4 16]) =
     gen_of_list [(''umash_full'', [12, 3, 1, 4, 16])]"
proof -
  have "line_parts_ok '' '' ''prog'' [] '' [000] 1.5: '' ''7f''"
    by (simp add: line_parts_ok_def is_space_byte_def is_digit_def not_newline_def newline_def is_hex_digit_def)
  moreover have "\<not> sublist ''sdt_libumash:umash_full: ('' ''header''"
    by (auto dest: sublist_length_le)
  ultimately show ?thesis
    using trace_line_round_trip [of "'' ''" "''prog''" "[]" "'' [000] 1.5: ''" "''7f''" 1 "''header''" 12 3 4 16] by simp
qed

text \<open>
  C36: the cache keeps what was copied. After the first call for a URL, every later call reads
  the same contents without the network, even when the copy was cut short by an exception, which
  only the first call reports.
\<close>

theorem cache_keeps_what_was_copied:
  assumes "get_file_contents env urlopen url d = (r, d')" and "urlopen url = Copied contents err"
    and "cached_file d = (\<lambda>_. None)" and "rsplit_slash url = Inr (dir, full)"
  shows "r = (case err of None \<Rightarrow> decompress_by_ext env contents (snd (splitext full)) | Some e \<Rightarrow> Inl e) \<and>
    get_file_contents env urlopen' url d' = (decompress_by_ext env contents (snd (splitext full)), d')"
  using assms by (rule cached_afterwards)

definition sample_cache :: trace_env where
  "sample_cache = \<lparr>CACHE_DIR = ''traces/'', hexdigest = (\<lambda>url. ''00''), bz2_lines = (\<lambda>s. gen_of_list (file_lines s))\<rparr>"

theorem cache_keeps_what_was_copied_witness:
  "\<exists>d'. get_file_contents sample_cache (\<lambda>url. Copied ''abc'' (Some ValueError)) ''http://w/t'' \<lparr>cache_exists = False, cached_file = (\<lambda>_. None)\<rparr>
      = (Inl ValueError, d') \<and>
    get_file_contents sample_cache (\<lambda>url. Refused ValueError) ''http://w/t'' d' = (Inr (Yield ''abc'' Done), d')"
proof -
  let ?d = "\<lparr>cache_exists = False, cached_file = (\<lambda>_. None)\<rparr>"
  let ?cut = "\<lambda>url. Copied ''abc'' (Some ValueError)"
  obtain r d' where first: "get_file_contents sample_cache ?cut ''http://w/t'' ?d = (r, d')"
    by fastforce
  have u: "rsplit_slash ''http://w/t'' = Inr (''http://w'', ''t'')" "snd (splitext ''t'') = []"
    by (simp_all add: rsplit_slash_def slash_def splitext_def period_def)
  have "cached_file ?d = (\<lambda>_. None)"
    by simp
  note later = cache_keeps_what_was_copied [OF first refl this u(1), of "\<lambda>url. Refused ValueError", unfolded u(2)]
  have "decompress_by_ext sample_cache ''abc'' [] = Inr (Yield ''abc'' Done)"
    by (simp add: decompress_by_ext_def newline_def)
  then show ?thesis
    using later first by simp
qed

text \<open>
  C37: the sizes of a trace are the sizes in range of all its calls, thread by thread in the order
  in which the threads first have such a call, and in the order of the calls within a thread.
\<close>

theorem trace_sizes_by_thread:
  "let sizes = kept_sizes min_size limit length_fixup trace in
     full_call_sizes (gen_of_list trace) min_size limit length_fixup =
       Inr (concat (map (by_thread sizes) (first_seen (map fst sizes)))) \<and>
     mset (concat (map (by_thread sizes) (first_seen (map fst sizes)))) = mset (map snd sizes)"
  by (simp only: Let_def full_call_sizes_by_thread concat_by_thread)

text \<open>
  C38: a stripped header is what is left of the file without its directives: the replacements
  applied to each line that neither opens a directive nor follows one through lines that end in a
  backslash, in order.
\<close>

theorem header_without_directives:
  "read_stripped_header replacements contents =
     (let lines = file_lines contents in
      concat (map (\<lambda>i. replace_all replacements (lines ! i)) (filter (\<lambda>i. \<not> in_some_directive lines i) [0..<length lines])))"
  by (rule stripped_header_lines)

text \<open>
  C39: a benchmark library that loads. Every symbol that \<open>dir\<close> names was read, and when \<open>dir\<close> is
  sorted, a name of the name space that \<open>load_bench\<close> returns gives the symbol with the version
  suffix when there is one, else the symbol of that very name unless it ends in the suffix, else
  the library for \<open>__lib\<close>.
\<close>

theorem versioned_symbol_wins:
  assumes "load_bench open_file cdef dlopen getattr toplevel ffi version = Inr (ns, ffi', v)"
    and "dlopen ffi' (toplevel @ ''umash_bench_runner-'' @ version @ ''.so'') = Inr (lib, names)"
    and "sorted names" and "distinct names"
  shows "v = version \<and> (\<forall>nm \<in> set names. \<exists>x. getattr lib nm = Inr x) \<and> map_of ns k =
    (if k @ ''_'' @ version \<in> set names then Some (projr (getattr lib (k @ ''_'' @ version)))
     else if k \<in> set names \<and> \<not> suffix (''_'' @ version) k then Some (projr (getattr lib k))
     else if k = ''__lib'' then Some lib else None)"
proof -
  have v: "v = version" and ns: "renamed_symbols version lib (getattr lib) names = Inr ns"
    using load_bench_Inr [OF assms(1)] assms(2) by (metis Inr_inject Pair_inject)+
  show ?thesis
    using v rename_loop_Inr(1) [OF ns [unfolded renamed_symbols_def]] renamed_lookup [OF ns assms(3,4)] by blast
qed

definition sample_dlopen :: "string list \<Rightarrow> string \<Rightarrow> (nat \<times> string list) result" where
  "sample_dlopen ffi path = Inr (0, [''f'', ''f_W'', ''g''])"

definition sample_getattr :: "nat \<Rightarrow> string \<Rightarrow> nat result" where
  "sample_getattr c nm =
     (if nm = ''f'' then Inr 1 else if nm = ''f_W'' then Inr 2 else if nm = ''g'' then Inr 3
      else Inl AttributeError)"

definition sample_load :: "((string \<times> nat) list \<times> string list \<times> string) result" where
  "sample_load = load_bench (\<lambda>path. Inr ''int ID(f)(void);'') (\<lambda>ffi text. Inr (ffi @ [text]))
     sample_dlopen sample_getattr ''/'' [] ''W''"

lemma sample_loaded:
  "sample_load = Inr ([(''__lib'', 0), (''f'', 2), (''g'', 3)], [''int f_W(void);''], ''W'')"
  by code_simp

theorem versioned_symbol_wins_witness:
  "map_of (fst (projr sample_load)) ''f'' = Some 2 \<and> map_of (fst (projr sample_load)) ''g'' = Some 3"
proof -
  have d: "sample_dlopen [''int f_W(void);''] (''/'' @ ''umash_bench_runner-'' @ ''W'' @ ''.so'') =
      Inr (0, [''f'', ''f_W'', ''g''])"
    by (rule sample_dlopen_def)
  have o: "sorted [''f'', ''f_W'', ''g'']" "distinct [''f'', ''f_W'', ''g'']"
    by (simp_all add: less_char_def less_eq_char_def)
  have l: "load_bench (\<lambda>path. Inr ''int ID(f)(void);'') (\<lambda>ffi text. Inr (ffi @ [text]))
      sample_dlopen sample_getattr ''/'' [] ''W'' =
      Inr ([(''__lib'', 0), (''f'', 2), (''g'', 3)], [''int f_W(void);''], ''W'')"
    by (rule sample_loaded [unfolded sample_load_def])
  note s = versioned_symbol_wins [OF l, OF d, OF o]
  show ?thesis
    using s [of "''f''"] s [of "''g''"] unfolding sample_loaded sum.sel fst_conv
    by (simp add: suffix_def Cons_eq_append_conv sample_getattr_def)
qed

text \<open>
  C40: the samplers of a test. The configuration is the first file when it has a section for a
  server and the second one otherwise, for the local settings too; the stubs are the local one, if
  that configuration allows it, and then those of the servers that answer, in the order of their
  sections, each at the host and port of its section.
\<close>

theorem samplers_of_configuration:
  assumes "get_sampler_servers False toplevel read connect local_stub = Inr (stubs, inline_eval)"
    and "read (CONFIG_PATH toplevel) = Inr c1" and "read (SECONDARY_CONFIG_PATH toplevel) = Inr c2"
    and "c = (if server_sections c1 = [] then c2 else c1)"
  shows "\<exists>use_local.
    config_getboolean c ''local_sampler_executor'' ''local_parallelism'' True = Inr use_local \<and>
    config_getboolean c ''local_sampler_executor'' ''inline_evaluation'' True = Inr inline_eval \<and>
    stubs = (case local_stub of Some stub \<Rightarrow> if use_local then [stub] else [] | None \<Rightarrow> []) @
      List.map_filter (\<lambda>h. connect h (endpoint c h)) (server_sections c)"
  using assms by (rule sampler_servers_of_config)

definition local_only :: config where
  "local_only = \<lparr>config_defaults = [], config_sections = [(''local_sampler_executor'', [(''inline_evaluation'', ''False'')])]\<rparr>"

definition one_server :: config where
  "one_server = \<lparr>config_defaults = [], config_sections = [(''host'', [(''port'', ''80'')])]\<rparr>"

lemma lower_False: "lower ''False'' = ''false''"
  by code_simp

theorem samplers_of_configuration_witness:
  "get_sampler_servers False [] (\<lambda>path. if path = CONFIG_PATH [] then Inr local_only else Inr one_server)
     (\<lambda>h conn. Some conn) (Some ''local'') = Inr ([''local'', ''host:80''], True)"
proof -
  let ?read = "\<lambda>path. if path = CONFIG_PATH [] then Inr local_only else Inr one_server"
  have get: "\<exists>stubs inline_eval. get_sampler_servers False [] ?read (\<lambda>h conn. Some conn) (Some ''local'') = Inr (stubs, inline_eval)"
    by (auto simp: get_sampler_servers_def parse_sampler_servers_def config_getboolean_def config_lookup_def config_get_def local_only_def
      one_server_def CONFIG_PATH_def SECONDARY_CONFIG_PATH_def BOOLEAN_STATES_def lower_False)
  then obtain stubs inline_eval where g: "get_sampler_servers False [] ?read (\<lambda>h conn. Some conn) (Some ''local'') = Inr (stubs, inline_eval)"
    by blast
  have r: "?read (CONFIG_PATH []) = Inr local_only" "?read (SECONDARY_CONFIG_PATH []) = Inr one_server"
    "one_server = (if server_sections local_only = [] then one_server else local_only)"
    by (simp_all add: CONFIG_PATH_def SECONDARY_CONFIG_PATH_def server_sections_def local_only_def)
  show ?thesis
    using samplers_of_configuration [OF g r] unfolding g
    by (auto simp: config_getboolean_def config_lookup_def one_server_def server_sections_def endpoint_def List.map_filter_simps)
qed

end
